(* ===== verification/Prelude.thy ===== *)
theory Prelude
  imports Main "HOL-Library.Word" "HOL-Library.AList"
begin

text \<open>
  What the component theories share: the widths of the machine integers, the model of
  the standard library's maps, durations and decimal formatting, and the locale of state
  machines whose invariant every operation keeps.

  \<^item> \<open>usize\<close> and \<open>u64\<close> counters on which the code does arithmetic are \<^typ>\<open>64 word\<close>,
    whose \<open>+\<close> wraps as the release profile does. Lengths that only grow with
    memory (\<open>Vec::len\<close>, \<open>String::len\<close>, \<open>HashMap::len\<close>) are \<^typ>\<open>nat\<close>.
  \<^item> A Rust \<open>String\<close> is the list of its UTF-8 bytes (\<^typ>\<open>string\<close>), so that
    \<open>length\<close> is \<open>String::len\<close>.
  \<^item> \<open>HashMap\<close> and \<open>BTreeMap\<close> are association lists with distinct keys
    (predicate \<open>keys_ok\<close>): \<open>insert\<close> is \<^const>\<open>AList.update\<close>, \<open>remove\<close> is
    \<^const>\<open>AList.delete\<close>, \<open>get\<close> is \<^const>\<open>map_of\<close>, \<open>retain\<close> is \<^const>\<open>filter\<close>.
  \<^item> An \<open>Instant\<close> and a \<open>Duration\<close> are nanosecond counts; the operations that
    read the clock take the instant they read as an argument.
\<close>

section \<open>Types\<close>

type_synonym u16 = "16 word"
type_synonym u64 = "64 word"
type_synonym instant = nat
type_synonym duration = nat

text \<open>\<open>Result<T, E>\<close> is the sum type with the error on the left.\<close>

type_synonym ('e, 'a) result = "'e + 'a"

abbreviation Err :: "'e \<Rightarrow> ('e, 'a) result" where "Err \<equiv> Inl"
abbreviation Ok :: "'a \<Rightarrow> ('e, 'a) result" where "Ok \<equiv> Inr"

type_synonym ('k, 'v) hash_map = "('k \<times> 'v) list"

section \<open>Maps\<close>

definition keys_ok :: "('k, 'v) hash_map \<Rightarrow> bool" where
  "keys_ok m \<longleftrightarrow> distinct (map fst m)"

definition contains_key :: "('k, 'v) hash_map \<Rightarrow> 'k \<Rightarrow> bool" where
  "contains_key m k \<longleftrightarrow> map_of m k \<noteq> None"

section \<open>Durations\<close>

definition from_millis :: "u64 \<Rightarrow> duration" where
  "from_millis ms = unat ms * 1000000"

text \<open>\<open>Instant::duration_since\<close> and \<open>saturating_duration_since\<close> are both zero when the
  argument is later.\<close>

definition duration_since :: "instant \<Rightarrow> instant \<Rightarrow> duration" where
  "duration_since now earlier = now - earlier"

definition as_millis :: "duration \<Rightarrow> nat" where
  "as_millis d = d div 1000000"

section \<open>Decimal formatting\<close>

definition digit :: "nat \<Rightarrow> char" where
  "digit n = char_of (48 + n)"

fun dec :: "nat \<Rightarrow> string" where
  "dec n = (if n < 10 then [digit n] else dec (n div 10) @ [digit (n mod 10)])"

declare dec.simps [simp del]

definition dec_int :: "int \<Rightarrow> string" where
  "dec_int i = (if i < 0 then CHR ''-'' # dec (nat (- i)) else dec (nat i))"

definition dec_u64 :: "u64 \<Rightarrow> string" where
  "dec_u64 w = dec (unat w)"

section \<open>Checked and saturating arithmetic on 64-bit words\<close>

definition checked_mul_u64 :: "u64 \<Rightarrow> u64 \<Rightarrow> u64 option" where
  "checked_mul_u64 a b = (if unat a * unat b < 2 ^ 64 then Some (a * b) else None)"

definition saturating_mul_u64 :: "u64 \<Rightarrow> u64 \<Rightarrow> u64" where
  "saturating_mul_u64 a b = (if unat a * unat b < 2 ^ 64 then a * b else - 1)"

definition saturating_sub_u64 :: "u64 \<Rightarrow> u64 \<Rightarrow> u64" where
  "saturating_sub_u64 a b = (if b \<le> a then a - b else 0)"

section \<open>Counting\<close>

definition occurs :: "('a \<Rightarrow> bool) \<Rightarrow> 'a list \<Rightarrow> nat" where
  "occurs P xs = length (filter P xs)"

lemma occurs_simps [simp]:
  "occurs P [] = 0"
  "occurs P (x # xs) = (if P x then 1 else 0) + occurs P xs"
  "occurs P (xs @ ys) = occurs P xs + occurs P ys"
  by (simp_all add: occurs_def)

lemma occurs_delete:
  "map_of vs n = Some v \<Longrightarrow> occurs P (AList.delete n vs) + (if P (n, v) then 1 else 0) \<le> occurs P vs"
proof (induction vs)
  case (Cons x vs)
  have le: "occurs P (AList.delete n vs) \<le> occurs P vs"
    by (induction vs) auto
  obtain m w where "x = (m, w)" by (cases x)
  with Cons le show ?case by (cases "m = n") auto
qed simp

lemma occurs_delete_eq:
  assumes "keys_ok vs" "map_of vs n = Some v"
  shows "occurs P (AList.delete n vs) + (if P (n, v) then 1 else 0) = occurs P vs"
  using assms
proof (induction vs)
  case (Cons x vs)
  have "n \<notin> fst ` set vs \<Longrightarrow> AList.delete n vs = vs"
    by (induction vs) auto
  with Cons show ?case by (cases x) (auto simp: keys_ok_def)
qed simp

lemma occurs_update_eq:
  assumes "keys_ok vs" "map_of vs n = Some v"
  shows "occurs P (AList.update n w vs) + (if P (n, v) then 1 else 0) =
    occurs P vs + (if P (n, w) then 1 else 0)"
  using assms
proof (induction vs)
  case (Cons x vs)
  then show ?case by (cases x) (auto simp: keys_ok_def)
qed simp

section \<open>State machines with an invariant\<close>

text \<open>
  A component is a step function on its state, an initial state and an invariant that the
  step keeps. The operations are the values of the event type; what a step returns to its
  caller is the output.
\<close>

primrec run_steps :: "('s \<Rightarrow> 'e \<Rightarrow> 's \<times> 'o) \<Rightarrow> 's \<Rightarrow> 'e list \<Rightarrow> 's \<times> 'o list" where
  "run_steps step s [] = (s, [])"
| "run_steps step s (e # es) =
     (let (s', out) = step s e; (s'', outs) = run_steps step s' es in (s'', out # outs))"

locale guarded_machine =
  fixes step :: "'s \<Rightarrow> 'e \<Rightarrow> 's \<times> 'o"
    and ok :: "'e \<Rightarrow> bool"
    and inv :: "'s \<Rightarrow> bool"
  assumes guarded_step_inv: "inv s \<Longrightarrow> ok e \<Longrightarrow> inv (fst (step s e))"
begin

lemma guarded_run_inv: "inv s \<Longrightarrow> list_all ok es \<Longrightarrow> inv (fst (run_steps step s es))"
proof (induction es arbitrary: s)
  case Nil
  then show ?case by simp
next
  case (Cons e es)
  then have "inv (fst (step s e))" by (simp add: guarded_step_inv)
  with Cons.prems(2) have "inv (fst (run_steps step (fst (step s e)) es))"
    by (intro Cons.IH) simp_all
  then show ?case by (simp add: split_beta Let_def)
qed

end

text \<open>A machine whose invariant every event keeps.\<close>

locale machine =
  fixes step :: "'s \<Rightarrow> 'e \<Rightarrow> 's \<times> 'o"
    and inv :: "'s \<Rightarrow> bool"
  assumes step_inv: "inv s \<Longrightarrow> inv (fst (step s e))"

sublocale machine \<subseteq> guarded_machine step "\<lambda>e. True" inv
  by unfold_locales (rule step_inv)

context machine
begin

lemma run_inv: "inv s \<Longrightarrow> inv (fst (run_steps step s es))"
  by (rule guarded_run_inv) (simp_all add: list_all_iff)

end

lemma run_steps_append:
  "run_steps step s (es @ fs) =
     (let (s', o1) = run_steps step s es; (s'', o2) = run_steps step s' fs in (s'', o1 @ o2))"
  by (induction es arbitrary: s) (auto simp: split_beta Let_def)

section \<open>Lemma collections and generic lemmas\<close>

named_theorems map_simps \<open>rewriting of lookups and lengths of the association lists\<close>
named_theorems word_simps \<open>unsigned values of 64-bit arithmetic that does not wrap\<close>

lemma keys_ok_Nil [simp]: "keys_ok []"
  by (simp add: keys_ok_def)

lemma keys_ok_update [simp]: "keys_ok m \<Longrightarrow> keys_ok (AList.update k v m)"
  by (simp add: keys_ok_def distinct_update)

lemma keys_ok_delete [simp]: "keys_ok m \<Longrightarrow> keys_ok (AList.delete k m)"
  by (simp add: keys_ok_def distinct_delete)

lemma keys_ok_filter [simp]: "keys_ok m \<Longrightarrow> keys_ok (filter P m)"
  by (simp add: keys_ok_def distinct_map_filter)

lemma map_of_update [simp, map_simps]:
  "map_of (AList.update k v m) = (map_of m)(k \<mapsto> v)"
  by (simp add: update_conv')

lemma map_of_delete [simp, map_simps]:
  "map_of (AList.delete k m) = (map_of m)(k := None)"
  by (simp add: delete_conv')

lemma contains_key_iff: "contains_key m k \<longleftrightarrow> k \<in> fst ` set m"
  by (simp add: contains_key_def map_of_eq_None_iff)

lemma length_update_old [map_simps]:
  "contains_key m k \<Longrightarrow> length (AList.update k v m) = length m"
  by (induction m) (auto simp: contains_key_iff)

lemma length_update_new [map_simps]:
  "\<not> contains_key m k \<Longrightarrow> length (AList.update k v m) = Suc (length m)"
  by (induction m) (auto simp: contains_key_iff)

lemma update_new: "\<not> contains_key m k \<Longrightarrow> AList.update k v m = m @ [(k, v)]"
  by (induction m) (auto simp: contains_key_iff)

lemma delete_notin: "\<not> contains_key m k \<Longrightarrow> AList.delete k m = m"
  by (induction m) (auto simp: contains_key_iff AList.delete_eq)

lemma length_delete_le: "length (AList.delete k m) \<le> length m"
  by (simp add: AList.delete_eq)

lemma length_delete_present:
  "contains_key m k \<Longrightarrow> length (AList.delete k m) < length m"
  by (simp add: contains_key_iff AList.delete_eq)
     (metis (mono_tags, lifting) case_prod_unfold imageE length_filter_less)

lemma length_update_le: "length (AList.update k v m) \<le> Suc (length m)"
  by (cases "contains_key m k") (simp_all add: map_simps)

lemma set_update_subset: "set (AList.update k v m) \<subseteq> insert (k, v) (set m)"
  by (induction m) auto

lemma update_same: "map_of m k = Some v \<Longrightarrow> AList.update k v m = m"
  by (induction m) auto

lemma update_twice: "AList.update k v (AList.update k w m) = AList.update k v m"
  by (induction m) auto

lemma delete_update_new: "\<not> contains_key m k \<Longrightarrow> AList.delete k (AList.update k v m) = m"
  by (simp add: update_new AList.delete_eq filter_empty_conv)
     (auto simp: contains_key_iff filter_id_conv image_iff)

lemma list_all_update:
  "list_all P m \<Longrightarrow> P (k, v) \<Longrightarrow> list_all P (AList.update k v m)"
  by (induction m) auto

lemma list_all_delete: "list_all P m \<Longrightarrow> list_all P (AList.delete k m)"
  by (auto simp: AList.delete_eq list_all_iff)

lemma set_delete_subset: "set (AList.delete k m) \<subseteq> set m"
  by (auto simp: AList.delete_eq)

lemma keys_ok_map_of: "keys_ok m \<Longrightarrow> (k, v) \<in> set m \<longleftrightarrow> map_of m k = Some v"
  by (simp add: keys_ok_def)

lemma digit_inj: "digit a = digit b \<Longrightarrow> a < 10 \<Longrightarrow> b < 10 \<Longrightarrow> a = b"
proof -
  assume eq: "digit a = digit b" and "a < 10" "b < 10"
  have "of_char (digit n) = 48 + n" if "n < 10" for n
    using that by (simp add: digit_def)
  with eq \<open>a < 10\<close> \<open>b < 10\<close> show "a = b" by (metis add_left_cancel)
qed

lemma dec_Nil [simp]: "dec n \<noteq> []"
  by (subst dec.simps) simp

lemma dec_inj: "dec m = dec n \<Longrightarrow> m = n"
proof (induction m arbitrary: n rule: dec.induct)
  case (1 m)
  have one: "length (dec k) = 1 \<longleftrightarrow> k < 10" for k
    by (subst dec.simps) (auto simp: length_Suc_conv)
  show ?case
  proof (cases "m < 10")
    case True
    with "1.prems" one have "n < 10" by metis
    with True "1.prems" show ?thesis
      by (auto simp: dec.simps [of m] dec.simps [of n] dest: digit_inj)
  next
    case False
    with "1.prems" one have n: "\<not> n < 10" by metis
    from "1.prems" False n have "dec (m div 10) = dec (n div 10)"
      and d: "digit (m mod 10) = digit (n mod 10)"
      by (simp_all add: dec.simps [of m] dec.simps [of n])
    with "1.IH" [OF False] have "m div 10 = n div 10" by blast
    moreover from d have "m mod 10 = n mod 10" by (rule digit_inj) simp_all
    ultimately show ?thesis by (metis div_mult_mod_eq)
  qed
qed

lemma dec_u64_inj: "dec_u64 a = dec_u64 b \<Longrightarrow> a = b"
  unfolding dec_u64_def by (drule dec_inj) (simp add: word_unat_eq_iff)

lemma unat_add_no_wrap [word_simps]:
  "unat (a :: u64) + unat b < 2 ^ 64 \<Longrightarrow> unat (a + b) = unat a + unat b"
  by (simp add: unat_word_ariths)

lemma unat_Suc_no_wrap [word_simps]:
  "Suc (unat (a :: u64)) < 2 ^ 64 \<Longrightarrow> unat (a + 1) = Suc (unat a)"
  by (simp add: unat_word_ariths)

lemma unat_of_nat_u64 [word_simps]: "n < 2 ^ 64 \<Longrightarrow> unat (of_nat n :: u64) = n"
  by (simp add: unat_of_nat)

lemma of_nat_u64_eq: "m < 2 ^ 64 \<Longrightarrow> n < 2 ^ 64 \<Longrightarrow> (of_nat m :: u64) = of_nat n \<longleftrightarrow> m = n"
  by (metis unat_of_nat_u64)

lemma of_nat_u64_le: "m < 2 ^ 64 \<Longrightarrow> n < 2 ^ 64 \<Longrightarrow> (of_nat m :: u64) \<le> of_nat n \<longleftrightarrow> m \<le> n"
  by (simp add: word_le_nat_alt unat_of_nat_u64)

lemma of_nat_u64_less: "m < 2 ^ 64 \<Longrightarrow> n < 2 ^ 64 \<Longrightarrow> (of_nat m :: u64) < of_nat n \<longleftrightarrow> m < n"
  by (simp add: word_less_nat_alt unat_of_nat_u64)

lemma of_nat_u64_max:
  "m < 2 ^ 64 \<Longrightarrow> n < 2 ^ 64 \<Longrightarrow> max (of_nat m :: u64) (of_nat n) = of_nat (max m n)"
  by (simp add: max_def of_nat_u64_le)

lemma uint_of_nat_u64: "n < 2 ^ 64 \<Longrightarrow> uint (of_nat n :: u64) = int n"
  by (metis uint_nat unat_of_nat_u64)

lemmas of_nat_u64 = of_nat_u64_eq of_nat_u64_le of_nat_u64_less of_nat_u64_max uint_of_nat_u64

lemma saturating_sub_u64_unat [word_simps]:
  "unat (saturating_sub_u64 a b) = unat a - unat b"
  by (simp add: saturating_sub_u64_def word_le_nat_alt unat_sub_if_size)

lemma sum_list_delete:
  fixes f :: "'k \<times> 'v \<Rightarrow> nat"
  assumes "keys_ok m" and "map_of m k = Some v"
  shows "sum_list (map f (AList.delete k m)) + f (k, v) = sum_list (map f m)"
  using assms
proof (induction m)
  case Nil
  then show ?case by simp
next
  case (Cons x m)
  obtain k' v' where x: "x = (k', v')" by (cases x)
  show ?case
  proof (cases "k' = k")
    case True
    with Cons.prems x have "\<not> contains_key m k" by (simp add: keys_ok_def contains_key_iff)
    with True Cons.prems x show ?thesis by (simp add: AList.delete_eq delete_notin [unfolded AList.delete_eq])
  next
    case False
    with Cons x show ?thesis by (auto simp: keys_ok_def AList.delete_eq)
  qed
qed

lemma unat_u64_lt: "unat (a :: u64) < 2 ^ 64"
  using unsigned_less [of a, where ?'a = nat] by simp

end
