(* ===== verification/Json.thy ===== *)
theory Json
  imports Prelude
begin

text \<open>
  JSON values as the code inspects them through \<open>serde_json::Value\<close>, and the functions of
  third-party crates that the code calls (\<open>serde_json\<close> text parsing and printing,
  \<open>sha2\<close>, \<open>json-canon\<close>), which are fields of the record \<open>ext\<close> and a parameter of the
  definitions that use them.

  A number is one of serde's three representations. A float is a finite dyadic rational
  \<open>m * 2 ^ e\<close>, so that \<open>fract\<close>, the comparison with zero and the saturating casts
  compute.
\<close>

section \<open>Values\<close>

datatype json_number =
    PosInt u64
  | NegInt int
  | Float int int

datatype json =
    JNull
  | JBool bool
  | JNumber json_number
  | JString string
  | JArray "json list"
  | JObject "(string \<times> json) list"

text \<open>\<open>Value::get\<close> with a string key, \<open>Value::as_str\<close>, \<open>Number::as_u64\<close>,
  \<open>Number::as_i64\<close>.\<close>

fun json_get :: "json \<Rightarrow> string \<Rightarrow> json option" where
  "json_get (JObject m) k = map_of m k"
| "json_get _ k = None"

fun json_as_str :: "json \<Rightarrow> string option" where
  "json_as_str (JString s) = Some s"
| "json_as_str _ = None"

fun number_as_u64 :: "json_number \<Rightarrow> u64 option" where
  "number_as_u64 (PosInt n) = Some n"
| "number_as_u64 _ = None"

fun number_as_i64 :: "json_number \<Rightarrow> int option" where
  "number_as_i64 (PosInt n) = (if unat n < 2 ^ 63 then Some (int (unat n)) else None)"
| "number_as_i64 (NegInt i) = Some i"
| "number_as_i64 (Float m e) = None"

text \<open>\<open>Number::as_f64\<close> as a dyadic rational. The conversion of an integer is exact here;
  the callers reach it only for integers they then reject or saturate.\<close>

fun number_as_f64 :: "json_number \<Rightarrow> int \<times> int" where
  "number_as_f64 (PosInt n) = (int (unat n), 0)"
| "number_as_f64 (NegInt i) = (i, 0)"
| "number_as_f64 (Float m e) = (m, e)"

definition f64_fract_is_zero :: "int \<times> int \<Rightarrow> bool" where
  "f64_fract_is_zero f = (case f of (m, e) \<Rightarrow> 0 \<le> e \<or> m mod 2 ^ nat (- e) = 0)"

definition f64_trunc :: "int \<times> int \<Rightarrow> int" where
  "f64_trunc f = (case f of (m, e) \<Rightarrow>
     if 0 \<le> e then m * 2 ^ nat e else sgn m * (\<bar>m\<bar> div 2 ^ nat (- e)))"

definition f64_positive :: "int \<times> int \<Rightarrow> bool" where
  "f64_positive f \<longleftrightarrow> 0 < fst f"

text \<open>Rust's \<open>as u64\<close> and \<open>as i64\<close> saturate.\<close>

definition f64_as_u64 :: "int \<times> int \<Rightarrow> u64" where
  "f64_as_u64 f = word_of_int (max 0 (min (2 ^ 64 - 1) (f64_trunc f)))"

definition f64_as_i64 :: "int \<times> int \<Rightarrow> int" where
  "f64_as_i64 f = max (- (2 ^ 63)) (min (2 ^ 63 - 1) (f64_trunc f))"

section \<open>Third-party functions\<close>

record ext =
  sha256_hex :: "string \<Rightarrow> string"
  json_from_str :: "string \<Rightarrow> json option"
  json_to_string :: "json \<Rightarrow> string"
  f64_to_string :: "int \<times> int \<Rightarrow> string"
  json_canon :: "json \<Rightarrow> string option"

text \<open>A concrete instance, on which the development's examples run.\<close>

definition plain_ext :: ext where
  "plain_ext = \<lparr>sha256_hex = (\<lambda>s. s), json_from_str = (\<lambda>s. None), json_to_string = (\<lambda>v. ''''),
     f64_to_string = (\<lambda>f. ''''), json_canon = (\<lambda>v. None)\<rparr>"

text \<open>\<open>Number::to_string\<close>: decimal for the integer representations.\<close>

fun number_to_string :: "ext \<Rightarrow> json_number \<Rightarrow> string" where
  "number_to_string X (PosInt n) = dec_u64 n"
| "number_to_string X (NegInt i) = dec_int i"
| "number_to_string X (Float m e) = f64_to_string X (m, e)"

section \<open>Field readers\<close>

text \<open>
  What the derived \<open>Deserialize\<close> implementations do with one field: a required field must
  be present and of its type, an \<open>Option\<close> field with \<open>serde(default)\<close> is \<open>None\<close> when it
  is absent or \<open>null\<close> and an error when it has another type.
\<close>

definition req_str :: "json \<Rightarrow> string \<Rightarrow> string option" where
  "req_str v k = Option.bind (json_get v k) json_as_str"

fun json_as_u64 :: "json \<Rightarrow> u64 option" where
  "json_as_u64 (JNumber n) = number_as_u64 n"
| "json_as_u64 _ = None"

fun json_as_i64 :: "json \<Rightarrow> int option" where
  "json_as_i64 (JNumber n) = number_as_i64 n"
| "json_as_i64 _ = None"

definition req_u64 :: "json \<Rightarrow> string \<Rightarrow> u64 option" where
  "req_u64 v k = Option.bind (json_get v k) json_as_u64"

definition opt_field :: "(json \<Rightarrow> 'a option) \<Rightarrow> json \<Rightarrow> string \<Rightarrow> 'a option option" where
  "opt_field rd v k =
     (case json_get v k of
        None \<Rightarrow> Some None
      | Some JNull \<Rightarrow> Some None
      | Some w \<Rightarrow> map_option Some (rd w))"

definition opt_entry :: "string \<Rightarrow> ('a \<Rightarrow> json) \<Rightarrow> 'a option \<Rightarrow> (string \<times> json) list" where
  "opt_entry k wr x = (case x of None \<Rightarrow> [] | Some a \<Rightarrow> [(k, wr a)])"

section \<open>Lemmas\<close>

lemmas json_read_defs = req_str_def req_u64_def opt_field_def opt_entry_def

lemma opt_entry_simps [simp]:
  "opt_entry k wr None = []"
  "opt_entry k wr (Some a) = [(k, wr a)]"
  by (simp_all add: opt_entry_def)

lemma f64_trunc_sound:
  assumes "f64_fract_is_zero f" and "f64_positive f"
  shows "0 \<le> f64_trunc f"
  using assms by (cases f) (auto simp: f64_trunc_def f64_positive_def pos_imp_zdiv_nonneg_iff)

end
