(* ===== verification/Json_Rpc.thy ===== *)
theory Json_Rpc
  imports Json
begin

text \<open>
  The JSON-RPC messages of \<open>src/core/types.rs\<close> with the encoding and decoding their serde
  attributes describe, the validation of \<open>src/core/validation.rs\<close>, the tag readers of
  \<open>src/core/serializers.rs\<close> and the encryption and gift-wrap policies. Decoding tries the
  variants in declaration order, as an untagged enum does.
\<close>

section \<open>Constants and policies\<close>

definition CTXVM_MESSAGES_KIND :: u16 where "CTXVM_MESSAGES_KIND = 25910"
definition GIFT_WRAP_KIND :: u16 where "GIFT_WRAP_KIND = 1059"
definition EPHEMERAL_GIFT_WRAP_KIND :: u16 where "EPHEMERAL_GIFT_WRAP_KIND = 21059"

definition UNENCRYPTED_KINDS :: "u16 list" where
  "UNENCRYPTED_KINDS = [11316, 11317, 11318, 11319, 11320]"

definition MAX_MESSAGE_SIZE :: nat where "MAX_MESSAGE_SIZE = 1024 * 1024"

datatype encryption_mode = EncOptional | EncRequired | EncDisabled

datatype gift_wrap_mode = WrapOptional | WrapEphemeral | WrapPersistent

fun allows_kind :: "gift_wrap_mode \<Rightarrow> u16 \<Rightarrow> bool" where
  "allows_kind WrapOptional kind \<longleftrightarrow> kind = GIFT_WRAP_KIND \<or> kind = EPHEMERAL_GIFT_WRAP_KIND"
| "allows_kind WrapEphemeral kind \<longleftrightarrow> kind = EPHEMERAL_GIFT_WRAP_KIND"
| "allows_kind WrapPersistent kind \<longleftrightarrow> kind = GIFT_WRAP_KIND"

definition supports_ephemeral :: "gift_wrap_mode \<Rightarrow> bool" where
  "supports_ephemeral m \<longleftrightarrow> m \<noteq> WrapPersistent"

definition should_encrypt :: "encryption_mode \<Rightarrow> u16 \<Rightarrow> bool option \<Rightarrow> bool" where
  "should_encrypt mode kind is_encrypted =
     (if kind \<in> set UNENCRYPTED_KINDS then False
      else case mode of
          EncDisabled \<Rightarrow> False
        | EncRequired \<Rightarrow> True
        | EncOptional \<Rightarrow> (case is_encrypted of None \<Rightarrow> True | Some b \<Rightarrow> b))"

section \<open>Messages\<close>

record json_rpc_request =
  req_jsonrpc :: string
  req_id :: json
  req_method :: string
  req_params :: "json option"

record json_rpc_response =
  rsp_jsonrpc :: string
  rsp_id :: json
  rsp_result :: json

record json_rpc_error =
  err_code :: int
  err_message :: string
  err_data :: "json option"

record json_rpc_error_response =
  ers_jsonrpc :: string
  ers_id :: json
  ers_error :: json_rpc_error

record json_rpc_notification =
  ntf_jsonrpc :: string
  ntf_method :: string
  ntf_params :: "json option"

datatype json_rpc_message =
    Request json_rpc_request
  | Response json_rpc_response
  | ErrorResponse json_rpc_error_response
  | Notification json_rpc_notification

fun message_method :: "json_rpc_message \<Rightarrow> string option" where
  "message_method (Request r) = Some (req_method r)"
| "message_method (Notification n) = Some (ntf_method n)"
| "message_method _ = None"

fun message_id :: "json_rpc_message \<Rightarrow> json option" where
  "message_id (Request r) = Some (req_id r)"
| "message_id (Response r) = Some (rsp_id r)"
| "message_id (ErrorResponse r) = Some (ers_id r)"
| "message_id (Notification n) = None"

section \<open>Encoding and decoding\<close>

definition json_of_i64 :: "int \<Rightarrow> json" where
  "json_of_i64 i = JNumber (if i < 0 then NegInt i else PosInt (word_of_int i))"

fun message_to_value :: "json_rpc_message \<Rightarrow> json" where
  "message_to_value (Request r) = JObject
     ([(''jsonrpc'', JString (req_jsonrpc r)), (''id'', req_id r),
       (''method'', JString (req_method r))] @ opt_entry ''params'' id (req_params r))"
| "message_to_value (Response r) = JObject
     [(''jsonrpc'', JString (rsp_jsonrpc r)), (''id'', rsp_id r), (''result'', rsp_result r)]"
| "message_to_value (ErrorResponse r) = JObject
     [(''jsonrpc'', JString (ers_jsonrpc r)), (''id'', ers_id r),
      (''error'', JObject
        ([(''code'', json_of_i64 (err_code (ers_error r))),
          (''message'', JString (err_message (ers_error r)))] @
         opt_entry ''data'' id (err_data (ers_error r))))]"
| "message_to_value (Notification n) = JObject
     ([(''jsonrpc'', JString (ntf_jsonrpc n)), (''method'', JString (ntf_method n))] @
      opt_entry ''params'' id (ntf_params n))"

definition request_of_value :: "json \<Rightarrow> json_rpc_request option" where
  "request_of_value v =
     (case (req_str v ''jsonrpc'', json_get v ''id'', req_str v ''method'',
            opt_field Some v ''params'') of
        (Some j, Some i, Some m, Some p) \<Rightarrow>
          Some \<lparr>req_jsonrpc = j, req_id = i, req_method = m, req_params = p\<rparr>
      | _ \<Rightarrow> None)"

definition response_of_value :: "json \<Rightarrow> json_rpc_response option" where
  "response_of_value v =
     (case (req_str v ''jsonrpc'', json_get v ''id'', json_get v ''result'') of
        (Some j, Some i, Some r) \<Rightarrow> Some \<lparr>rsp_jsonrpc = j, rsp_id = i, rsp_result = r\<rparr>
      | _ \<Rightarrow> None)"

text \<open>A derived struct decoder also reads the fields from an array, in declaration order;
  a missing last \<open>default\<close> field is \<open>None\<close>. The message itself is always an object here,
  because \<open>validate_message\<close> has read its \<open>jsonrpc\<close> key.\<close>

fun error_of_value :: "json \<Rightarrow> json_rpc_error option" where
  "error_of_value (JArray [c, m]) =
     (case (json_as_i64 c, json_as_str m) of
        (Some code, Some msg) \<Rightarrow> Some \<lparr>err_code = code, err_message = msg, err_data = None\<rparr>
      | _ \<Rightarrow> None)"
| "error_of_value (JArray [c, m, d]) =
     (case (json_as_i64 c, json_as_str m) of
        (Some code, Some msg) \<Rightarrow>
          Some \<lparr>err_code = code, err_message = msg,
                err_data = (if d = JNull then None else Some d)\<rparr>
      | _ \<Rightarrow> None)"
| "error_of_value v =
     (case (Option.bind (json_get v ''code'') json_as_i64, req_str v ''message'',
            opt_field Some v ''data'') of
        (Some code, Some msg, Some d) \<Rightarrow>
          Some \<lparr>err_code = code, err_message = msg, err_data = d\<rparr>
      | _ \<Rightarrow> None)"

definition error_response_of_value :: "json \<Rightarrow> json_rpc_error_response option" where
  "error_response_of_value v =
     (case (req_str v ''jsonrpc'', json_get v ''id'',
            Option.bind (json_get v ''error'') error_of_value) of
        (Some j, Some i, Some e) \<Rightarrow> Some \<lparr>ers_jsonrpc = j, ers_id = i, ers_error = e\<rparr>
      | _ \<Rightarrow> None)"

definition notification_of_value :: "json \<Rightarrow> json_rpc_notification option" where
  "notification_of_value v =
     (case (req_str v ''jsonrpc'', req_str v ''method'', opt_field Some v ''params'') of
        (Some j, Some m, Some p) \<Rightarrow>
          Some \<lparr>ntf_jsonrpc = j, ntf_method = m, ntf_params = p\<rparr>
      | _ \<Rightarrow> None)"

definition message_of_value :: "json \<Rightarrow> json_rpc_message option" where
  "message_of_value v =
     (case request_of_value v of Some r \<Rightarrow> Some (Request r)
      | None \<Rightarrow> (case response_of_value v of Some r \<Rightarrow> Some (Response r)
      | None \<Rightarrow> (case error_response_of_value v of Some r \<Rightarrow> Some (ErrorResponse r)
      | None \<Rightarrow> map_option Notification (notification_of_value v))))"

section \<open>Validation\<close>

definition validate_message_size :: "string \<Rightarrow> bool" where
  "validate_message_size content \<longleftrightarrow> length content \<le> MAX_MESSAGE_SIZE"

definition validate_message :: "json \<Rightarrow> json_rpc_message option" where
  "validate_message v =
     (case Option.bind (json_get v ''jsonrpc'') json_as_str of
        None \<Rightarrow> None
      | Some jsonrpc \<Rightarrow> if jsonrpc \<noteq> ''2.0'' then None else message_of_value v)"

definition validate_and_parse :: "ext \<Rightarrow> string \<Rightarrow> json_rpc_message option" where
  "validate_and_parse X content =
     (if \<not> validate_message_size content then None
      else Option.bind (json_from_str X content) validate_message)"

definition validate_and_parse_oversized :: "ext \<Rightarrow> string \<Rightarrow> nat \<Rightarrow> json_rpc_message option" where
  "validate_and_parse_oversized X content max_bytes =
     (if length content > max_bytes then None
      else Option.bind (json_from_str X content) validate_message)"

section \<open>Tags\<close>

text \<open>A Nostr tag is the list of its strings (\<open>Tag::to_vec\<close>).\<close>

type_synonym tag = "string list"

fun tag_value :: "string \<Rightarrow> tag \<Rightarrow> string option" where
  "tag_value name (n # v # rest) = (if n = name then Some v else None)"
| "tag_value name _ = None"

fun get_tag_value :: "tag list \<Rightarrow> string \<Rightarrow> string option" where
  "get_tag_value [] name = None"
| "get_tag_value (t # ts) name =
     (case tag_value name t of Some v \<Rightarrow> Some v | None \<Rightarrow> get_tag_value ts name)"

section \<open>Lemmas\<close>

text \<open>The values a field of the message type can hold: \<open>i64\<close> codes, and no \<open>Some null\<close>
  in an optional field (it encodes as \<open>null\<close> and is read back as \<open>None\<close>).\<close>

fun encodable :: "json_rpc_message \<Rightarrow> bool" where
  "encodable (Request r) \<longleftrightarrow> req_jsonrpc r = ''2.0'' \<and> req_params r \<noteq> Some JNull"
| "encodable (Response r) \<longleftrightarrow> rsp_jsonrpc r = ''2.0''"
| "encodable (ErrorResponse r) \<longleftrightarrow> ers_jsonrpc r = ''2.0'' \<and>
     err_data (ers_error r) \<noteq> Some JNull \<and>
     - (2 ^ 63) \<le> err_code (ers_error r) \<and> err_code (ers_error r) < 2 ^ 63"
| "encodable (Notification n) \<longleftrightarrow> ntf_jsonrpc n = ''2.0'' \<and> ntf_params n \<noteq> Some JNull"

lemma json_as_i64_of_i64 [simp]:
  "- (2 ^ 63) \<le> i \<Longrightarrow> i < 2 ^ 63 \<Longrightarrow> json_as_i64 (json_of_i64 i) = Some i"
  by (auto simp: json_of_i64_def unat_eq_nat_uint uint_word_of_int)

lemmas message_read_defs = message_of_value_def request_of_value_def response_of_value_def
  error_response_of_value_def notification_of_value_def validate_message_def req_str_def

lemma validate_message_encode:
  assumes "encodable m"
  shows "validate_message (message_to_value m) = Some m"
proof (cases m)
  case (Request r)
  then show ?thesis using assms
    by (cases "req_params r")
       (auto simp: message_read_defs opt_field_def split: json.splits)
next
  case (Response r)
  then show ?thesis using assms by (auto simp: message_read_defs)
next
  case (ErrorResponse r)
  then show ?thesis using assms
    by (cases "err_data (ers_error r)")
       (auto simp: message_read_defs opt_field_def split: json.splits)
next
  case (Notification n)
  then show ?thesis using assms
    by (cases "ntf_params n")
       (auto simp: message_read_defs opt_field_def split: json.splits)
qed

text \<open>Every JSON-RPC message the SDK can hold is read back unchanged from the value it
  serializes to: encoding and the validated, first-match decoding of the untagged enum are
  inverse, for all four variants.\<close>

theorem validate_message_roundtrip:
  assumes "encodable m"
  shows "validate_message (message_to_value m) = Some m"
  using assms by (rule validate_message_encode)

theorem validate_message_roundtrip_witness:
  "validate_message (message_to_value (ErrorResponse
      \<lparr>ers_jsonrpc = ''2.0'', ers_id = JNumber (PosInt 7),
       ers_error = \<lparr>err_code = - 32000, err_message = ''denied'', err_data = None\<rparr>\<rparr>)) =
   Some (ErrorResponse
      \<lparr>ers_jsonrpc = ''2.0'', ers_id = JNumber (PosInt 7),
       ers_error = \<lparr>err_code = - 32000, err_message = ''denied'', err_data = None\<rparr>\<rparr>)"
  by (rule validate_message_roundtrip) simp

end
