(* ===== verification/Oversized_Codec.thy ===== *)
theory Oversized_Codec
  imports Json_Rpc
begin

text \<open>
  CEP-22 oversized transfers, sender side: the frames of
  \<open>src/transport/oversized_transfer/frame.rs\<close>, the splitting and framing of \<open>codec.rs\<close>, the
  chunk-size search of \<open>sizing.rs\<close> and the sending driver of \<open>sender.rs\<close>.

  \<open>serde_json::to_value\<close> cannot fail on the frame enum, so \<open>to_cvm_value\<close> and
  \<open>into_progress_notification\<close> are total. The published size of a probe event depends on
  signing and encryption and is a parameter of the search; publishing a frame is a
  state-passing parameter of the driver.
\<close>

section \<open>Constants and errors\<close>

definition OVERSIZED_TRANSFER_TYPE :: string where
  "OVERSIZED_TRANSFER_TYPE = ''oversized-transfer''"
definition DIGEST_PREFIX :: string where "DIGEST_PREFIX = ''sha256:''"
definition NOTIFICATIONS_PROGRESS_METHOD :: string where
  "NOTIFICATIONS_PROGRESS_METHOD = ''notifications/progress''"
definition DEFAULT_CHUNK_SIZE :: nat where "DEFAULT_CHUNK_SIZE = 48000"
definition START_PROGRESS :: u64 where "START_PROGRESS = 1"
definition ACCEPT_PROGRESS :: u64 where "ACCEPT_PROGRESS = 2"

datatype oversized_error =
    OtAbort string "string option"
  | OtPolicy string
  | OtDigest string
  | OtReassembly string
  | OtSequence string

section \<open>Frames\<close>

datatype completion_mode = Render

datatype oversized_frame =
    Start completion_mode string u64 u64
  | Accept
  | Chunk string
  | End
  | Abort "string option"

fun frame_type :: "oversized_frame \<Rightarrow> string" where
  "frame_type (Start cm d tb tc) = ''start''"
| "frame_type Accept = ''accept''"
| "frame_type (Chunk data) = ''chunk''"
| "frame_type End = ''end''"
| "frame_type (Abort r) = ''abort''"

fun frame_fields :: "oversized_frame \<Rightarrow> (string \<times> json) list" where
  "frame_fields (Start Render digest total_bytes total_chunks) =
     [(''completionMode'', JString ''render''), (''digest'', JString digest),
      (''totalBytes'', JNumber (PosInt total_bytes)),
      (''totalChunks'', JNumber (PosInt total_chunks))]"
| "frame_fields Accept = []"
| "frame_fields (Chunk data) = [(''data'', JString data)]"
| "frame_fields End = []"
| "frame_fields (Abort reason) = opt_entry ''reason'' JString reason"

definition to_cvm_value :: "oversized_frame \<Rightarrow> json" where
  "to_cvm_value f = JObject
     (AList.update ''type'' (JString OVERSIZED_TRANSFER_TYPE)
       ((''frameType'', JString (frame_type f)) # frame_fields f))"

definition completion_mode_of_value :: "json \<Rightarrow> completion_mode option" where
  "completion_mode_of_value v = (if v = JString ''render'' then Some Render else None)"

definition frame_of_value :: "json \<Rightarrow> oversized_frame option" where
  "frame_of_value v =
     (case req_str v ''frameType'' of
        None \<Rightarrow> None
      | Some ft \<Rightarrow>
          if ft = ''start'' then
            (case (Option.bind (json_get v ''completionMode'') completion_mode_of_value,
                   req_str v ''digest'', req_u64 v ''totalBytes'', req_u64 v ''totalChunks'') of
               (Some cm, Some d, Some tb, Some tc) \<Rightarrow> Some (Start cm d tb tc)
             | _ \<Rightarrow> None)
          else if ft = ''accept'' then Some Accept
          else if ft = ''chunk'' then map_option Chunk (req_str v ''data'')
          else if ft = ''end'' then Some End
          else if ft = ''abort'' then map_option Abort (opt_field json_as_str v ''reason'')
          else None)"

definition from_cvm_value :: "json \<Rightarrow> oversized_frame option" where
  "from_cvm_value v =
     (if Option.bind (json_get v ''type'') json_as_str \<noteq> Some OVERSIZED_TRANSFER_TYPE
      then None else frame_of_value v)"

definition is_frame_value :: "json \<Rightarrow> bool" where
  "is_frame_value v \<longleftrightarrow>
     Option.bind (json_get v ''type'') json_as_str = Some OVERSIZED_TRANSFER_TYPE \<and>
     Option.bind (json_get v ''frameType'') json_as_str \<noteq> None"

definition into_progress_notification ::
  "oversized_frame \<Rightarrow> string \<Rightarrow> u64 \<Rightarrow> string option \<Rightarrow> json_rpc_notification" where
  "into_progress_notification f progress_token progress message =
     \<lparr>ntf_jsonrpc = ''2.0'', ntf_method = NOTIFICATIONS_PROGRESS_METHOD,
      ntf_params = Some (JObject
        ([(''progressToken'', JString progress_token),
          (''progress'', JNumber (PosInt progress))] @
         opt_entry ''message'' JString message @
         [(''cvm'', to_cvm_value f)]))\<rparr>"

fun progress_token_string :: "ext \<Rightarrow> json \<Rightarrow> string option" where
  "progress_token_string X (JString s) = Some s"
| "progress_token_string X (JNumber n) = Some (number_to_string X n)"
| "progress_token_string X _ = None"

section \<open>Splitting\<close>

text \<open>\<open>str::chars\<close> on the UTF-8 bytes: the first byte of a character gives its width.\<close>

definition utf8_width :: "char \<Rightarrow> nat" where
  "utf8_width c =
     (let b = (of_char c :: nat) in
      if b < 192 then 1 else if b < 224 then 2 else if b < 240 then 3 else 4)"

fun chars :: "string \<Rightarrow> string list" where
  "chars [] = []"
| "chars (c # cs) =
     (c # take (utf8_width c - 1) cs) # chars (drop (utf8_width c - 1) cs)"

definition utf8_char :: "string \<Rightarrow> bool" where
  "utf8_char ch = (case ch of [] \<Rightarrow> False
     | c # cs \<Rightarrow> \<not> (128 \<le> (of_char c :: nat) \<and> (of_char c :: nat) < 192) \<and>
         length ch = utf8_width c \<and>
         (\<forall>d\<in>set cs. 128 \<le> (of_char d :: nat) \<and> (of_char d :: nat) < 192))"

definition utf8 :: "string \<Rightarrow> bool" where
  "utf8 s \<longleftrightarrow> list_all utf8_char (chars s)"

text \<open>The loop of \<open>split_string_by_byte_size\<close> over the remaining characters, with its three
  mutable variables.\<close>

fun split_loop ::
  "nat \<Rightarrow> string list \<Rightarrow> string list \<Rightarrow> string \<Rightarrow> nat \<Rightarrow> (oversized_error, string list) result"
where
  "split_loop max_bytes [] chunks current current_bytes =
     Ok (if current \<noteq> [] then chunks @ [current] else chunks)"
| "split_loop max_bytes (ch # rest) chunks current current_bytes =
     (let char_bytes = length ch in
      if char_bytes > max_bytes then
        Err (OtPolicy (''Unable to split message: single character exceeds chunk size ('' @
             dec char_bytes @ '' > '' @ dec max_bytes @ '')''))
      else if current_bytes > 0 \<and> current_bytes + char_bytes > max_bytes then
        split_loop max_bytes rest (chunks @ [current]) ch char_bytes
      else split_loop max_bytes rest chunks (current @ ch) (current_bytes + char_bytes))"

definition split_string_by_byte_size ::
  "string \<Rightarrow> nat \<Rightarrow> (oversized_error, string list) result" where
  "split_string_by_byte_size value max_bytes =
     (if max_bytes = 0 then Err (OtPolicy ''chunk_size_bytes must be greater than zero'')
      else split_loop max_bytes (chars value) [] [] 0)"

section \<open>Framing\<close>

definition sha256_digest :: "ext \<Rightarrow> string \<Rightarrow> string" where
  "sha256_digest X value = DIGEST_PREFIX @ sha256_hex X value"

record sender_options =
  so_progress_token :: string
  so_chunk_size_bytes :: nat
  so_needs_accept_handshake :: bool

record built_frames =
  bf_start :: json_rpc_notification
  bf_chunks :: "json_rpc_notification list"
  bf_end :: json_rpc_notification

definition frame_count :: "built_frames \<Rightarrow> nat" where
  "frame_count b = length (bf_chunks b) + 2"

definition into_ordered :: "built_frames \<Rightarrow> json_rpc_notification list" where
  "into_ordered b = [bf_start b] @ bf_chunks b @ [bf_end b]"

fun chunk_frames :: "string \<Rightarrow> u64 \<Rightarrow> string list \<Rightarrow> json_rpc_notification list" where
  "chunk_frames token progress [] = []"
| "chunk_frames token progress (data # rest) =
     into_progress_notification (Chunk data) token progress None #
     chunk_frames token (progress + 1) rest"

definition build_oversized_frames ::
  "ext \<Rightarrow> string \<Rightarrow> sender_options \<Rightarrow> (oversized_error, built_frames) result" where
  "build_oversized_frames X serialized opts =
     (let total_bytes = of_nat (length serialized);
          digest = sha256_digest X serialized in
      case split_string_by_byte_size serialized (so_chunk_size_bytes opts) of
        Err e \<Rightarrow> Err e
      | Ok text_chunks \<Rightarrow>
          let total_chunks = of_nat (length text_chunks);
              base = (if so_needs_accept_handshake opts then ACCEPT_PROGRESS + 1
                      else ACCEPT_PROGRESS);
              token = so_progress_token opts in
          Ok \<lparr>bf_start = into_progress_notification
                (Start Render digest total_bytes total_chunks) token START_PROGRESS
                (Some ''starting oversized transfer''),
              bf_chunks = chunk_frames token base text_chunks,
              bf_end = into_progress_notification End token (base + total_chunks)
                (Some ''oversized transfer complete'')\<rparr>)"

section \<open>Chunk-size search\<close>

definition SIZING_PROBE_TOKEN :: string where
  "SIZING_PROBE_TOKEN = ''00000000-0000-0000-0000-000000000000''"
definition SIZING_PROBE_PROGRESS :: u64 where "SIZING_PROBE_PROGRESS = 2"

definition sizing_probe :: "nat \<Rightarrow> json_rpc_notification" where
  "sizing_probe mid =
     into_progress_notification (Chunk (replicate mid (CHR 0x5C))) SIZING_PROBE_TOKEN
       SIZING_PROBE_PROGRESS None"

definition probe_fits :: "(json_rpc_notification \<Rightarrow> nat option) \<Rightarrow> nat \<Rightarrow> nat \<Rightarrow> bool" where
  "probe_fits measure_size max_event_bytes mid =
     (case measure_size (sizing_probe mid) of
        Some sz \<Rightarrow> sz \<le> max_event_bytes
      | None \<Rightarrow> False)"

text \<open>The \<open>while low <= high\<close> loop. As \<open>low\<close> starts at 1, \<open>mid\<close> is never 0 and the
  branch for it is not reached; it only keeps the recursion well-founded for every input.\<close>

function size_search :: "(nat \<Rightarrow> bool) \<Rightarrow> nat \<Rightarrow> nat \<Rightarrow> nat \<Rightarrow> nat" where
  "size_search fits low high best =
     (if low \<le> high then
        (let mid = low + (high - low) div 2 in
         if fits mid then size_search fits (mid + 1) high mid
         else if mid = 0 then best
         else size_search fits low (mid - 1) best)
      else best)"
  by pat_completeness auto
termination
  by (relation "measure (\<lambda>(fits, low, high, best). Suc high - low)") auto

declare size_search.simps [simp del]

definition resolve_safe_chunk_size ::
  "(json_rpc_notification \<Rightarrow> nat option) \<Rightarrow> nat \<Rightarrow> nat \<Rightarrow> nat" where
  "resolve_safe_chunk_size measure_size desired max_event_bytes =
     size_search (probe_fits measure_size max_event_bytes) 1 (max desired 1) 1"

section \<open>Sending driver\<close>

text \<open>What happened to the waiter of the \<open>accept\<close> frame: none was given, the frame came in
  time, the waiter was dropped, or the timeout elapsed.\<close>

datatype accept_wait = NoWaiter | Accepted | WaiterDropped | AcceptTimeout

datatype 'e send_error = PublishFailed 'e | TransferFailed oversized_error

definition progress_token_of :: "json_rpc_notification \<Rightarrow> string" where
  "progress_token_of frame =
     (case Option.bind (Option.bind (ntf_params frame) (\<lambda>p. json_get p ''progressToken''))
             json_as_str of
        Some t \<Rightarrow> t | None \<Rightarrow> [])"

fun publish_all ::
  "('s \<Rightarrow> json_rpc_notification \<Rightarrow> 's \<times> ('e, 'i) result) \<Rightarrow> 's \<Rightarrow>
   json_rpc_notification list \<Rightarrow> 's \<times> 'e option" where
  "publish_all publish s [] = (s, None)"
| "publish_all publish s (f # fs) =
     (case publish s f of
        (s', Err e) \<Rightarrow> (s', Some e)
      | (s', Ok _) \<Rightarrow> publish_all publish s' fs)"

definition send_oversized_transfer ::
  "('s \<Rightarrow> json_rpc_notification \<Rightarrow> 's \<times> ('e, 'i) result) \<Rightarrow> 's \<Rightarrow> built_frames \<Rightarrow> bool \<Rightarrow>
   accept_wait \<Rightarrow> 's \<times> ('e send_error, 'i) result" where
  "send_oversized_transfer publish s frames needs_accept wait =
     (let token = progress_token_of (bf_start frames) in
      case publish s (bf_start frames) of
        (s1, Err e) \<Rightarrow> (s1, Err (PublishFailed e))
      | (s1, Ok _) \<Rightarrow>
          if needs_accept \<and> wait = NoWaiter then
            (s1, Err (TransferFailed (OtAbort token (Some ''no accept waiter registered''))))
          else if needs_accept \<and> wait \<noteq> Accepted then
            (s1, Err (TransferFailed
              (OtAbort token (Some ''timed out waiting for accept frame''))))
          else
            (case publish_all publish s1 (bf_chunks frames) of
               (s2, Some e) \<Rightarrow> (s2, Err (PublishFailed e))
             | (s2, None) \<Rightarrow>
                 (case publish s2 (bf_end frames) of
                    (s3, Err e) \<Rightarrow> (s3, Err (PublishFailed e))
                  | (s3, Ok i) \<Rightarrow> (s3, Ok i))))"

section \<open>Lemmas: characters and splitting\<close>

lemma concat_chars [simp]: "concat (chars s) = s"
  by (induction s rule: chars.induct) auto

lemma chars_nonempty: "ch \<in> set (chars s) \<Longrightarrow> ch \<noteq> []"
  by (induction s rule: chars.induct) auto

lemma utf8_width_pos: "0 < utf8_width c"
  by (simp add: utf8_width_def Let_def)

lemma utf8_width_le: "utf8_width c \<le> 4"
  by (simp add: utf8_width_def Let_def)

lemma chars_length_le: "ch \<in> set (chars s) \<Longrightarrow> length ch \<le> 4"
proof (induction s rule: chars.induct)
  case 1
  then show ?case by simp
next
  case (2 c cs)
  then show ?case using utf8_width_le [of c] utf8_width_pos [of c] by auto
qed

lemma chars_utf8_char_append:
  assumes "utf8_char ch"
  shows "chars (ch @ s) = ch # chars s"
proof -
  from assms obtain c cs where ch: "ch = c # cs" and len: "Suc (length cs) = utf8_width c"
    by (auto simp: utf8_char_def split: list.splits)
  from len have "utf8_width c - 1 = length cs" by simp
  with ch show ?thesis by simp
qed

lemma chars_concat_utf8: "list_all utf8_char gs \<Longrightarrow> chars (concat gs) = gs"
  by (induction gs) (auto simp: chars_utf8_char_append)

text \<open>The chunks the loop produces are groups of whole characters, in order.\<close>

lemma split_loop_groups:
  assumes "\<forall>ch\<in>set rest. ch \<noteq> [] \<and> length ch \<le> max_bytes"
    and "length (concat cg) \<le> max_bytes" and "\<forall>ch\<in>set cg. ch \<noteq> []"
  shows "\<exists>gs. split_loop max_bytes rest chunks (concat cg) (length (concat cg)) =
           Ok (chunks @ map concat gs) \<and> concat gs = cg @ rest \<and>
           (\<forall>g\<in>set gs. g \<noteq> [] \<and> length (concat g) \<le> max_bytes)"
  using assms
proof (induction rest arbitrary: chunks cg)
  case Nil
  show ?case
  proof (cases "cg = []")
    case True
    then show ?thesis by (intro exI [of _ "[]"]) simp
  next
    case False
    with Nil.prems have "concat cg \<noteq> []" by (cases cg) auto
    with False Nil.prems show ?thesis by (intro exI [of _ "[cg]"]) simp
  qed
next
  case (Cons ch rest)
  then have ch: "ch \<noteq> []" "length ch \<le> max_bytes" by auto
  show ?case
  proof (cases "0 < length (concat cg) \<and> length (concat cg) + length ch > max_bytes")
    case True
    have "\<exists>gs. split_loop max_bytes rest (chunks @ [concat cg]) (concat [ch])
            (length (concat [ch])) = Ok ((chunks @ [concat cg]) @ map concat gs) \<and>
            concat gs = [ch] @ rest \<and> (\<forall>g\<in>set gs. g \<noteq> [] \<and> length (concat g) \<le> max_bytes)"
      using Cons.prems ch by (intro Cons.IH) auto
    then obtain gs where "split_loop max_bytes rest (chunks @ [concat cg]) ch (length ch) =
        Ok (chunks @ map concat (cg # gs))" "concat gs = ch # rest"
        "\<forall>g\<in>set gs. g \<noteq> [] \<and> length (concat g) \<le> max_bytes"
      by auto
    with True ch Cons.prems(2) show ?thesis
      by (intro exI [of _ "cg # gs"]) (auto simp: Let_def)
  next
    case False
    have "\<exists>gs. split_loop max_bytes rest chunks (concat (cg @ [ch]))
            (length (concat (cg @ [ch]))) = Ok (chunks @ map concat gs) \<and>
            concat gs = (cg @ [ch]) @ rest \<and>
            (\<forall>g\<in>set gs. g \<noteq> [] \<and> length (concat g) \<le> max_bytes)"
      using Cons.prems ch False by (intro Cons.IH) auto
    with False ch show ?thesis by (auto simp: Let_def not_less)
  qed
qed

lemma split_loop_Err:
  "ch \<in> set rest \<Longrightarrow> length ch > max_bytes \<Longrightarrow>
   \<exists>e. split_loop max_bytes rest chunks current cb = Err (OtPolicy e)"
  by (induction rest arbitrary: chunks current cb) (auto simp: Let_def)

lemma split_groups:
  assumes "split_string_by_byte_size value max_bytes = Ok cs"
  obtains gs where "cs = map concat gs" "concat gs = chars value"
    "\<forall>g\<in>set gs. g \<noteq> [] \<and> length (concat g) \<le> max_bytes"
proof -
  from assms have m: "max_bytes \<noteq> 0"
    and l: "split_loop max_bytes (chars value) [] [] 0 = Ok cs"
    by (auto simp: split_string_by_byte_size_def split: if_splits)
  have small: "\<forall>ch\<in>set (chars value). ch \<noteq> [] \<and> length ch \<le> max_bytes"
    using split_loop_Err [where rest = "chars value"] l chars_nonempty
    by (metis Inl_Inr_False not_le)
  from split_loop_groups [OF small, of "[]" "[]"] l that show ?thesis by auto
qed

lemma concat_map_concat: "concat (map concat gs) = concat (concat gs)"
  by (induction gs) auto

lemma split_concat:
  assumes "split_string_by_byte_size value max_bytes = Ok cs"
  shows "concat cs = value"
proof -
  from assms obtain gs where "cs = map concat gs" "concat gs = chars value"
    by (rule split_groups)
  then show ?thesis by (simp add: concat_map_concat)
qed

lemma split_chunk_bounds:
  assumes "split_string_by_byte_size value max_bytes = Ok cs" and "c \<in> set cs"
  shows "c \<noteq> [] \<and> length c \<le> max_bytes"
proof -
  from assms(1) obtain gs where gs: "cs = map concat gs" "concat gs = chars value"
    "\<forall>g\<in>set gs. g \<noteq> [] \<and> length (concat g) \<le> max_bytes"
    by (rule split_groups)
  with assms(2) obtain g where g: "g \<in> set gs" "c = concat g" by auto
  with gs have "g \<noteq> []" "length c \<le> max_bytes" by auto
  moreover have "\<forall>ch\<in>set g. ch \<noteq> []" using g gs chars_nonempty by (metis UN_I set_concat)
  ultimately show ?thesis using g(2) by (cases g) auto
qed

lemma split_chunk_utf8:
  assumes "split_string_by_byte_size value max_bytes = Ok cs" and "utf8 value" and "c \<in> set cs"
  shows "utf8 c"
proof -
  from assms(1) obtain gs where gs: "cs = map concat gs" "concat gs = chars value"
    by (rule split_groups)
  with assms(3) obtain g where g: "g \<in> set gs" "c = concat g" by auto
  from assms(2) gs(2) have "list_all utf8_char (concat gs)" by (simp add: utf8_def)
  with g(1) have "list_all utf8_char g" by (auto simp: list_all_iff)
  with g(2) show ?thesis by (simp add: utf8_def chars_concat_utf8)
qed

lemma split_total:
  "(\<exists>cs. split_string_by_byte_size value max_bytes = Ok cs) \<longleftrightarrow>
   0 < max_bytes \<and> (\<forall>ch\<in>set (chars value). length ch \<le> max_bytes)"
proof
  assume "\<exists>cs. split_string_by_byte_size value max_bytes = Ok cs"
  then show "0 < max_bytes \<and> (\<forall>ch\<in>set (chars value). length ch \<le> max_bytes)"
    using split_loop_Err [where rest = "chars value"]
    by (auto simp: split_string_by_byte_size_def split: if_splits)
       (metis Inl_Inr_False not_le)
next
  assume "0 < max_bytes \<and> (\<forall>ch\<in>set (chars value). length ch \<le> max_bytes)"
  with chars_nonempty split_loop_groups [of "chars value" max_bytes "[]" "[]"]
  show "\<exists>cs. split_string_by_byte_size value max_bytes = Ok cs"
    by (auto simp: split_string_by_byte_size_def)
qed

section \<open>Lemmas: frames\<close>

lemma from_to_cvm_value [simp]: "from_cvm_value (to_cvm_value f) = Some f"
  by (cases f rule: frame_fields.cases)
     (auto simp: from_cvm_value_def to_cvm_value_def frame_of_value_def json_read_defs
       completion_mode_of_value_def OVERSIZED_TRANSFER_TYPE_def split: option.splits)

lemma is_frame_value_to_cvm [simp]: "is_frame_value (to_cvm_value f)"
  by (cases f rule: frame_fields.cases)
     (auto simp: is_frame_value_def to_cvm_value_def OVERSIZED_TRANSFER_TYPE_def
       split: option.splits)

definition notification_param :: "json_rpc_notification \<Rightarrow> string \<Rightarrow> json option" where
  "notification_param n k = Option.bind (ntf_params n) (\<lambda>p. json_get p k)"

lemma into_progress_params [simp]:
  "notification_param (into_progress_notification f t p msg) ''cvm'' = Some (to_cvm_value f)"
  "notification_param (into_progress_notification f t p msg) ''progressToken'' = Some (JString t)"
  "notification_param (into_progress_notification f t p msg) ''progress'' =
     Some (JNumber (PosInt p))"
  by (auto simp: notification_param_def into_progress_notification_def opt_entry_def
      split: option.splits)

lemma into_progress_has_params [simp]:
  "\<exists>ps. ntf_params (into_progress_notification f t p msg) = Some ps"
  by (simp add: into_progress_notification_def)

lemma progress_token_of_into [simp]:
  "progress_token_of (into_progress_notification f t p msg) = t"
  by (simp add: progress_token_of_def into_progress_notification_def)

lemma length_chunk_frames [simp]: "length (chunk_frames t p cs) = length cs"
  by (induction cs arbitrary: p) auto

lemma chunk_frames_nth:
  "i < length cs \<Longrightarrow>
   chunk_frames t p cs ! i = into_progress_notification (Chunk (cs ! i)) t (p + of_nat i) None"
proof (induction cs arbitrary: p i)
  case Nil
  then show ?case by simp
next
  case (Cons c cs)
  then show ?case by (cases i) (auto simp: add.assoc)
qed

section \<open>Lemmas: chunk-size search\<close>

lemma size_search_range:
  "best \<in> S \<Longrightarrow> (\<And>m. low \<le> m \<Longrightarrow> m \<le> high \<Longrightarrow> fits m \<Longrightarrow> m \<in> S) \<Longrightarrow>
   size_search fits low high best \<in> S"
proof (induction fits low high best rule: size_search.induct)
  case (1 fits low high best)
  let ?mid = "low + (high - low) div 2"
  show ?case
  proof (cases "low \<le> high")
    case True
    then have mid: "low \<le> ?mid" "?mid \<le> high" by auto
    show ?thesis
    proof (cases "fits ?mid")
      case True
      with \<open>low \<le> high\<close> "1.IH"(1) [OF \<open>low \<le> high\<close> refl True] "1.prems" mid show ?thesis
        by (subst size_search.simps) (simp add: Let_def)
    next
      case False
      with \<open>low \<le> high\<close> "1.IH"(2) [OF \<open>low \<le> high\<close> refl False] "1.prems" mid show ?thesis
        by (subst size_search.simps) (simp add: Let_def)
    qed
  next
    case False
    with "1.prems" show ?thesis by (subst size_search.simps) simp
  qed
qed

lemma size_search_max:
  assumes anti: "\<forall>a b. a \<le> b \<longrightarrow> fits b \<longrightarrow> fits a"
    and "1 \<le> low" and "\<forall>m. best < m \<and> m < low \<longrightarrow> \<not> fits m"
    and "\<forall>m. high < m \<and> m \<le> lim \<longrightarrow> \<not> fits m"
  shows "\<forall>m. size_search fits low high best < m \<and> m \<le> lim \<longrightarrow> \<not> fits m"
  using assms
proof (induction fits low high best rule: size_search.induct)
  case (1 fits low high best)
  let ?mid = "low + (high - low) div 2"
  show ?case
  proof (cases "low \<le> high")
    case le: True
    then have mid: "?mid \<noteq> 0" using "1.prems"(2) by auto
    show ?thesis
    proof (cases "fits ?mid")
      case True
      have "\<forall>m. ?mid < m \<and> m < ?mid + 1 \<longrightarrow> \<not> fits m" by auto
      with "1.IH"(1) [OF le refl True "1.prems"(1)] "1.prems"(4) le True show ?thesis
        by (simp add: size_search.simps [of fits low high best] Let_def)
    next
      case False
      with "1.prems"(1) have "\<forall>m. ?mid - 1 < m \<and> m \<le> lim \<longrightarrow> \<not> fits m"
        by (metis Suc_pred' Suc_leI mid neq0_conv)
      with "1.IH"(2) [OF le refl False mid "1.prems"(1,2,3)] le False "1.prems"(2) show ?thesis
        by (simp add: size_search.simps [of fits low high best] Let_def)
    qed
  next
    case False
    then have "size_search fits low high best = best" by (subst size_search.simps) simp
    with False "1.prems"(3,4) show ?thesis by (metis le_less_trans not_le)
  qed
qed

section \<open>Lemmas: sending\<close>

text \<open>A publisher that records every frame it is given and answers as \<open>outcome\<close> says.\<close>

definition recording ::
  "(json_rpc_notification list \<Rightarrow> ('e, 'i) result) \<Rightarrow> json_rpc_notification list \<Rightarrow>
   json_rpc_notification \<Rightarrow> json_rpc_notification list \<times> ('e, 'i) result" where
  "recording outcome log f = (log @ [f], outcome (log @ [f]))"

lemma publish_all_recording_Cons:
  "publish_all (recording outcome) log (f # fs) =
     (case outcome (log @ [f]) of
        Err e \<Rightarrow> (log @ [f], Some e)
      | Ok _ \<Rightarrow> publish_all (recording outcome) (log @ [f]) fs)"
  by (simp add: recording_def split: sum.splits)

lemma publish_all_recording:
  obtains (complete) "publish_all (recording outcome) log fs = (log @ fs, None)"
  | (failed) e n where "publish_all (recording outcome) log fs = (log @ take n fs, Some e)"
proof (induction fs arbitrary: log thesis)
  case Nil
  then show ?case by simp
next
  case (Cons f fs)
  show ?case
  proof (cases "outcome (log @ [f])")
    case (Inl e)
    show ?thesis by (rule Cons.prems(2) [of 1 e])
        (simp add: publish_all_recording_Cons Inl del: publish_all.simps(2))
  next
    case (Inr i)
    show ?thesis
    proof (rule Cons.IH [of "log @ [f]"])
      assume "publish_all (recording outcome) (log @ [f]) fs = ((log @ [f]) @ fs, None)"
      then show ?thesis by (intro Cons.prems(1))
          (simp add: publish_all_recording_Cons Inr del: publish_all.simps(2))
    next
      fix e n
      assume "publish_all (recording outcome) (log @ [f]) fs = ((log @ [f]) @ take n fs, Some e)"
      then show ?thesis by (intro Cons.prems(2) [of "Suc n" e])
          (simp add: publish_all_recording_Cons Inr del: publish_all.simps(2))
    qed
  qed
qed

section \<open>Properties\<close>

text \<open>C26. Splitting a payload loses nothing and respects the limit: whenever
  \<open>split_string_by_byte_size\<close> succeeds, the fragments concatenate to the input, each is
  non-empty and at most \<open>max_bytes\<close> long, and a fragment of valid UTF-8 is itself valid
  UTF-8, so no character is cut. It succeeds exactly when the limit is positive and no single
  character is longer than the limit.\<close>

theorem split_string_correct:
  "(\<forall>cs. split_string_by_byte_size value max_bytes = Ok cs \<longrightarrow>
      concat cs = value \<and>
      (\<forall>c\<in>set cs. 0 < length c \<and> length c \<le> max_bytes \<and> (utf8 value \<longrightarrow> utf8 c))) \<and>
   ((\<exists>cs. split_string_by_byte_size value max_bytes = Ok cs) \<longleftrightarrow>
      0 < max_bytes \<and> (\<forall>ch\<in>set (chars value). length ch \<le> max_bytes))"
  using split_concat split_chunk_bounds split_chunk_utf8 split_total by blast

theorem split_string_correct_witness:
  "split_string_by_byte_size ''abcde'' 2 = Ok [''ab'', ''cd'', ''e''] \<and>
   concat [''ab'', ''cd'', ''e''] = ''abcde'' \<and> utf8 ''cd''"
proof -
  have h: "split_string_by_byte_size ''abcde'' 2 = Ok [''ab'', ''cd'', ''e'']" by code_simp
  have u: "utf8 ''abcde''" by code_simp
  from split_string_correct [of "''abcde''" 2] h u show ?thesis by auto
qed

text \<open>The chunk-size search is exact: if a larger probe never fits where a smaller one
  does not, \<open>resolve_safe_chunk_size\<close> returns the largest size up to the desired one whose
  probe event fits the ceiling, or 1 when none does. The result is always at least 1 and at
  most the desired size.\<close>

theorem resolve_safe_chunk_size_max:
  assumes anti: "\<forall>a b. a \<le> b \<longrightarrow> probe_fits measure_size limit b \<longrightarrow>
                    probe_fits measure_size limit a"
  shows "resolve_safe_chunk_size measure_size desired limit =
           (if \<exists>n. 1 \<le> n \<and> n \<le> max desired 1 \<and> probe_fits measure_size limit n
            then Max {n. 1 \<le> n \<and> n \<le> max desired 1 \<and> probe_fits measure_size limit n}
            else 1)"
    (is "?r = (if \<exists>n. ?P n then Max {n. ?P n} else 1)")
proof -
  have range: "?r \<in> {m. m = 1 \<or> ?P m}"
    unfolding resolve_safe_chunk_size_def by (rule size_search_range) auto
  have "\<forall>m. ?r < m \<and> m \<le> max desired 1 \<longrightarrow> \<not> probe_fits measure_size limit m"
    unfolding resolve_safe_chunk_size_def by (rule size_search_max [OF anti]) linarith+
  then have above: "\<not> ?P m" if "?r < m" for m
    using that by blast
  have fin: "finite {n. ?P n}" by (rule finite_subset [of _ "{..max desired 1}"]) auto
  show ?thesis
  proof (cases "\<exists>n. ?P n")
    case True
    then have "?P 1" using anti by auto
    with range have "?P ?r" by auto
    moreover have "\<forall>m. ?P m \<longrightarrow> m \<le> ?r" using above by (meson not_le)
    ultimately have "Max {n. ?P n} = ?r" using fin by (intro Max_eqI) auto
    with True show ?thesis by simp
  next
    case False
    with range show ?thesis by auto
  qed
qed

theorem resolve_safe_chunk_size_max_witness:
  "resolve_safe_chunk_size (\<lambda>n. Some 5) 3 10 =
     (if \<exists>n. 1 \<le> n \<and> n \<le> max 3 1 \<and> probe_fits (\<lambda>n. Some 5) 10 n
      then Max {n. 1 \<le> n \<and> n \<le> max 3 1 \<and> probe_fits (\<lambda>n. Some 5) 10 n} else 1)"
  by (rule resolve_safe_chunk_size_max) (simp add: probe_fits_def)

text \<open>The driver publishes in canonical order and nothing else: whatever the publisher
  answers, the frames it has been given are a prefix of \<open>start\<close>, the chunks in order, \<open>end\<close>;
  they are all of them when the driver returns an event id; and when a required \<open>accept\<close> did
  not arrive, only \<open>start\<close> was published and the error is the local abort.\<close>

theorem send_oversized_transfer_order:
  assumes "send_oversized_transfer (recording outcome) [] frames needs_accept wait = (log, r)"
  shows "(\<exists>n. log = take n (into_ordered frames)) \<and>
         (\<forall>i. r = Ok i \<longrightarrow> log = into_ordered frames) \<and>
         (needs_accept \<and> wait \<noteq> Accepted \<longrightarrow> log = [bf_start frames] \<and>
            (\<exists>e. r = Err e))"
proof (cases "outcome [bf_start frames]")
  case (Inl e)
  with assms show ?thesis
    by (auto simp: send_oversized_transfer_def recording_def Let_def into_ordered_def
        intro: exI [of _ 1])
next
  case start: (Inr i)
  show ?thesis
  proof (cases "needs_accept \<and> wait \<noteq> Accepted")
    case True
    with assms start show ?thesis
      by (auto simp: send_oversized_transfer_def recording_def Let_def into_ordered_def
          intro: exI [of _ 1] split: if_splits)
  next
    case False
    show ?thesis
    proof (rule publish_all_recording [of outcome "[bf_start frames]" "bf_chunks frames"])
      assume c: "publish_all (recording outcome) [bf_start frames] (bf_chunks frames) =
        ([bf_start frames] @ bf_chunks frames, None)"
      with assms start False have "log = into_ordered frames"
        by (auto simp: send_oversized_transfer_def recording_def Let_def into_ordered_def
            split: if_splits sum.splits)
      with False show ?thesis by (auto intro: exI [of _ "length (into_ordered frames)"])
    next
      fix e n
      assume c: "publish_all (recording outcome) [bf_start frames] (bf_chunks frames) =
        ([bf_start frames] @ take n (bf_chunks frames), Some e)"
      with assms start False have "log = [bf_start frames] @ take n (bf_chunks frames)"
        and "r = Err (PublishFailed e)"
        by (auto simp: send_oversized_transfer_def recording_def Let_def split: if_splits)
      moreover have "[bf_start frames] @ take n (bf_chunks frames) =
          take (Suc (min n (length (bf_chunks frames)))) (into_ordered frames)"
        by (simp add: into_ordered_def min_def)
      ultimately show ?thesis using False by auto
    qed
  qed
qed

theorem send_oversized_transfer_order_witness:
  "\<exists>frames. send_oversized_transfer (recording (\<lambda>l. Ok (length l) :: (unit, nat) result)) []
       frames True Accepted = (into_ordered frames, Ok 3) \<and>
     length (into_ordered frames) = 3"
proof -
  define n :: json_rpc_notification where
    "n = \<lparr>ntf_jsonrpc = ''2.0'', ntf_method = [], ntf_params = None\<rparr>"
  define fr where "fr = \<lparr>bf_start = n, bf_chunks = [n], bf_end = n\<rparr>"
  have run: "send_oversized_transfer (recording (\<lambda>l. Ok (length l) :: (unit, nat) result)) []
      fr True Accepted = ([n, n, n], Ok 3)"
    by (simp add: send_oversized_transfer_def recording_def fr_def Let_def)
  from send_oversized_transfer_order [OF run] have eq: "into_ordered fr = [n, n, n]" by auto
  from run show ?thesis by (intro exI [of _ fr]) (simp add: eq)
qed

end
