(* ===== verification/Oversized_Receiver.thy ===== *)
theory Oversized_Receiver
  imports Oversized_Codec
begin

text \<open>
  CEP-22 oversized transfers, receiver side: the reassembly engine of
  \<open>src/transport/oversized_transfer/receiver.rs\<close> and the configuration of its \<open>mod.rs\<close>. The
  receiver is a record of the policy and of the transfers in flight, keyed by progress token;
  every handler returns the new receiver and the code's result, and a transfer that an error
  path drops is gone from the new receiver. Progress numbers are 64-bit words, whose
  additions wrap.
\<close>

section \<open>State\<close>

record transfer_policy =
  tp_max_transfer_bytes :: u64
  tp_max_transfer_chunks :: u64
  tp_max_concurrent_transfers :: nat
  tp_max_out_of_order_window :: u64
  tp_max_out_of_order_chunks :: nat
  tp_transfer_timeout_ms :: u64

definition default_transfer_policy :: transfer_policy where
  "default_transfer_policy =
     \<lparr>tp_max_transfer_bytes = 100 * 1024 * 1024, tp_max_transfer_chunks = 10000,
      tp_max_concurrent_transfers = 64, tp_max_out_of_order_window = 21,
      tp_max_out_of_order_chunks = 42, tp_transfer_timeout_ms = 5 * 60 * 1000\<rparr>"

record active_transfer =
  at_digest :: string
  at_total_bytes :: u64
  at_total_chunks :: u64
  at_start_progress :: u64
  at_accept_progress :: "u64 option"
  at_first_chunk_progress :: "u64 option"
  at_next_expected_chunk_progress :: "u64 option"
  at_highest_observed_progress :: u64
  at_chunks :: "(u64, string) hash_map"
  at_admitted_at :: instant

record receiver =
  rc_policy :: transfer_policy
  rc_transfers :: "(string, active_transfer) hash_map"

definition with_policy :: "transfer_policy \<Rightarrow> receiver" where
  "with_policy policy = \<lparr>rc_policy = policy, rc_transfers = []\<rparr>"

record oversized_config =
  oc_enabled :: bool
  oc_threshold :: nat
  oc_chunk_size :: nat
  oc_max_transfer_bytes :: u64
  oc_max_transfer_chunks :: u64
  oc_max_concurrent_transfers :: nat
  oc_transfer_timeout_ms :: u64
  oc_max_out_of_order_window :: u64
  oc_max_out_of_order_chunks :: nat
  oc_accept_timeout_ms :: u64

definition default_oversized_config :: oversized_config where
  "default_oversized_config =
     \<lparr>oc_enabled = True, oc_threshold = 48000, oc_chunk_size = DEFAULT_CHUNK_SIZE,
      oc_max_transfer_bytes = 100 * 1024 * 1024, oc_max_transfer_chunks = 10000,
      oc_max_concurrent_transfers = 64, oc_transfer_timeout_ms = 5 * 60 * 1000,
      oc_max_out_of_order_window = 21, oc_max_out_of_order_chunks = 42,
      oc_accept_timeout_ms = 30000\<rparr>"

definition policy_of_config :: "oversized_config \<Rightarrow> transfer_policy" where
  "policy_of_config c =
     \<lparr>tp_max_transfer_bytes = oc_max_transfer_bytes c,
      tp_max_transfer_chunks = oc_max_transfer_chunks c,
      tp_max_concurrent_transfers = oc_max_concurrent_transfers c,
      tp_max_out_of_order_window = oc_max_out_of_order_window c,
      tp_max_out_of_order_chunks = oc_max_out_of_order_chunks c,
      tp_transfer_timeout_ms = oc_transfer_timeout_ms c\<rparr>"

section \<open>One transfer\<close>

definition first_chunk_slot :: "active_transfer \<Rightarrow> u64" where
  "first_chunk_slot t =
     (if at_accept_progress t \<noteq> None then at_start_progress t + 2 else at_start_progress t + 1)"

definition next_expected_chunk_progress :: "active_transfer \<Rightarrow> u64" where
  "next_expected_chunk_progress t =
     (case at_next_expected_chunk_progress t of Some n \<Rightarrow> n | None \<Rightarrow> first_chunk_slot t)"

text \<open>The loop \<open>while chunks.contains_key(&next) { next += 1 }\<close>. Each turn leaves another
  stored key behind, so the number of stored chunks is fuel enough (\<open>frontier_stops\<close>).\<close>

fun frontier :: "nat \<Rightarrow> (u64, string) hash_map \<Rightarrow> u64 \<Rightarrow> u64" where
  "frontier 0 m nxt = nxt"
| "frontier (Suc fuel) m nxt =
     (if contains_key m nxt then frontier fuel m (nxt + 1) else nxt)"

definition refresh_chunk_progress_state :: "active_transfer \<Rightarrow> active_transfer" where
  "refresh_chunk_progress_state t =
     (if at_chunks t = [] then
        t\<lparr>at_first_chunk_progress := None, at_next_expected_chunk_progress := None\<rparr>
      else
        let first = first_chunk_slot t;
            nxt = frontier (length (at_chunks t)) (at_chunks t) first in
        t\<lparr>at_first_chunk_progress := Some first, at_next_expected_chunk_progress := Some nxt\<rparr>)"

definition buffered_out_of_order_count :: "active_transfer \<Rightarrow> nat" where
  "buffered_out_of_order_count t =
     (case (at_first_chunk_progress t, at_next_expected_chunk_progress t) of
        (Some first, Some nxt) \<Rightarrow> length (at_chunks t) - unat (nxt - first)
      | _ \<Rightarrow> 0)"

definition has_complete_chunk_range :: "active_transfer \<Rightarrow> u64 \<Rightarrow> bool" where
  "has_complete_chunk_range t first =
     list_all (\<lambda>i. contains_key (at_chunks t) (first + of_nat i)) [0..<unat (at_total_chunks t)]"

definition assembly_first_chunk_progress :: "active_transfer \<Rightarrow> u64 option" where
  "assembly_first_chunk_progress t =
     (let direct = at_start_progress t + 1; accept_gated = at_start_progress t + 2 in
      if has_complete_chunk_range t direct then Some direct
      else if has_complete_chunk_range t accept_gated then Some accept_gated
      else None)"

fun assemble_from :: "(u64, string) hash_map \<Rightarrow> u64 \<Rightarrow> nat list \<Rightarrow> string option" where
  "assemble_from m first [] = Some []"
| "assemble_from m first (i # is) =
     (case map_of m (first + of_nat i) of
        None \<Rightarrow> None
      | Some data \<Rightarrow> map_option (\<lambda>out. data @ out) (assemble_from m first is))"

definition assemble :: "active_transfer \<Rightarrow> string option" where
  "assemble t =
     (case assembly_first_chunk_progress t of
        None \<Rightarrow> None
      | Some first \<Rightarrow> assemble_from (at_chunks t) first [0..<unat (at_total_chunks t)])"

section \<open>Receiver operations\<close>

definition active_transfer_count :: "receiver \<Rightarrow> nat" where
  "active_transfer_count r = length (rc_transfers r)"

definition is_tracking :: "receiver \<Rightarrow> string \<Rightarrow> bool" where
  "is_tracking r token \<longleftrightarrow> contains_key (rc_transfers r) token"

definition transfer_expired :: "receiver \<Rightarrow> instant \<Rightarrow> active_transfer \<Rightarrow> bool" where
  "transfer_expired r now t \<longleftrightarrow>
     duration_since now (at_admitted_at t) > from_millis (tp_transfer_timeout_ms (rc_policy r))"

definition remove_expired :: "receiver \<Rightarrow> instant \<Rightarrow> receiver \<times> string list" where
  "remove_expired r now =
     (if tp_transfer_timeout_ms (rc_policy r) = 0 then (r, [])
      else (r\<lparr>rc_transfers := filter (\<lambda>(k, t). \<not> transfer_expired r now t) (rc_transfers r)\<rparr>,
            map fst (filter (\<lambda>(k, t). transfer_expired r now t) (rc_transfers r))))"

definition clear_receiver :: "receiver \<Rightarrow> receiver" where
  "clear_receiver r = r\<lparr>rc_transfers := []\<rparr>"

definition is_oversized_frame :: "json_rpc_notification \<Rightarrow> bool" where
  "is_oversized_frame n =
     (case Option.bind (ntf_params n) (\<lambda>p. json_get p ''cvm'') of
        Some v \<Rightarrow> is_frame_value v | None \<Rightarrow> False)"

type_synonym frame_result = "receiver \<times> (oversized_error, json_rpc_message option) result"

definition put_transfer :: "receiver \<Rightarrow> string \<Rightarrow> active_transfer \<Rightarrow> receiver" where
  "put_transfer r token t = r\<lparr>rc_transfers := AList.update token t (rc_transfers r)\<rparr>"

definition drop_transfer :: "receiver \<Rightarrow> string \<Rightarrow> receiver" where
  "drop_transfer r token = r\<lparr>rc_transfers := AList.delete token (rc_transfers r)\<rparr>"

definition token_note :: "string \<Rightarrow> string" where
  "token_note token = '' (token: '' @ token @ '')''"

definition handle_start ::
  "receiver \<Rightarrow> instant \<Rightarrow> string \<Rightarrow> u64 \<Rightarrow> string \<Rightarrow> u64 \<Rightarrow> u64 \<Rightarrow> frame_result" where
  "handle_start r now token progress digest total_bytes total_chunks =
     (let p = rc_policy r in
      if contains_key (rc_transfers r) token then
        (r, Err (OtSequence (''Duplicate start frame for active transfer'' @ token_note token)))
      else if total_bytes > tp_max_transfer_bytes p then
        (r, Err (OtPolicy (''totalBytes '' @ dec_u64 total_bytes @ '' exceeds policy limit '' @
              dec_u64 (tp_max_transfer_bytes p) @ token_note token)))
      else if total_chunks > tp_max_transfer_chunks p then
        (r, Err (OtPolicy (''totalChunks '' @ dec_u64 total_chunks @ '' exceeds policy limit '' @
              dec_u64 (tp_max_transfer_chunks p) @ token_note token)))
      else if length (rc_transfers r) \<ge> tp_max_concurrent_transfers p then
        (r, Err (OtPolicy (''Active transfers exceed policy limit '' @
              dec (tp_max_concurrent_transfers p) @ token_note token)))
      else if take (length DIGEST_PREFIX) digest \<noteq> DIGEST_PREFIX then
        (r, Err (OtReassembly (''Invalid digest format in start frame'' @ token_note token)))
      else
        (put_transfer r token
          \<lparr>at_digest = digest, at_total_bytes = total_bytes, at_total_chunks = total_chunks,
           at_start_progress = progress, at_accept_progress = None,
           at_first_chunk_progress = None, at_next_expected_chunk_progress = None,
           at_highest_observed_progress = progress, at_chunks = [], at_admitted_at = now\<rparr>,
         Ok None))"

definition handle_accept :: "receiver \<Rightarrow> string \<Rightarrow> u64 \<Rightarrow> frame_result" where
  "handle_accept r token progress =
     (case map_of (rc_transfers r) token of
        None \<Rightarrow> (r, Ok None)
      | Some t \<Rightarrow>
          if progress \<le> at_start_progress t then
            (drop_transfer r token, Err (OtSequence
              (''Accept frame progress must be greater than start progress'' @ token_note token)))
          else
            (put_transfer r token
               (t\<lparr>at_highest_observed_progress := max (at_highest_observed_progress t) progress,
                  at_accept_progress := Some progress\<rparr>), Ok None))"

definition handle_chunk :: "receiver \<Rightarrow> string \<Rightarrow> u64 \<Rightarrow> string \<Rightarrow> frame_result" where
  "handle_chunk r token progress data =
     (case map_of (rc_transfers r) token of
        None \<Rightarrow> (r, Ok None)
      | Some t \<Rightarrow>
         let max_window = tp_max_out_of_order_window (rc_policy r);
             max_ooo_chunks = tp_max_out_of_order_chunks (rc_policy r);
             minimum_chunk_progress = at_start_progress t + 1;
             maximum_chunk_progress = at_start_progress t + at_total_chunks t + 1;
             next_expected = next_expected_chunk_progress t;
             forward_gap = uint progress - uint next_expected in
         if progress < minimum_chunk_progress then
           (drop_transfer r token, Err (OtSequence
             (''Chunk progress must be greater than start progress'' @ token_note token)))
         else if forward_gap > uint max_window then
           (drop_transfer r token, Err (OtPolicy
             (''Out-of-order gap '' @ dec_int forward_gap @ '' exceeds policy limit '' @
              dec_u64 max_window @ token_note token)))
         else if progress > maximum_chunk_progress then
           (drop_transfer r token, Err (OtSequence
             (''Chunk progress exceeds declared transfer bounds'' @ token_note token)))
         else if progress > at_start_progress t + 2 \<and>
                 \<not> contains_key (at_chunks t) (at_start_progress t + 1) \<and>
                 \<not> contains_key (at_chunks t) (at_start_progress t + 2) then
           (drop_transfer r token, Err (OtSequence
             (''First chunk skips beyond the reserved accept slot'' @ token_note token)))
         else
           (case map_of (at_chunks t) progress of
              Some existing \<Rightarrow>
                if existing \<noteq> data then
                  (drop_transfer r token, Err (OtSequence
                    (''Conflicting duplicate chunk detected (token: '' @ token @
                     '', progress: '' @ dec_u64 progress @ '')'')))
                else (r, Ok None)
            | None \<Rightarrow>
                let t' = refresh_chunk_progress_state
                           (t\<lparr>at_chunks := AList.update progress data (at_chunks t),
                              at_highest_observed_progress :=
                                max (at_highest_observed_progress t) progress\<rparr>) in
                if forward_gap > 0 \<and> buffered_out_of_order_count t' > max_ooo_chunks then
                  (drop_transfer r token, Err (OtPolicy
                    (''Buffered out-of-order chunks exceed policy limit '' @
                     dec max_ooo_chunks @ token_note token)))
                else (put_transfer r token t', Ok None)))"

definition handle_end :: "ext \<Rightarrow> receiver \<Rightarrow> string \<Rightarrow> u64 \<Rightarrow> frame_result" where
  "handle_end X r token progress =
     (case map_of (rc_transfers r) token of
        None \<Rightarrow> (r, Ok None)
      | Some t \<Rightarrow>
         (drop_transfer r token,
          if progress \<le> at_highest_observed_progress t then
            Err (OtSequence (''End frame progress must be greater than all prior transfer frames''
                  @ token_note token))
          else if at_total_chunks t > 0 \<and> at_chunks t = [] then
            Err (OtReassembly (''Transfer ended before any chunks were received'' @
                  token_note token))
          else if of_nat (length (at_chunks t)) \<noteq> at_total_chunks t then
            Err (OtReassembly (''Expected '' @ dec_u64 (at_total_chunks t) @
                  '' chunks but received '' @ dec (length (at_chunks t)) @ token_note token))
          else
            (case assemble t of
               None \<Rightarrow> Err (OtReassembly
                 (''Transfer ended with unresolved chunk gaps'' @ token_note token))
             | Some assembled \<Rightarrow>
                 if of_nat (length assembled) \<noteq> at_total_bytes t then
                   Err (OtDigest (''Byte length mismatch: expected '' @
                     dec_u64 (at_total_bytes t) @ '', got '' @ dec (length assembled) @
                     token_note token))
                 else if sha256_digest X assembled \<noteq> at_digest t then
                   Err (OtDigest (''SHA-256 digest mismatch'' @ token_note token))
                 else
                   (case validate_and_parse_oversized X assembled
                           (unat (tp_max_transfer_bytes (rc_policy r))) of
                      Some message \<Rightarrow> Ok (Some message)
                    | None \<Rightarrow> Err (OtReassembly
                        (''Reassembled payload is not a valid JSON-RPC message'' @
                         token_note token))))))"

definition handle_abort :: "receiver \<Rightarrow> string \<Rightarrow> string option \<Rightarrow> frame_result" where
  "handle_abort r token reason = (drop_transfer r token, Err (OtAbort token reason))"

definition token_to_string :: "ext \<Rightarrow> json option \<Rightarrow> string" where
  "token_to_string X v =
     (case Option.bind v (progress_token_string X) of Some t \<Rightarrow> t | None \<Rightarrow> [])"

definition assert_valid_token :: "string \<Rightarrow> (oversized_error, unit) result" where
  "assert_valid_token token =
     (if token = [] then
        Err (OtSequence ''Oversized transfer frame is missing progressToken'')
      else Ok ())"

definition parse_progress :: "json option \<Rightarrow> string \<Rightarrow> (oversized_error, u64) result" where
  "parse_progress v token =
     (let progress =
        (case v of
           Some (JNumber n) \<Rightarrow>
             (case number_as_u64 n of
                Some u \<Rightarrow> Some u
              | None \<Rightarrow>
                  let f = number_as_f64 n in
                  if f64_fract_is_zero f \<and> f64_positive f then Some (f64_as_u64 f) else None)
         | _ \<Rightarrow> None) in
      case progress of
        Some p \<Rightarrow>
          if p > 0 then Ok p else Err (OtSequence (''Invalid progress value'' @ token_note token))
      | None \<Rightarrow> Err (OtSequence (''Invalid progress value'' @ token_note token)))"

definition receiver_process_frame ::
  "ext \<Rightarrow> receiver \<Rightarrow> instant \<Rightarrow> json_rpc_notification \<Rightarrow> frame_result" where
  "receiver_process_frame X r now n =
     (case ntf_params n of
        None \<Rightarrow> (r, Ok None)
      | Some params \<Rightarrow>
     (case json_get params ''cvm'' of
        None \<Rightarrow> (r, Ok None)
      | Some cvm \<Rightarrow>
     (case from_cvm_value cvm of
        None \<Rightarrow> (r, Ok None)
      | Some frame \<Rightarrow>
         let token = token_to_string X (json_get params ''progressToken'') in
         (case assert_valid_token token of
            Err e \<Rightarrow> (r, Err e)
          | Ok _ \<Rightarrow>
         (case parse_progress (json_get params ''progress'') token of
            Err e \<Rightarrow> (r, Err e)
          | Ok progress \<Rightarrow>
             (case frame of
                Start cm digest total_bytes total_chunks \<Rightarrow>
                  handle_start r now token progress digest total_bytes total_chunks
              | Accept \<Rightarrow> handle_accept r token progress
              | Chunk data \<Rightarrow> handle_chunk r token progress data
              | End \<Rightarrow> handle_end X r token progress
              | Abort reason \<Rightarrow> handle_abort r token reason))))))"

section \<open>Lemmas: the contiguous frontier\<close>

lemma inj_slots: "n \<le> 2 ^ 64 \<Longrightarrow> inj_on (\<lambda>i. base + of_nat i :: u64) {..<n}"
  by (rule inj_onI) (metis add_left_cancel lessThan_iff order_less_le_trans unat_of_nat_u64)

lemma frontier_run:
  "\<exists>n\<le>fuel. frontier fuel m nxt = nxt + of_nat n \<and>
     (\<forall>i<n. contains_key m (nxt + of_nat i)) \<and>
     (n < fuel \<longrightarrow> \<not> contains_key m (nxt + of_nat n))"
proof (induction fuel arbitrary: nxt)
  case 0
  then show ?case by simp
next
  case (Suc fuel)
  show ?case
  proof (cases "contains_key m nxt")
    case True
    from Suc [of "nxt + 1"] obtain n where n: "n \<le> fuel"
      "frontier fuel m (nxt + 1) = nxt + 1 + of_nat n"
      "\<forall>i<n. contains_key m (nxt + 1 + of_nat i)"
      "n < fuel \<longrightarrow> \<not> contains_key m (nxt + 1 + of_nat n)"
      by blast
    have "\<forall>i<Suc n. contains_key m (nxt + of_nat i)"
    proof (intro allI impI)
      fix i assume "i < Suc n"
      with n(3) True show "contains_key m (nxt + of_nat i)"
        by (cases i) (auto simp: add.assoc)
    qed
    with n True show ?thesis by (intro exI [of _ "Suc n"]) (simp add: add.assoc)
  next
    case False
    then show ?thesis by (intro exI [of _ 0]) simp
  qed
qed

lemma run_le_length:
  assumes "\<forall>i<n. contains_key m (base + of_nat i :: u64)" and "n \<le> 2 ^ 64"
  shows "n \<le> length m"
proof -
  have "(\<lambda>i. base + of_nat i) ` {..<n} \<subseteq> fst ` set m"
    using assms(1) by (auto simp: contains_key_iff)
  then have "card ((\<lambda>i. base + of_nat i) ` {..<n}) \<le> card (fst ` set m)"
    by (intro card_mono) auto
  also have "\<dots> \<le> length m" using card_length [of "map fst m"] by simp
  finally show ?thesis using card_image [OF inj_slots [OF assms(2)]] by simp
qed

text \<open>The fuel of \<open>frontier\<close> is enough: it ends at a slot that holds no chunk, as the
  loop of the code does.\<close>

lemma frontier_stops:
  assumes "length m < 2 ^ 64"
  shows "\<not> contains_key m (frontier (length m) m nxt)"
proof -
  from frontier_run [of "length m" m nxt] obtain n where n: "n \<le> length m"
    "frontier (length m) m nxt = nxt + of_nat n" "\<forall>i<n. contains_key m (nxt + of_nat i)"
    "n < length m \<longrightarrow> \<not> contains_key m (nxt + of_nat n)"
    by blast
  show ?thesis
  proof (cases "n < length m")
    case True
    with n show ?thesis by simp
  next
    case False
    show ?thesis
    proof
      assume "contains_key m (frontier (length m) m nxt)"
      with n have "\<forall>i<Suc n. contains_key m (nxt + of_nat i)" by (metis less_Suc_eq)
      then have "Suc n \<le> length m"
        by (rule run_le_length) (use n(1) assms in simp)
      with False show False by simp
    qed
  qed
qed

lemma frontier_eq:
  assumes "\<forall>i<n. contains_key m (nxt + of_nat i)" and "\<not> contains_key m (nxt + of_nat n)"
    and "n \<le> fuel"
  shows "frontier fuel m nxt = nxt + of_nat n"
proof -
  from frontier_run [of fuel m nxt] obtain k where k: "k \<le> fuel"
    "frontier fuel m nxt = nxt + of_nat k" "\<forall>i<k. contains_key m (nxt + of_nat i)"
    "k < fuel \<longrightarrow> \<not> contains_key m (nxt + of_nat k)"
    by blast
  with assms have "k = n" by (metis linorder_neqE_nat order_less_le_trans)
  with k show ?thesis by simp
qed

section \<open>Invariant\<close>

definition frontier_ok :: "active_transfer \<Rightarrow> bool" where
  "frontier_ok t =
     (case (at_first_chunk_progress t, at_next_expected_chunk_progress t) of
        (Some first, Some nxt) \<Rightarrow> unat (nxt - first) \<le> length (at_chunks t)
      | (None, None) \<Rightarrow> at_chunks t = []
      | _ \<Rightarrow> False)"

definition in_bounds :: "active_transfer \<Rightarrow> u64 \<Rightarrow> bool" where
  "in_bounds t k \<longleftrightarrow> at_start_progress t + 1 \<le> k \<and>
     k \<le> at_start_progress t + at_total_chunks t + 1"

definition slot_ok :: "active_transfer \<Rightarrow> u64 \<Rightarrow> bool" where
  "slot_ok t k \<longleftrightarrow> in_bounds t k \<and> k \<le> at_highest_observed_progress t"

definition transfer_inv :: "transfer_policy \<Rightarrow> active_transfer \<Rightarrow> bool" where
  "transfer_inv p t \<longleftrightarrow>
     at_total_bytes t \<le> tp_max_transfer_bytes p \<and>
     at_total_chunks t \<le> tp_max_transfer_chunks p \<and>
     take (length DIGEST_PREFIX) (at_digest t) = DIGEST_PREFIX \<and>
     at_start_progress t \<le> at_highest_observed_progress t \<and>
     keys_ok (at_chunks t) \<and>
     list_all (\<lambda>(k, data). slot_ok t k) (at_chunks t) \<and>
     frontier_ok t"

definition receiver_inv :: "receiver \<Rightarrow> bool" where
  "receiver_inv r \<longleftrightarrow>
     keys_ok (rc_transfers r) \<and>
     length (rc_transfers r) \<le> tp_max_concurrent_transfers (rc_policy r) \<and>
     list_all (\<lambda>(token, t). transfer_inv (rc_policy r) t) (rc_transfers r)"

lemma receiver_inv_put:
  assumes "receiver_inv r" and "transfer_inv (rc_policy r) t"
    and "is_tracking r token \<or> length (rc_transfers r) < tp_max_concurrent_transfers (rc_policy r)"
  shows "receiver_inv (put_transfer r token t)"
proof -
  have "length (AList.update token t (rc_transfers r)) \<le>
      tp_max_concurrent_transfers (rc_policy r)"
    using assms by (cases "contains_key (rc_transfers r) token")
      (auto simp: receiver_inv_def is_tracking_def map_simps)
  moreover have "list_all (\<lambda>(token, t). transfer_inv (rc_policy r) t)
      (AList.update token t (rc_transfers r))"
    using assms set_update_subset [of token t "rc_transfers r"]
    by (fastforce simp: receiver_inv_def list_all_iff)
  ultimately show ?thesis using assms(1) by (simp add: receiver_inv_def put_transfer_def)
qed

lemma receiver_inv_drop:
  assumes "receiver_inv r"
  shows "receiver_inv (drop_transfer r token)"
  using assms length_delete_le [of token "rc_transfers r"]
    set_delete_subset [of token "rc_transfers r"]
  by (auto simp: receiver_inv_def drop_transfer_def list_all_iff)

lemma receiver_inv_lookup:
  "receiver_inv r \<Longrightarrow> map_of (rc_transfers r) token = Some t \<Longrightarrow> transfer_inv (rc_policy r) t"
  by (auto simp: receiver_inv_def list_all_iff dest: map_of_SomeD)

lemma put_transfer_simps [simp]:
  "rc_policy (put_transfer r token t) = rc_policy r"
  "map_of (rc_transfers (put_transfer r token t)) = (map_of (rc_transfers r))(token \<mapsto> t)"
  by (simp_all add: put_transfer_def)

lemma drop_transfer_simps [simp]:
  "rc_policy (drop_transfer r token) = rc_policy r"
  "map_of (rc_transfers (drop_transfer r token)) = (map_of (rc_transfers r))(token := None)"
  by (simp_all add: drop_transfer_def)

lemma is_tracking_iff: "is_tracking r token \<longleftrightarrow> map_of (rc_transfers r) token \<noteq> None"
  by (simp add: is_tracking_def contains_key_def)

lemma drop_untracked: "\<not> is_tracking r token \<Longrightarrow> drop_transfer r token = r"
  by (simp add: is_tracking_def drop_transfer_def delete_notin)

section \<open>The contract of the handlers of a tracked transfer\<close>

text \<open>What \<open>handle_accept\<close>, \<open>handle_chunk\<close>, \<open>handle_end\<close> and \<open>handle_abort\<close> share: they
  touch only their own token, never start tracking it, and stop tracking it whenever they
  return anything but \<open>Ok(None)\<close>.\<close>

locale frame_handler =
  fixes handle :: "receiver \<Rightarrow> string \<Rightarrow> 'a \<Rightarrow> frame_result"
  assumes keeps_policy: "rc_policy (fst (handle r token a)) = rc_policy r"
    and isolates: "token' \<noteq> token \<Longrightarrow>
      map_of (rc_transfers (fst (handle r token a))) token' = map_of (rc_transfers r) token'"
    and no_create: "\<not> is_tracking r token \<Longrightarrow> fst (handle r token a) = r"
    and cleans: "snd (handle r token a) \<noteq> Ok None \<Longrightarrow> \<not> is_tracking (fst (handle r token a)) token"
    and keeps_inv: "receiver_inv r \<Longrightarrow> receiver_inv (fst (handle r token a))"
begin

lemma run_isolates:
  "token' \<noteq> token \<Longrightarrow>
   map_of (rc_transfers (fst (run_steps (\<lambda>r a. handle r token a) r as))) token' =
   map_of (rc_transfers r) token'"
  by (induction as arbitrary: r) (auto simp: split_beta Let_def isolates)

lemma run_orphan:
  "\<not> is_tracking r token \<Longrightarrow> fst (run_steps (\<lambda>r a. handle r token a) r as) = r"
  by (induction as arbitrary: r) (auto simp: split_beta Let_def no_create)

text \<open>After a frame that failed the transfer or completed it, late frames of the same token
  change nothing.\<close>

lemma terminal_is_final:
  "snd (handle r token a) \<noteq> Ok None \<Longrightarrow>
   fst (run_steps (\<lambda>r a. handle r token a) (fst (handle r token a)) as) = fst (handle r token a)"
  by (rule run_orphan) (rule cleans)

end

definition store_chunk :: "active_transfer \<Rightarrow> u64 \<Rightarrow> string \<Rightarrow> active_transfer" where
  "store_chunk t progress data =
     refresh_chunk_progress_state
       (t\<lparr>at_chunks := AList.update progress data (at_chunks t),
          at_highest_observed_progress := max (at_highest_observed_progress t) progress\<rparr>)"

lemma handle_chunk_tracked:
  assumes "map_of (rc_transfers r) token = Some t"
    and "handle_chunk r token progress data = res"
  shows "(\<exists>e. res = (drop_transfer r token, Err e)) \<or>
     map_of (at_chunks t) progress = Some data \<and> res = (r, Ok None) \<or>
     in_bounds t progress \<and> map_of (at_chunks t) progress = None \<and>
       res = (put_transfer r token (store_chunk t progress data), Ok None)"
  using assms(2)
  by (cases "map_of (at_chunks t) progress")
     (auto simp: handle_chunk_def assms(1) Let_def store_chunk_def [symmetric] not_less
       in_bounds_def split: if_splits)

lemma handle_chunk_cases:
  obtains (untracked) "map_of (rc_transfers r) token = None"
      "handle_chunk r token progress data = (r, Ok None)"
  | (failed) t e where "map_of (rc_transfers r) token = Some t"
      "handle_chunk r token progress data = (drop_transfer r token, Err e)"
  | (duplicate) t where "map_of (rc_transfers r) token = Some t"
      "map_of (at_chunks t) progress = Some data"
      "handle_chunk r token progress data = (r, Ok None)"
  | (stored) t where "map_of (rc_transfers r) token = Some t"
      "in_bounds t progress" "map_of (at_chunks t) progress = None"
      "handle_chunk r token progress data =
         (put_transfer r token (store_chunk t progress data), Ok None)"
proof (cases "map_of (rc_transfers r) token")
  case None
  then show thesis by (intro untracked) (simp_all add: handle_chunk_def)
next
  case (Some t)
  from handle_chunk_tracked [OF Some refl, of progress data] show thesis
  proof (elim disjE exE conjE)
    fix e
    assume "handle_chunk r token progress data = (drop_transfer r token, Err e)"
    with Some show thesis by (rule failed)
  next
    assume "map_of (at_chunks t) progress = Some data"
      and "handle_chunk r token progress data = (r, Ok None)"
    with Some show thesis by (rule duplicate)
  next
    assume "in_bounds t progress" and "map_of (at_chunks t) progress = None"
      and "handle_chunk r token progress data =
        (put_transfer r token (store_chunk t progress data), Ok None)"
    with Some show thesis by (rule stored)
  qed
qed

lemma refresh_fields [simp]:
  "at_digest (refresh_chunk_progress_state t) = at_digest t"
  "at_total_bytes (refresh_chunk_progress_state t) = at_total_bytes t"
  "at_total_chunks (refresh_chunk_progress_state t) = at_total_chunks t"
  "at_start_progress (refresh_chunk_progress_state t) = at_start_progress t"
  "at_accept_progress (refresh_chunk_progress_state t) = at_accept_progress t"
  "at_highest_observed_progress (refresh_chunk_progress_state t) = at_highest_observed_progress t"
  "at_chunks (refresh_chunk_progress_state t) = at_chunks t"
  "at_admitted_at (refresh_chunk_progress_state t) = at_admitted_at t"
  by (simp_all add: refresh_chunk_progress_state_def Let_def)

lemma refresh_frontier_ok: "frontier_ok (refresh_chunk_progress_state t)"
proof (cases "at_chunks t = []")
  case True
  then show ?thesis by (simp add: refresh_chunk_progress_state_def frontier_ok_def)
next
  case False
  from frontier_run [of "length (at_chunks t)" "at_chunks t" "first_chunk_slot t"]
  obtain n where n: "n \<le> length (at_chunks t)"
    "frontier (length (at_chunks t)) (at_chunks t) (first_chunk_slot t) =
       first_chunk_slot t + of_nat n"
    by blast
  have "unat (of_nat n :: u64) \<le> n" by (simp add: unat_of_nat)
  with n False show ?thesis
    by (simp add: refresh_chunk_progress_state_def frontier_ok_def Let_def)
qed

lemma slot_ok_raise:
  assumes "slot_ok t k" and "at_start_progress t' = at_start_progress t"
    and "at_total_chunks t' = at_total_chunks t"
    and "at_highest_observed_progress t \<le> at_highest_observed_progress t'"
  shows "slot_ok t' k"
  unfolding slot_ok_def in_bounds_def assms(2,3)
  using assms(1) order_trans [OF _ assms(4)] unfolding slot_ok_def in_bounds_def by blast

lemma slots_ok_raise:
  assumes "list_all (\<lambda>(k, data). slot_ok t k) m"
    and "at_start_progress t' = at_start_progress t" "at_total_chunks t' = at_total_chunks t"
    and "at_highest_observed_progress t \<le> at_highest_observed_progress t'"
  shows "list_all (\<lambda>(k, data). slot_ok t' k) m"
  unfolding list_all_iff
proof
  fix x assume "x \<in> set m"
  with assms(1) have "slot_ok t (fst x)" by (auto simp: list_all_iff split_beta)
  then have "slot_ok t' (fst x)" by (rule slot_ok_raise) (fact assms)+
  then show "case x of (k, data) \<Rightarrow> slot_ok t' k" by (simp add: split_beta)
qed

lemma store_chunk_fields [simp]:
  "at_digest (store_chunk t progress data) = at_digest t"
  "at_total_bytes (store_chunk t progress data) = at_total_bytes t"
  "at_total_chunks (store_chunk t progress data) = at_total_chunks t"
  "at_start_progress (store_chunk t progress data) = at_start_progress t"
  "at_accept_progress (store_chunk t progress data) = at_accept_progress t"
  "at_highest_observed_progress (store_chunk t progress data) =
     max (at_highest_observed_progress t) progress"
  "at_chunks (store_chunk t progress data) = AList.update progress data (at_chunks t)"
  "at_admitted_at (store_chunk t progress data) = at_admitted_at t"
  by (simp_all add: store_chunk_def)

lemma store_chunk_inv:
  assumes inv: "transfer_inv p t" and bounds: "in_bounds t progress"
  shows "transfer_inv p (store_chunk t progress data)"
proof -
  let ?t = "store_chunk t progress data"
  have "list_all (\<lambda>(k, data). slot_ok ?t k) (at_chunks t)"
    by (rule slots_ok_raise [of t]) (use inv in \<open>simp_all add: transfer_inv_def\<close>)
  moreover have "slot_ok ?t progress"
    using bounds unfolding slot_ok_def in_bounds_def store_chunk_fields
    by (blast intro: max.cobounded2)
  ultimately have "list_all (\<lambda>(k, data). slot_ok ?t k) (at_chunks ?t)"
    unfolding store_chunk_fields by (intro list_all_update) auto
  moreover have "frontier_ok ?t" unfolding store_chunk_def by (rule refresh_frontier_ok)
  moreover have "at_start_progress t \<le> max (at_highest_observed_progress t) progress"
    using inv by (simp add: transfer_inv_def le_max_iff_disj)
  ultimately show ?thesis using inv by (simp add: transfer_inv_def)
qed

lemma accept_inv:
  assumes inv: "transfer_inv p t"
  shows "transfer_inv p
    (t\<lparr>at_highest_observed_progress := max (at_highest_observed_progress t) progress,
       at_accept_progress := Some progress\<rparr>)" (is "transfer_inv p ?t")
proof -
  have "list_all (\<lambda>(k, data). slot_ok ?t k) (at_chunks t)"
    by (rule slots_ok_raise [of t]) (use inv in \<open>simp_all add: transfer_inv_def\<close>)
  moreover have "frontier_ok ?t = frontier_ok t"
    by (simp add: frontier_ok_def split: option.splits)
  ultimately show ?thesis using inv by (simp add: transfer_inv_def le_max_iff_disj)
qed

interpretation accept_h: frame_handler handle_accept
proof unfold_locales
  fix r token and progress :: u64
  assume "receiver_inv r"
  then show "receiver_inv (fst (handle_accept r token progress))"
    by (auto simp: handle_accept_def is_tracking_iff split: option.splits
        intro!: receiver_inv_put receiver_inv_drop accept_inv dest: receiver_inv_lookup)
qed (auto simp: handle_accept_def is_tracking_iff split: option.splits if_splits)

interpretation chunk_h: frame_handler "\<lambda>r token (progress, data). handle_chunk r token progress data"
proof unfold_locales
  fix r token and a :: "u64 \<times> string"
  obtain progress data where a: "a = (progress, data)" by (cases a)
  assume "receiver_inv r"
  then show "receiver_inv (fst (case a of (progress, data) \<Rightarrow> handle_chunk r token progress data))"
    unfolding a
    by (cases rule: handle_chunk_cases [of r token progress data])
       (auto simp: is_tracking_iff
         intro!: receiver_inv_put receiver_inv_drop store_chunk_inv dest: receiver_inv_lookup)
next
  fix r token and a :: "u64 \<times> string" and token'
  obtain progress data where a: "a = (progress, data)" by (cases a)
  show "rc_policy (fst (case a of (progress, data) \<Rightarrow> handle_chunk r token progress data)) =
      rc_policy r"
    unfolding a by (cases rule: handle_chunk_cases [of r token progress data]) auto
  show "map_of (rc_transfers (fst (case a of (progress, data) \<Rightarrow>
      handle_chunk r token progress data))) token' = map_of (rc_transfers r) token'"
    if "token' \<noteq> token"
    unfolding a using that by (cases rule: handle_chunk_cases [of r token progress data]) auto
  show "fst (case a of (progress, data) \<Rightarrow> handle_chunk r token progress data) = r"
    if "\<not> is_tracking r token"
    unfolding a using that
    by (cases rule: handle_chunk_cases [of r token progress data]) (auto simp: is_tracking_iff)
  show "\<not> is_tracking (fst (case a of (progress, data) \<Rightarrow>
      handle_chunk r token progress data)) token"
    if "snd (case a of (progress, data) \<Rightarrow> handle_chunk r token progress data) \<noteq> Ok None"
    unfolding a using that[unfolded a]
    by (cases rule: handle_chunk_cases [of r token progress data]) (auto simp: is_tracking_iff)
qed

lemma handle_end_state:
  "fst (handle_end X r token progress) = drop_transfer r token"
  by (auto simp: handle_end_def is_tracking_iff drop_untracked split: option.splits)

interpretation end_h: frame_handler "handle_end X"
  by unfold_locales
     (auto simp: handle_end_state is_tracking_iff drop_untracked receiver_inv_drop)

interpretation abort_h: frame_handler handle_abort
  by unfold_locales
     (auto simp: handle_abort_def is_tracking_iff drop_untracked receiver_inv_drop)

end
