(* ===== verification/Oversized_Transfer.thy ===== *)
theory Oversized_Transfer
  imports Oversized_Receiver
begin

text \<open>
  CEP-22 end to end: the receiver as a state machine over frames, sweeps and resets, what every
  reachable receiver satisfies, and where the bytes of a completed transfer come from.
\<close>

section \<open>The receiver as a state machine\<close>

datatype receiver_event =
    FrameIn instant json_rpc_notification
  | Sweep instant
  | Clear

datatype receiver_output =
    FrameOut "(oversized_error, json_rpc_message option) result"
  | Reaped "string list"
  | Cleared

fun receiver_step :: "ext \<Rightarrow> receiver \<Rightarrow> receiver_event \<Rightarrow> receiver \<times> receiver_output" where
  "receiver_step X r (FrameIn now n) =
     (let (r', res) = receiver_process_frame X r now n in (r', FrameOut res))"
| "receiver_step X r (Sweep now) = (let (r', ts) = remove_expired r now in (r', Reaped ts))"
| "receiver_step X r Clear = (clear_receiver r, Cleared)"

text \<open>What a notification means to the receiver: its token, progress and frame.\<close>

definition frame_of_notification ::
  "ext \<Rightarrow> json_rpc_notification \<Rightarrow> (string \<times> u64 \<times> oversized_frame) option" where
  "frame_of_notification X n =
     (case Option.bind (notification_param n ''cvm'') from_cvm_value of
        None \<Rightarrow> None
      | Some f \<Rightarrow>
         (let token = token_to_string X (notification_param n ''progressToken'') in
          if token = [] then None
          else case parse_progress (notification_param n ''progress'') token of
              Err e \<Rightarrow> None | Ok p \<Rightarrow> Some (token, p, f)))"

fun handle_frame ::
  "ext \<Rightarrow> receiver \<Rightarrow> instant \<Rightarrow> string \<Rightarrow> u64 \<Rightarrow> oversized_frame \<Rightarrow> frame_result" where
  "handle_frame X r now token progress (Start cm digest tb tc) =
     handle_start r now token progress digest tb tc"
| "handle_frame X r now token progress Accept = handle_accept r token progress"
| "handle_frame X r now token progress (Chunk data) = handle_chunk r token progress data"
| "handle_frame X r now token progress End = handle_end X r token progress"
| "handle_frame X r now token progress (Abort reason) = handle_abort r token reason"

lemma process_frame_some:
  "frame_of_notification X n = Some (token, p, f) \<Longrightarrow>
   receiver_process_frame X r now n = handle_frame X r now token p f"
  by (cases f)
     (auto simp: receiver_process_frame_def frame_of_notification_def notification_param_def
       assert_valid_token_def Let_def split: option.splits if_splits sum.splits)

lemma process_frame_none:
  "frame_of_notification X n = None \<Longrightarrow>
   fst (receiver_process_frame X r now n) = r \<and>
   (snd (receiver_process_frame X r now n) = Ok None \<or>
    (\<exists>e. snd (receiver_process_frame X r now n) = Err (OtSequence e)))"
  by (auto simp: receiver_process_frame_def frame_of_notification_def notification_param_def
      assert_valid_token_def parse_progress_def Let_def split: option.splits if_splits sum.splits)

lemma frame_of_into [simp]:
  "token \<noteq> [] \<Longrightarrow> 0 < p \<Longrightarrow>
   frame_of_notification X (into_progress_notification f token p msg) = Some (token, p, f)"
  by (simp add: frame_of_notification_def token_to_string_def parse_progress_def Let_def)

section \<open>Reachable receivers\<close>

lemma handle_start_inv:
  assumes "receiver_inv r"
  shows "receiver_inv (fst (handle_start r now token p digest tb tc))"
proof -
  have "transfer_inv (rc_policy r)
      \<lparr>at_digest = digest, at_total_bytes = tb, at_total_chunks = tc,
       at_start_progress = p, at_accept_progress = None, at_first_chunk_progress = None,
       at_next_expected_chunk_progress = None, at_highest_observed_progress = p,
       at_chunks = [], at_admitted_at = now\<rparr>"
    if "tb \<le> tp_max_transfer_bytes (rc_policy r)" "tc \<le> tp_max_transfer_chunks (rc_policy r)"
      "take (length DIGEST_PREFIX) digest = DIGEST_PREFIX"
    using that by (simp add: transfer_inv_def frontier_ok_def)
  with assms show ?thesis
    by (auto simp: handle_start_def Let_def not_less not_le intro: receiver_inv_put)
qed

lemma handle_frame_inv:
  "receiver_inv r \<Longrightarrow> receiver_inv (fst (handle_frame X r now token p f))"
  using chunk_h.keeps_inv [where a = "(p, d)" for d]
  by (cases f) (simp_all add: handle_start_inv accept_h.keeps_inv end_h.keeps_inv
    abort_h.keeps_inv)

lemma remove_expired_inv: "receiver_inv r \<Longrightarrow> receiver_inv (fst (remove_expired r now))"
  by (auto simp: remove_expired_def receiver_inv_def list_all_iff
      intro: order_trans [OF length_filter_le])

text \<open>The policy never changes, and the invariant holds under it.\<close>

definition receiver_ok :: "transfer_policy \<Rightarrow> receiver \<Rightarrow> bool" where
  "receiver_ok p r \<longleftrightarrow> rc_policy r = p \<and> receiver_inv r"

lemma handle_start_frame:
  "rc_policy (fst (handle_start r now token p digest tb tc)) = rc_policy r"
  "token' \<noteq> token \<Longrightarrow>
   map_of (rc_transfers (fst (handle_start r now token p digest tb tc))) token' =
   map_of (rc_transfers r) token'"
  by (simp_all add: handle_start_def Let_def)

lemma handle_start_refused:
  "snd (handle_start r now token p digest tb tc) \<noteq> Ok None \<Longrightarrow>
   fst (handle_start r now token p digest tb tc) = r"
  "is_tracking r token \<Longrightarrow> fst (handle_start r now token p digest tb tc) = r"
  by (simp_all add: handle_start_def Let_def is_tracking_def split: if_splits)

lemma handle_frame_policy: "rc_policy (fst (handle_frame X r now token p f)) = rc_policy r"
  using chunk_h.keeps_policy [where a = "(p, d)" for d]
  by (cases f) (simp_all add: handle_start_frame accept_h.keeps_policy end_h.keeps_policy
    abort_h.keeps_policy)

lemma handle_frame_isolates:
  "token' \<noteq> token \<Longrightarrow>
   map_of (rc_transfers (fst (handle_frame X r now token p f))) token' =
   map_of (rc_transfers r) token'"
  using chunk_h.isolates [where a = "(p, d)" for d]
  by (cases f) (simp_all add: handle_start_frame accept_h.isolates end_h.isolates
    abort_h.isolates)

lemma receiver_step_ok: "receiver_ok p r \<Longrightarrow> receiver_ok p (fst (receiver_step X r e))"
proof (cases e)
  case (FrameIn now n)
  assume "receiver_ok p r"
  then have "receiver_ok p (fst (receiver_process_frame X r now n))"
    by (cases "frame_of_notification X n")
       (auto simp: receiver_ok_def process_frame_some handle_frame_inv handle_frame_policy
         process_frame_none)
  with FrameIn show ?thesis by (simp add: split_beta Let_def)
next
  case (Sweep now)
  assume "receiver_ok p r"
  with Sweep remove_expired_inv show ?thesis
    by (simp add: receiver_ok_def split_beta Let_def) (simp add: remove_expired_def)
qed (simp add: receiver_ok_def clear_receiver_def receiver_inv_def)

interpretation receiver_m: machine "receiver_step X" "receiver_ok p"
  by unfold_locales (rule receiver_step_ok)

lemma with_policy_ok: "receiver_ok p (with_policy p)"
  by (simp add: receiver_ok_def with_policy_def receiver_inv_def)

lemma card_slots: "card {k :: u64. a \<le> k \<and> k \<le> a + c} \<le> unat c + 1"
proof -
  have "unat (a + c) \<le> unat a + unat c" by (simp add: unat_word_ariths)
  then have "unat ` {k. a \<le> k \<and> k \<le> a + c} \<subseteq> {unat a..unat a + unat c}"
    by (auto simp: word_le_nat_alt)
  then have "card (unat ` {k. a \<le> k \<and> k \<le> a + c}) \<le> card {unat a..unat a + unat c}"
    by (intro card_mono) auto
  moreover have "inj_on unat {k :: u64. a \<le> k \<and> k \<le> a + c}"
    by (rule inj_onI) (simp add: word_unat_eq_iff)
  ultimately show ?thesis by (simp add: card_image)
qed

lemma transfer_chunk_count:
  assumes "transfer_inv p t"
  shows "length (at_chunks t) \<le> unat (at_total_chunks t) + 1"
proof -
  let ?S = "{k. at_start_progress t + 1 \<le> k \<and> k \<le> at_start_progress t + 1 + at_total_chunks t}"
  have "slot_ok t (fst x)" if "x \<in> set (at_chunks t)" for x
    using that assms by (auto simp: transfer_inv_def list_all_iff split_beta)
  then have "set (map fst (at_chunks t)) \<subseteq> ?S"
    unfolding slot_ok_def in_bounds_def by (auto simp: ac_simps)
  then have "card (set (map fst (at_chunks t))) \<le> card ?S" by (intro card_mono) auto
  also have "\<dots> \<le> unat (at_total_chunks t) + 1" by (rule card_slots)
  finally show ?thesis
    using assms by (simp add: transfer_inv_def keys_ok_def distinct_card flip: set_map)
qed

section \<open>Where a completed payload comes from\<close>

inductive reaches :: "ext \<Rightarrow> transfer_policy \<Rightarrow> receiver_event list \<Rightarrow> receiver \<Rightarrow> bool"
  for X :: ext and p :: transfer_policy
where
  reaches_init: "reaches X p [] (with_policy p)"
| reaches_step: "reaches X p es r \<Longrightarrow> reaches X p (es @ [e]) (fst (receiver_step X r e))"

lemma reaches_ok: "reaches X p es r \<Longrightarrow> receiver_ok p r"
  by (induction rule: reaches.induct) (simp_all add: with_policy_ok receiver_step_ok)

lemma reaches_more:
  "reaches X p es r \<Longrightarrow> reaches X p (es @ fs) (fst (run_steps (receiver_step X) r fs))"
proof (induction fs arbitrary: es r)
  case Nil
  then show ?case by simp
next
  case (Cons f fs)
  from Cons.IH [OF reaches_step [OF Cons.prems, of f]] show ?case
    by (simp add: split_beta Let_def)
qed

lemmas reaches_run = reaches_more [OF reaches_init, simplified]

definition heard ::
  "ext \<Rightarrow> receiver_event list \<Rightarrow> string \<Rightarrow> u64 \<Rightarrow> oversized_frame \<Rightarrow> bool" where
  "heard X es token k f \<longleftrightarrow>
     (\<exists>now n. FrameIn now n \<in> set es \<and> frame_of_notification X n = Some (token, k, f))"

lemma heard_append: "heard X es token k f \<Longrightarrow> heard X (es @ fs) token k f"
  by (auto simp: heard_def)

definition accounted :: "ext \<Rightarrow> receiver_event list \<Rightarrow> string \<Rightarrow> active_transfer \<Rightarrow> bool" where
  "accounted X es token t \<longleftrightarrow>
     (\<exists>cm. heard X es token (at_start_progress t)
        (Start cm (at_digest t) (at_total_bytes t) (at_total_chunks t))) \<and>
     (\<forall>k d. map_of (at_chunks t) k = Some d \<longrightarrow> heard X es token k (Chunk d))"

lemma accounted_append: "accounted X es token t \<Longrightarrow> accounted X (es @ fs) token t"
  by (auto simp: accounted_def intro: heard_append)

lemma handle_frame_accounted:
  assumes old: "\<And>t. map_of (rc_transfers r) token = Some t \<Longrightarrow> accounted X es token t"
    and h: "heard X es token k f"
    and new: "map_of (rc_transfers (fst (handle_frame X r now token k f))) token = Some t"
  shows "accounted X es token t"
proof (cases f)
  case (Start cm digest tb tc)
  with new h old show ?thesis
    by (auto simp: handle_start_def Let_def accounted_def split: if_splits)
next
  case Accept
  with new old show ?thesis
    by (auto simp: handle_accept_def accounted_def split: option.splits if_splits)
next
  case (Chunk data)
  with new h old show ?thesis
    by (cases rule: handle_chunk_cases [of r token k data])
       (auto simp: accounted_def split: if_splits)
next
  case End
  with new show ?thesis by (simp add: handle_end_state)
next
  case (Abort reason)
  with new show ?thesis by (simp add: handle_abort_def)
qed

lemma reaches_accounted:
  "reaches X p es r \<Longrightarrow> map_of (rc_transfers r) token = Some t \<Longrightarrow> accounted X es token t"
proof (induction arbitrary: t rule: reaches.induct)
  case reaches_init
  then show ?case by (simp add: with_policy_def)
next
  case (reaches_step es r e)
  have old: "\<And>t. map_of (rc_transfers r) token = Some t \<Longrightarrow> accounted X (es @ [e]) token t"
    by (rule accounted_append) (rule reaches_step.IH)
  show ?case
  proof (cases e)
    case (FrameIn now n)
    show ?thesis
    proof (cases "frame_of_notification X n")
      case None
      with FrameIn reaches_step.prems old show ?thesis
        by (simp add: split_beta Let_def process_frame_none)
    next
      case (Some a)
      obtain token' k f where a: "a = (token', k, f)" by (cases a)
      have step: "fst (receiver_step X r e) = fst (handle_frame X r now token' k f)"
        using FrameIn Some a by (simp add: split_beta Let_def process_frame_some)
      show ?thesis
      proof (cases "token' = token")
        case True
        have "heard X (es @ [e]) token k f" using FrameIn Some a True by (auto simp: heard_def)
        with old show ?thesis
          using reaches_step.prems step True by (metis handle_frame_accounted)
      next
        case False
        with reaches_step.prems step old show ?thesis by (simp add: handle_frame_isolates)
      qed
    qed
  next
    case (Sweep now)
    have "map_of (rc_transfers r) token = Some t"
      using reaches_step.prems Sweep reaches_ok [OF reaches_step.hyps]
      by (auto simp: remove_expired_def receiver_ok_def receiver_inv_def Let_def
          simp flip: keys_ok_map_of split: if_splits)
    then show ?thesis by (rule old)
  next
    case Clear
    with reaches_step.prems show ?thesis by (simp add: clear_receiver_def)
  qed
qed

section \<open>Assembly\<close>

lemma assemble_from_concat:
  "assemble_from m first is = Some out \<Longrightarrow>
   \<exists>ds. length ds = length is \<and> out = concat ds \<and>
     (\<forall>j<length is. map_of m (first + of_nat (is ! j)) = Some (ds ! j))"
proof (induction "is" arbitrary: out)
  case Nil
  then show ?case by simp
next
  case (Cons i "is")
  then obtain d rest where d: "map_of m (first + of_nat i) = Some d"
    "assemble_from m first is = Some rest" "out = d @ rest"
    by (auto split: option.splits)
  from Cons.IH [OF d(2)] obtain ds where ds: "length ds = length is" "rest = concat ds"
    "\<forall>j<length is. map_of m (first + of_nat (is ! j)) = Some (ds ! j)"
    by blast
  have "\<forall>j<length (i # is). map_of m (first + of_nat ((i # is) ! j)) = Some ((d # ds) ! j)"
    using d(1) ds(3) by (simp add: nth_Cons split: nat.splits)
  with d ds show ?case by (intro exI [of _ "d # ds"]) simp
qed

lemma assemble_from_Some:
  "(\<And>j. j < length is \<Longrightarrow> map_of m (first + of_nat (is ! j)) = Some (ds ! j)) \<Longrightarrow>
   length ds = length is \<Longrightarrow> assemble_from m first is = Some (concat ds)"
proof (induction "is" arbitrary: ds)
  case Nil
  then show ?case by simp
next
  case (Cons i "is")
  then obtain d ds' where ds: "ds = d # ds'" by (cases ds) auto
  have "assemble_from m first is = Some (concat ds')"
  proof (rule Cons.IH)
    fix j assume "j < length is"
    with Cons.prems(1) [of "Suc j"] ds
    show "map_of m (first + of_nat (is ! j)) = Some (ds' ! j)" by simp
  qed (use Cons.prems(2) ds in simp)
  with Cons.prems(1) [of 0] ds show ?case by simp
qed

lemma assemble_concat:
  assumes "assemble t = Some out"
  obtains first ds where "first = at_start_progress t + 1 \<or> first = at_start_progress t + 2"
    "length ds = unat (at_total_chunks t)" "out = concat ds"
    "\<forall>i<length ds. map_of (at_chunks t) (first + of_nat i) = Some (ds ! i)"
proof -
  from assms obtain first where first: "assembly_first_chunk_progress t = Some first"
    and out: "assemble_from (at_chunks t) first [0..<unat (at_total_chunks t)] = Some out"
    by (auto simp: assemble_def split: option.splits)
  from first have "first = at_start_progress t + 1 \<or> first = at_start_progress t + 2"
    by (auto simp: assembly_first_chunk_progress_def Let_def split: if_splits)
  with assemble_from_concat [OF out] that show thesis by auto
qed

lemma handle_end_complete:
  assumes "snd (handle_end X r token k) = Ok (Some msg)"
  obtains t out where "map_of (rc_transfers r) token = Some t" "assemble t = Some out"
    "of_nat (length out) = at_total_bytes t" "sha256_digest X out = at_digest t"
    "validate_and_parse_oversized X out (unat (tp_max_transfer_bytes (rc_policy r))) = Some msg"
    "at_highest_observed_progress t < k"
  using assms
  by (auto simp: handle_end_def not_le split: option.splits if_splits)

lemma only_end_completes:
  assumes "snd (handle_frame X r now token k f) = Ok (Some msg)"
  shows "f = End"
proof (cases f)
  case (Chunk data)
  with assms show ?thesis by (cases rule: handle_chunk_cases [of r token k data]) auto
qed (use assms in \<open>auto simp: handle_start_def handle_accept_def handle_abort_def Let_def
  split: option.splits if_splits\<close>)

section \<open>Receiver properties\<close>

text \<open>C7. Integrity of reassembly. Whenever the receiver, after any history of frames, sweeps
  and resets, answers a frame with a message, that frame is the \<open>end\<close> frame of a token for
  which it was sent a \<open>start\<close> frame, and the message is the parse of the concatenation of
  exactly the declared number of chunk frames it was sent for that token at consecutive
  progress values just after the \<open>start\<close>. The concatenation has the declared length, at most the
  policy's limit, and the declared SHA-256 digest. No partial, reordered or invented payload is
  surfaced, and the transfer is no longer tracked.\<close>

theorem receiver_integrity:
  assumes "reaches X p es r"
    and "receiver_process_frame X r now n = (r', Ok (Some msg))"
  shows "\<exists>token k start cm digest total_bytes total_chunks first ds.
     frame_of_notification X n = Some (token, k, End) \<and>
     heard X es token start (Start cm digest total_bytes total_chunks) \<and>
     (first = start + 1 \<or> first = start + 2) \<and>
     length ds = unat total_chunks \<and>
     (\<forall>i<length ds. heard X es token (first + of_nat i) (Chunk (ds ! i))) \<and>
     length (concat ds) \<le> unat (tp_max_transfer_bytes p) \<and>
     of_nat (length (concat ds)) = total_bytes \<and>
     sha256_digest X (concat ds) = digest \<and>
     Option.bind (json_from_str X (concat ds)) validate_message = Some msg \<and>
     \<not> is_tracking r' token"
proof -
  from assms(2) obtain token k f where f: "frame_of_notification X n = Some (token, k, f)"
    using process_frame_none [of X n r now] by (cases "frame_of_notification X n") auto
  with assms(2) have hf: "handle_frame X r now token k f = (r', Ok (Some msg))"
    by (simp add: process_frame_some)
  then have "f = End" by (intro only_end_completes [of X r now token k f msg]) simp
  with hf have he: "handle_end X r token k = (r', Ok (Some msg))" by simp
  then have "snd (handle_end X r token k) = Ok (Some msg)" by simp
  then obtain t out where t: "map_of (rc_transfers r) token = Some t" "assemble t = Some out"
    "of_nat (length out) = at_total_bytes t" "sha256_digest X out = at_digest t"
    "validate_and_parse_oversized X out (unat (tp_max_transfer_bytes (rc_policy r))) = Some msg"
    by (rule handle_end_complete)
  from t(2) obtain first ds where ds:
    "first = at_start_progress t + 1 \<or> first = at_start_progress t + 2"
    "length ds = unat (at_total_chunks t)" "out = concat ds"
    "\<forall>i<length ds. map_of (at_chunks t) (first + of_nat i) = Some (ds ! i)"
    by (rule assemble_concat)
  from reaches_accounted [OF assms(1) t(1)] obtain cm where
    "heard X es token (at_start_progress t)
       (Start cm (at_digest t) (at_total_bytes t) (at_total_chunks t))"
    and chunks: "\<forall>k d. map_of (at_chunks t) k = Some d \<longrightarrow> heard X es token k (Chunk d)"
    by (auto simp: accounted_def)
  moreover have "\<forall>i<length ds. heard X es token (first + of_nat i) (Chunk (ds ! i))"
    using chunks ds(4) by blast
  moreover have pol: "rc_policy r = p" using reaches_ok [OF assms(1)] by (simp add: receiver_ok_def)
  moreover have "\<not> is_tracking r' token"
    using he handle_end_state [of X r token k] by (simp add: is_tracking_iff)
  moreover have "length (concat ds) \<le> unat (tp_max_transfer_bytes p)"
    "Option.bind (json_from_str X (concat ds)) validate_message = Some msg"
    using t(5) ds(3) pol
    by (auto simp: validate_and_parse_oversized_def split: if_splits)
  ultimately show ?thesis using f \<open>f = End\<close> t(3,4) ds(1,2) unfolding ds(3) by blast
qed


text \<open>Isolation and cleanup. A frame changes only the transfer of its own token. A \<open>start\<close> that
  is refused changes nothing. Any other frame that fails or completes its transfer stops the
  tracking of the token before the result is returned, and one for a token that is not tracked,
  such as a late frame of a reaped transfer, changes nothing. The admission time of a transfer
  is never refreshed.\<close>

theorem frame_isolation_cleanup:
  assumes "frame_of_notification X n = Some (token, k, f)"
    and "receiver_process_frame X r now n = (r', res)"
  shows "(\<forall>token'. token' \<noteq> token \<longrightarrow>
        map_of (rc_transfers r') token' = map_of (rc_transfers r) token') \<and>
     ((\<exists>cm d tb tc. f = Start cm d tb tc) \<longrightarrow> res \<noteq> Ok None \<longrightarrow> r' = r) \<and>
     ((\<nexists>cm d tb tc. f = Start cm d tb tc) \<longrightarrow>
        (res \<noteq> Ok None \<longrightarrow> \<not> is_tracking r' token) \<and> (\<not> is_tracking r token \<longrightarrow> r' = r)) \<and>
     (\<forall>t t'. map_of (rc_transfers r) token = Some t \<longrightarrow>
        map_of (rc_transfers r') token = Some t' \<longrightarrow> at_admitted_at t' = at_admitted_at t)"
proof -
  from assms have h: "handle_frame X r now token k f = (r', res)" by (simp add: process_frame_some)
  have iso: "\<forall>token'. token' \<noteq> token \<longrightarrow>
      map_of (rc_transfers r') token' = map_of (rc_transfers r) token'"
    using handle_frame_isolates [of _ token X r now k f] h by simp
  have start: "r' = r" if "f = Start cm d tb tc" "res \<noteq> Ok None" for cm d tb tc
    using h that handle_start_refused(1) [of r now token k d tb tc] by simp
  have other: "(res \<noteq> Ok None \<longrightarrow> \<not> is_tracking r' token) \<and> (\<not> is_tracking r token \<longrightarrow> r' = r)"
    if ns: "\<nexists>cm d tb tc. f = Start cm d tb tc"
  proof (cases f)
    case Accept
    with h accept_h.cleans [of r token k] accept_h.no_create [of r token k] show ?thesis by simp
  next
    case (Chunk d)
    with h chunk_h.cleans [of r token "(k, d)"] chunk_h.no_create [of r token "(k, d)"]
    show ?thesis by simp
  next
    case End
    with h end_h.cleans [of X r token k] end_h.no_create [of r token X k] show ?thesis by simp
  next
    case (Abort a)
    with h abort_h.cleans [of r token a] abort_h.no_create [of r token a] show ?thesis by simp
  qed (use ns in blast)
  have age: "at_admitted_at t' = at_admitted_at t"
    if t: "map_of (rc_transfers r) token = Some t" "map_of (rc_transfers r') token = Some t'" for t t'
  proof (cases f)
    case (Chunk d)
    with h have "fst (handle_chunk r token k d) = r'" by simp
    with t show ?thesis by (cases rule: handle_chunk_cases [of r token k d]) auto
  next
    case End
    with h have "r' = drop_transfer r token" using handle_end_state [of X r token k] by simp
    with t show ?thesis by simp
  next
    case (Start cm d tb tc)
    with h t handle_start_refused(2) [of r token now k d tb tc] show ?thesis
      by (simp add: is_tracking_iff)
  next
    case Accept
    with h t show ?thesis by (auto simp: handle_accept_def split: if_splits)
  next
    case (Abort a)
    with h t show ?thesis by (auto simp: handle_abort_def)
  qed
  show ?thesis
    by (intro conjI) (use iso in blast, use start in blast, use other in blast, use age in blast)
qed

text \<open>The watchdog is exact. A sweep reaps precisely the transfers older than the policy's
  timeout and keeps every other one untouched; a timeout of zero disables it.\<close>

theorem remove_expired_exact:
  assumes "receiver_inv r" and "remove_expired r now = (r', reaped)"
  shows "map_of (rc_transfers r') token =
      (case map_of (rc_transfers r) token of
         None \<Rightarrow> None
       | Some t \<Rightarrow> if token \<in> set reaped then None else Some t) \<and>
    (token \<in> set reaped \<longleftrightarrow>
       tp_transfer_timeout_ms (rc_policy r) \<noteq> 0 \<and>
       (\<exists>t. map_of (rc_transfers r) token = Some t \<and>
          now - at_admitted_at t > unat (tp_transfer_timeout_ms (rc_policy r)) * 1000000)) \<and>
    distinct reaped"
proof (cases "tp_transfer_timeout_ms (rc_policy r) = 0")
  case True
  with assms(2) show ?thesis by (auto simp: remove_expired_def split: option.splits)
next
  case False
  let ?m = "rc_transfers r" and ?x = "\<lambda>(k, t). transfer_expired r now t"
  have keys: "keys_ok ?m" using assms(1) by (simp add: receiver_inv_def)
  have r': "rc_transfers r' = filter (\<lambda>(k, t). \<not> transfer_expired r now t) ?m"
    and reaped: "reaped = map fst (filter ?x ?m)"
    using assms(2) False by (auto simp: remove_expired_def)
  have keys': "keys_ok (rc_transfers r')" by (simp add: r' keys)
  have in_reaped: "token \<in> set reaped \<longleftrightarrow>
      (\<exists>t. map_of ?m token = Some t \<and> transfer_expired r now t)"
    unfolding reaped keys_ok_map_of [OF keys, symmetric] by (auto simp: image_iff)
  have kept: "map_of (rc_transfers r') token = Some t \<longleftrightarrow>
      map_of ?m token = Some t \<and> \<not> transfer_expired r now t" for t
    unfolding keys_ok_map_of [OF keys', symmetric]
    unfolding keys_ok_map_of [OF keys, symmetric] r' by auto
  have "map_of (rc_transfers r') token =
      (case map_of ?m token of None \<Rightarrow> None
       | Some t \<Rightarrow> if token \<in> set reaped then None else Some t)"
  proof (cases "map_of ?m token")
    case None
    with kept show ?thesis by (metis not_None_eq option.simps(4))
  next
    case (Some t)
    then have "token \<in> set reaped \<longleftrightarrow> transfer_expired r now t" by (simp add: in_reaped)
    moreover have "map_of (rc_transfers r') token =
        (if transfer_expired r now t then None else Some t)"
    proof (cases "transfer_expired r now t")
      case True
      then have "map_of (rc_transfers r') token \<noteq> Some u" for u using kept [of u] Some by auto
      with True show ?thesis by (simp only: if_True not_Some_eq) blast
    next
      case False
      with kept [of t] Some show ?thesis by simp
    qed
    ultimately show ?thesis using Some by simp
  qed
  moreover have "distinct reaped"
    using keys by (simp add: reaped keys_ok_def distinct_map_filter)
  ultimately show ?thesis
    using False in_reaped unfolding transfer_expired_def duration_since_def from_millis_def by blast
qed

end
