(* ===== verification/Oversized_Delivery.thy ===== *)
theory Oversized_Delivery
  imports Oversized_Transfer
begin

text \<open>
  CEP-22 delivery: the round trip of the sender's frames through the receiver in the three
  handshake layouts that occur (no handshake; handshake; the receiver recorded an accept the
  sender did not wait for), and the independence of the outcome from the order in which the
  chunks arrive.
\<close>

section \<open>A transfer delivered in order\<close>

text \<open>The chunk store and the transfer record after the chunks \<open>ds\<close> have arrived in order from
  slot \<open>b\<close>, in a transfer whose \<open>accept\<close> was recorded iff \<open>a\<close>.\<close>

definition laid :: "nat \<Rightarrow> string list \<Rightarrow> (u64, string) hash_map" where
  "laid b ds = map (\<lambda>i. (of_nat (b + i), ds ! i)) [0..<length ds]"

definition first_slot :: "bool \<Rightarrow> nat" where
  "first_slot a = (if a then 3 else 2)"

definition mid ::
  "bool \<Rightarrow> nat \<Rightarrow> string \<Rightarrow> u64 \<Rightarrow> nat \<Rightarrow> instant \<Rightarrow> string list \<Rightarrow> active_transfer" where
  "mid a b digest tb n now ds =
     \<lparr>at_digest = digest, at_total_bytes = tb, at_total_chunks = of_nat n,
      at_start_progress = START_PROGRESS,
      at_accept_progress = (if a then Some ACCEPT_PROGRESS else None),
      at_first_chunk_progress = (if ds = [] then None else Some (of_nat (first_slot a))),
      at_next_expected_chunk_progress =
        (if ds = [] then None else Some (of_nat (max (b + length ds) (first_slot a)))),
      at_highest_observed_progress = of_nat (max (first_slot a - 1) (b + length ds - 1)),
      at_chunks = laid b ds, at_admitted_at = now\<rparr>"

text \<open>The layouts that occur: the sender reserved the accept slot (\<open>b = 3\<close>) only if the
  receiver recorded the accept.\<close>

definition layout :: "bool \<Rightarrow> nat \<Rightarrow> bool" where
  "layout a b \<longleftrightarrow> b = 2 \<or> b = 3 \<and> a"

lemma laid_Nil [simp]: "laid b [] = []"
  by (simp add: laid_def)

lemma laid_snoc: "laid b (ds @ [d]) = laid b ds @ [(of_nat (b + length ds), d)]"
  by (auto simp: laid_def nth_append)

lemma length_laid [simp]: "length (laid b ds) = length ds"
  by (simp add: laid_def)

lemma laid_lookup:
  "b + length ds < 2 ^ 64 \<Longrightarrow> j < 2 ^ 64 \<Longrightarrow>
   map_of (laid b ds) (of_nat j) =
     (if b \<le> j \<and> j < b + length ds then Some (ds ! (j - b)) else None)"
proof (induction ds rule: rev_induct)
  case Nil
  then show ?case by simp
next
  case (snoc d ds)
  have new: "map_of (laid b ds) (of_nat (b + length ds)) = None"
    if "j = b + length ds" using snoc that by simp
  show ?case
  proof (cases "j = b + length ds")
    case True
    with new show ?thesis by (simp add: laid_snoc map_add_def del: of_nat_add)
  next
    case False
    with snoc.prems have "(of_nat j :: u64) \<noteq> of_nat (b + length ds)"
      by (subst of_nat_u64_eq) auto
    with False snoc show ?thesis
      by (auto simp: laid_snoc map_add_def nth_append simp del: of_nat_add split: option.splits)
  qed
qed

lemma laid_contains:
  "b + length ds < 2 ^ 64 \<Longrightarrow> j < 2 ^ 64 \<Longrightarrow>
   contains_key (laid b ds) (of_nat j) \<longleftrightarrow> b \<le> j \<and> j < b + length ds"
  by (simp add: contains_key_def laid_lookup)

lemma laid_frontier:
  assumes "b + length ds + 1 < 2 ^ 64" and "b \<le> f" and "f \<le> b + 1"
  shows "frontier (length ds) (laid b ds) (of_nat f) = of_nat (max (b + length ds) f)"
proof -
  let ?n = "b + length ds - f"
  have "frontier (length ds) (laid b ds) (of_nat f) = of_nat f + of_nat ?n"
  proof (rule frontier_eq)
    show "\<forall>i<?n. contains_key (laid b ds) (of_nat f + of_nat i)"
    proof (intro allI impI)
      fix i assume "i < ?n"
      with assms laid_contains [of b ds "f + i"]
      show "contains_key (laid b ds) (of_nat f + of_nat i)" by simp
    qed
    have "f + ?n < 2 ^ 64" using assms by auto
    with assms laid_contains [of b ds "f + ?n"]
    show "\<not> contains_key (laid b ds) (of_nat f + of_nat ?n)" by simp
    show "?n \<le> length ds" using assms by simp
  qed
  also have "\<dots> = of_nat (f + ?n)" by simp
  also have "f + ?n = max (b + length ds) f" by simp
  finally show ?thesis .
qed

lemma first_chunk_slot_mid [simp]:
  "first_chunk_slot (mid a b digest tb n now ds) = of_nat (first_slot a)"
  by (simp add: first_chunk_slot_def mid_def START_PROGRESS_def first_slot_def)

lemma mid_store:
  assumes "layout a b" and "b + length ds + 2 < 2 ^ 64"
  shows "store_chunk (mid a b digest tb n now ds) (of_nat (b + length ds)) d =
         mid a b digest tb n now (ds @ [d])"
proof -
  have "\<not> contains_key (laid b ds) (of_nat (b + length ds))"
    using assms(2) by (simp add: laid_contains del: of_nat_add)
  then have upd: "AList.update (of_nat (b + length ds)) d (laid b ds) = laid b (ds @ [d])"
    by (simp add: update_new laid_snoc del: of_nat_add)
  have fr: "frontier (length (ds @ [d])) (laid b (ds @ [d])) (of_nat (first_slot a)) =
      of_nat (max (b + length (ds @ [d])) (first_slot a))"
    using assms by (intro laid_frontier) (auto simp: layout_def first_slot_def)
  have hi: "max (of_nat (max (first_slot a - 1) (b + length ds - 1))) (of_nat (b + length ds)) =
      (of_nat (max (first_slot a - 1) (b + length (ds @ [d]) - 1)) :: u64)"
    using assms by (subst of_nat_u64_max) (auto simp: layout_def first_slot_def max_def)
  let ?t = "mid a b digest tb n now ds"
  have slot: "first_chunk_slot (?t\<lparr>at_chunks := c, at_highest_observed_progress := h\<rparr>) =
      of_nat (first_slot a)" for c h
    by (simp add: first_chunk_slot_def mid_def START_PROGRESS_def first_slot_def)
  show ?thesis
    unfolding store_chunk_def refresh_chunk_progress_state_def slot
    using upd fr hi by (simp add: mid_def laid_snoc del: of_nat_add of_nat_max)
qed

lemma mid_chunk:
  assumes lay: "layout a b" and n: "length ds < n" and bound: "n + 4 < 2 ^ 64"
    and t: "map_of (rc_transfers r) token = Some (mid a b digest tb n now ds)"
  shows "handle_chunk r token (of_nat (b + length ds)) d =
     (put_transfer r token (mid a b digest tb n now (ds @ [d])), Ok None)"
proof -
  let ?t = "mid a b digest tb n now ds" and ?p = "of_nat (b + length ds) :: u64"
  have b: "2 \<le> b" "b \<le> 3" using lay by (auto simp: layout_def)
  have st: "at_start_progress ?t + 1 = of_nat 2" "at_start_progress ?t + 2 = of_nat 3"
    "at_start_progress ?t + at_total_chunks ?t + 1 = of_nat (n + 2)"
    by (simp_all add: mid_def START_PROGRESS_def)
  have chunks: "at_chunks ?t = laid b ds" by (simp add: mid_def)
  have ne: "next_expected_chunk_progress ?t = of_nat (max (b + length ds) (first_slot a))"
    using lay by (auto simp: next_expected_chunk_progress_def layout_def)
       (auto simp: mid_def first_slot_def first_chunk_slot_def START_PROGRESS_def)
  have gap: "uint ?p - uint (next_expected_chunk_progress ?t) \<le> 0"
    unfolding ne using b n bound
    by (simp add: uint_of_nat_u64 first_slot_def del: of_nat_add of_nat_max)
  have win: "\<not> uint w < uint ?p - uint (next_expected_chunk_progress ?t)" for w :: u64
    using gap unsigned_greater_eq [of w, where ?'a = int] by linarith
  have lo: "\<not> ?p < of_nat 2" by (subst of_nat_u64_less) (use b n bound in auto)
  have hi: "\<not> of_nat (n + 2) < ?p" by (subst of_nat_u64_less) (use b n bound in auto)
  have skip: "\<not> (of_nat 3 < ?p \<and> \<not> contains_key (laid b ds) (of_nat 2) \<and>
      \<not> contains_key (laid b ds) (of_nat 3))"
    using b n bound
    by (auto simp: of_nat_u64_less laid_contains simp del: of_nat_add of_nat_numeral)
  have new: "map_of (laid b ds) ?p = None"
    using n b bound by (simp add: laid_lookup del: of_nat_add)
  have store: "store_chunk ?t ?p d = mid a b digest tb n now (ds @ [d])"
    using lay n bound b by (intro mid_store) auto
  show ?thesis
    unfolding handle_chunk_def t option.case Let_def st chunks
    using gap win lo hi skip new store
    by (simp add: store_chunk_def chunks del: of_nat_add of_nat_numeral)
qed

lemma put_twice: "put_transfer (put_transfer r token t) token t' = put_transfer r token t'"
  by (simp add: put_transfer_def update_twice)

lemma put_same: "map_of (rc_transfers r) token = Some t \<Longrightarrow> put_transfer r token t = r"
  by (simp add: put_transfer_def update_same)

lemma drop_put: "\<not> is_tracking r token \<Longrightarrow> drop_transfer (put_transfer r token t) token = r"
  by (simp add: put_transfer_def drop_transfer_def is_tracking_def delete_update_new)

definition deliver ::
  "(json_rpc_notification \<Rightarrow> instant) \<Rightarrow> json_rpc_notification list \<Rightarrow> receiver_event list" where
  "deliver clock frames = map (\<lambda>f. FrameIn (clock f) f) frames"

lemma step_into:
  "token \<noteq> [] \<Longrightarrow> 0 < p \<Longrightarrow>
   receiver_step X r (FrameIn now (into_progress_notification f token p msg)) =
     (fst (handle_frame X r now token p f), FrameOut (snd (handle_frame X r now token p f)))"
  by (simp add: process_frame_some [OF frame_of_into] split_beta Let_def)

lemma mid_chunks_run:
  assumes "layout a b" and "n + 4 < 2 ^ 64" and "token \<noteq> []"
    and "length ds + length cs = n"
    and "map_of (rc_transfers r) token = Some (mid a b digest tb n now ds)"
  shows "run_steps (receiver_step X) r
      (deliver clock (chunk_frames token (of_nat (b + length ds)) cs)) =
    (put_transfer r token (mid a b digest tb n now (ds @ cs)),
     replicate (length cs) (FrameOut (Ok None)))"
  using assms(4,5)
proof (induction cs arbitrary: ds r)
  case Nil
  then show ?case by (simp add: deliver_def put_same)
next
  case (Cons c cs)
  let ?p = "of_nat (b + length ds) :: u64" and ?m = "mid a b digest tb n now (ds @ [c])"
  have "2 \<le> b" "b \<le> 3" using assms(1) by (auto simp: layout_def)
  with assms(2) Cons.prems(1) have pos: "0 < ?p"
    using of_nat_u64_less [of 0 "b + length ds"] by simp
  have hc: "handle_chunk r token ?p c = (put_transfer r token ?m, Ok None)"
    by (rule mid_chunk) (use assms(1,2) Cons.prems in auto)
  have "run_steps (receiver_step X) (put_transfer r token ?m)
      (deliver clock (chunk_frames token (of_nat (b + length (ds @ [c]))) cs)) =
    (put_transfer (put_transfer r token ?m) token (mid a b digest tb n now ((ds @ [c]) @ cs)),
     replicate (length cs) (FrameOut (Ok None)))"
    by (rule Cons.IH) (use Cons.prems in simp_all)
  moreover have "of_nat (b + length (ds @ [c])) = ?p + 1" by simp
  ultimately have IH: "run_steps (receiver_step X) (put_transfer r token ?m)
      (deliver clock (chunk_frames token (?p + 1) cs)) =
    (put_transfer r token (mid a b digest tb n now (ds @ c # cs)),
     replicate (length cs) (FrameOut (Ok None)))"
    by (simp only: put_twice append_assoc append_Cons append_Nil)
  have "run_steps (receiver_step X) r (deliver clock (chunk_frames token ?p (c # cs))) =
      (let (s, outs) = run_steps (receiver_step X) (put_transfer r token ?m)
         (deliver clock (chunk_frames token (?p + 1) cs)) in (s, FrameOut (Ok None) # outs))"
    by (simp add: deliver_def step_into [OF assms(3) pos] hc del: receiver_step.simps of_nat_add)
  then show ?case unfolding IH by simp
qed

lemma mid_assemble:
  assumes "layout a b" and "length ds + 4 < 2 ^ 64" and "ds \<noteq> []"
  shows "assemble (mid a b digest tb (length ds) now ds) = Some (concat ds)"
proof -
  let ?t = "mid a b digest tb (length ds) now ds"
  have b: "b = 2 \<or> b = 3" using assms(1) by (auto simp: layout_def)
  have n: "unat (at_total_chunks ?t) = length ds"
    using assms(2) by (simp add: mid_def unat_of_nat_u64)
  have look: "map_of (at_chunks ?t) (of_nat j + of_nat i) =
      (if b \<le> j + i \<and> j + i < b + length ds then Some (ds ! (j + i - b)) else None)"
    if "i < length ds" "j \<le> 3" for i j
    using laid_lookup [of b ds "j + i"] that b assms(2) by (auto simp: mid_def)
  have range: "has_complete_chunk_range ?t (of_nat j) \<longleftrightarrow> j = b \<or> ds = []" if "j = 2 \<or> j = 3" for j
  proof -
    have "contains_key (at_chunks ?t) (of_nat j + of_nat i) \<longleftrightarrow>
        b \<le> j + i \<and> j + i < b + length ds" if "i < length ds" for i
      using look [OF that, of j] \<open>j = 2 \<or> j = 3\<close>
      by (auto simp: contains_key_def split: if_splits)
    then have "has_complete_chunk_range ?t (of_nat j) \<longleftrightarrow>
        (\<forall>i<length ds. b \<le> j + i \<and> j + i < b + length ds)"
      unfolding has_complete_chunk_range_def n list_all_iff by auto
    also have "\<dots> \<longleftrightarrow> j = b \<or> ds = []"
      using that b by (cases ds) (auto intro: exI [of _ "length ds - 1"])
    finally show ?thesis .
  qed
  have from_b: "assemble_from (at_chunks ?t) (of_nat b) [0..<length ds] = Some (concat ds)"
    by (rule assemble_from_Some) (use look [of _ b] b in auto)
  have st: "at_start_progress ?t + 1 = of_nat 2" "at_start_progress ?t + 2 = of_nat 3"
    by (simp_all add: mid_def START_PROGRESS_def)
  have "assembly_first_chunk_progress ?t = Some (of_nat b)"
    using range [of 2] range [of 3] b assms(3)
    by (auto simp: assembly_first_chunk_progress_def Let_def st simp del: of_nat_numeral)
  with from_b n show ?thesis by (simp add: assemble_def)
qed

lemma mid_end:
  assumes "layout a b" and "length ds + 4 < 2 ^ 64" and "ds \<noteq> []"
    and t: "map_of (rc_transfers r) token = Some
      (mid a b (sha256_digest X (concat ds)) (of_nat (length (concat ds))) (length ds) now ds)"
    and "length (concat ds) \<le> unat (tp_max_transfer_bytes (rc_policy r))"
    and "Option.bind (json_from_str X (concat ds)) validate_message = Some msg"
  shows "handle_end X r token (of_nat (b + length ds)) = (drop_transfer r token, Ok (Some msg))"
proof -
  let ?t = "mid a b (sha256_digest X (concat ds)) (of_nat (length (concat ds))) (length ds) now ds"
  have hi: "\<not> of_nat (b + length ds) \<le> at_highest_observed_progress ?t"
  proof -
    have "\<not> (of_nat (b + length ds) :: u64) \<le>
        of_nat (max (first_slot a - 1) (b + length ds - 1))"
      by (subst of_nat_u64_le) (use assms(1,2,3) in \<open>auto simp: layout_def first_slot_def neq_Nil_conv\<close>)
    then show ?thesis by (simp add: mid_def del: of_nat_add of_nat_max)
  qed
  have fields: "at_total_chunks ?t = of_nat (length ds)" "at_chunks ?t = laid b ds"
    "at_total_bytes ?t = of_nat (length (concat ds))" "at_digest ?t = sha256_digest X (concat ds)"
    by (simp_all add: mid_def)
  have some: "\<not> (0 < at_total_chunks ?t \<and> at_chunks ?t = [])"
    by (cases ds) (simp_all add: mid_def laid_def)
  show ?thesis
    unfolding handle_end_def t option.case mid_assemble [OF assms(1-3)]
    using hi some assms(5,6) by (simp add: fields validate_and_parse_oversized_def)
qed

lemma length_le_concat: "\<forall>c\<in>set cs. c \<noteq> [] \<Longrightarrow> length cs \<le> length (concat cs)"
  by (induction cs) (auto simp: Suc_le_eq add_strict_increasing)

lemma handle_start_fresh:
  assumes "\<not> is_tracking r token" and "tb \<le> tp_max_transfer_bytes (rc_policy r)"
    and "of_nat n \<le> tp_max_transfer_chunks (rc_policy r)"
    and "active_transfer_count r < tp_max_concurrent_transfers (rc_policy r)"
  shows "handle_start r now token START_PROGRESS (sha256_digest X s) tb (of_nat n) =
    (put_transfer r token (mid False 2 (sha256_digest X s) tb n now []), Ok None)"
  using assms
  by (simp add: handle_start_def Let_def not_less is_tracking_def active_transfer_count_def
      sha256_digest_def mid_def first_slot_def START_PROGRESS_def)

lemma handle_accept_fresh:
  assumes "map_of (rc_transfers r) token = Some (mid False 2 digest tb n now [])"
    and "b = 2 \<or> b = 3"
  shows "handle_accept r token ACCEPT_PROGRESS =
    (put_transfer r token (mid True b digest tb n now []), Ok None)"
  using assms
  by (auto simp: handle_accept_def mid_def first_slot_def START_PROGRESS_def ACCEPT_PROGRESS_def
      word_le_nat_alt max_def)

text \<open>What the receiver is handed: the sender's frames, with the \<open>accept\<close> the server feeds to its
  own receiver after a \<open>start\<close> it answered.\<close>

definition accept_frame :: "string \<Rightarrow> json_rpc_notification" where
  "accept_frame token = into_progress_notification Accept token ACCEPT_PROGRESS None"

definition received_frames :: "bool \<Rightarrow> string \<Rightarrow> built_frames \<Rightarrow> json_rpc_notification list" where
  "received_frames accepted token fr =
     [bf_start fr] @ (if accepted then [accept_frame token] else []) @ bf_chunks fr @ [bf_end fr]"

lemma open_run:
  assumes "token \<noteq> []" and "layout accepted b" and "\<not> is_tracking r token"
    and "tb \<le> tp_max_transfer_bytes (rc_policy r)"
    and "of_nat n \<le> tp_max_transfer_chunks (rc_policy r)"
    and "active_transfer_count r < tp_max_concurrent_transfers (rc_policy r)"
    and start: "st = into_progress_notification (Start cm (sha256_digest X s) tb (of_nat n)) token
      START_PROGRESS msg"
  shows "run_steps (receiver_step X) r
      (deliver clock ([st] @ (if accepted then [accept_frame token] else []))) =
    (put_transfer r token (mid accepted b (sha256_digest X s) tb n (clock st) []),
     replicate (if accepted then 2 else 1) (FrameOut (Ok None)))"
proof -
  have pos: "0 < START_PROGRESS" "0 < ACCEPT_PROGRESS"
    by (simp_all add: START_PROGRESS_def ACCEPT_PROGRESS_def)
  have b: "b = 2 \<or> b = 3" "\<not> accepted \<longrightarrow> b = 2" using assms(2) by (auto simp: layout_def)
  note hs = handle_start_fresh [OF assms(3-6), of "clock st" X s]
  have acc: "handle_accept (put_transfer r token (mid False 2 d tb n now [])) token ACCEPT_PROGRESS =
      (put_transfer r token (mid True b d tb n now []), Ok None)" for d now
    by (subst handle_accept_fresh [OF _ b(1)]) (simp_all add: put_twice)
  show ?thesis
    using b(2) step_into [OF assms(1) pos(1)] step_into [OF assms(1) pos(2)] hs acc
    by (auto simp: deliver_def accept_frame_def start numeral_2_eq_2 simp del: receiver_step.simps)
qed

text \<open>The whole delivery, for every layout.\<close>

lemma build_frames:
  assumes "build_oversized_frames X s opts = Ok fr"
  obtains cs where "split_string_by_byte_size s (so_chunk_size_bytes opts) = Ok cs"
    "bf_start fr = into_progress_notification
       (Start Render (sha256_digest X s) (of_nat (length s)) (of_nat (length cs)))
       (so_progress_token opts) START_PROGRESS (Some ''starting oversized transfer'')"
    "bf_chunks fr = chunk_frames (so_progress_token opts)
       (of_nat (first_slot (so_needs_accept_handshake opts))) cs"
    "bf_end fr = into_progress_notification End (so_progress_token opts)
       (of_nat (first_slot (so_needs_accept_handshake opts) + length cs))
       (Some ''oversized transfer complete'')"
  using assms
  by (auto simp: build_oversized_frames_def Let_def first_slot_def ACCEPT_PROGRESS_def
      split: sum.splits)

lemma delivery:
  assumes fr: "build_oversized_frames X s opts = Ok fr"
    and token: "token = so_progress_token opts" "token \<noteq> []"
    and lay: "so_needs_accept_handshake opts \<longrightarrow> accepted"
    and s: "s \<noteq> []" "length s < 2 ^ 63"
    and free: "\<not> is_tracking r token"
      "active_transfer_count r < tp_max_concurrent_transfers (rc_policy r)"
    and pol: "length s \<le> unat (tp_max_transfer_bytes (rc_policy r))"
      "length (bf_chunks fr) \<le> unat (tp_max_transfer_chunks (rc_policy r))"
    and msg: "Option.bind (json_from_str X s) validate_message = Some msg"
  shows "run_steps (receiver_step X) r (deliver clock (received_frames accepted token fr)) =
    (r, replicate (length (received_frames accepted token fr) - 1) (FrameOut (Ok None)) @
        [FrameOut (Ok (Some msg))])"
proof -
  define b where "b = first_slot (so_needs_accept_handshake opts)"
  from fr obtain cs where split: "split_string_by_byte_size s (so_chunk_size_bytes opts) = Ok cs"
    and st: "bf_start fr = into_progress_notification
       (Start Render (sha256_digest X s) (of_nat (length s)) (of_nat (length cs)))
       token START_PROGRESS (Some ''starting oversized transfer'')"
    and ch: "bf_chunks fr = chunk_frames token (of_nat b) cs"
    and en: "bf_end fr = into_progress_notification End token (of_nat (b + length cs))
       (Some ''oversized transfer complete'')"
    unfolding token(1) b_def by (rule build_frames)
  have cs: "concat cs = s" using split by (rule split_concat)
  have "length cs \<le> length s"
    using length_le_concat [of cs] split_chunk_bounds [OF split] cs by blast
  with s(2) have n: "length cs + 4 < 2 ^ 64" by simp
  have ne: "cs \<noteq> []" using cs s(1) by auto
  have lay': "layout accepted b" using lay by (auto simp: layout_def b_def first_slot_def)
  let ?m = "mid accepted b (sha256_digest X s) (of_nat (length s)) (length cs)
    (clock (bf_start fr))"
  have lim: "of_nat (length s) \<le> tp_max_transfer_bytes (rc_policy r)"
    "of_nat (length cs) \<le> tp_max_transfer_chunks (rc_policy r)"
    using pol s(2) n ch by (simp_all add: word_le_nat_alt unat_of_nat_u64)
  note op = open_run [OF token(2) lay' free(1) lim free(2) st, of clock]
  let ?r1 = "put_transfer r token (?m [])"
  have run_chunks: "run_steps (receiver_step X) ?r1 (deliver clock (bf_chunks fr)) =
      (put_transfer r token (?m cs), replicate (length cs) (FrameOut (Ok None)))"
    using mid_chunks_run [OF lay' n token(2), of "[]" cs ?r1 "sha256_digest X s"
      "of_nat (length s)" "clock (bf_start fr)" X clock]
    by (simp add: ch put_twice)
  have pos: "0 < (of_nat (b + length cs) :: u64)"
    using n lay' of_nat_u64_less [of 0 "b + length cs"] by (auto simp: layout_def)
  have "handle_end X (put_transfer r token (?m cs)) token (of_nat (b + length cs)) =
      (drop_transfer (put_transfer r token (?m cs)) token, Ok (Some msg))"
    by (rule mid_end [OF lay' n ne]) (use cs pol msg in simp_all)
  then have run_end: "run_steps (receiver_step X) (put_transfer r token (?m cs))
      (deliver clock [bf_end fr]) = (r, [FrameOut (Ok (Some msg))])"
    using step_into [OF token(2) pos]
    by (simp add: deliver_def en drop_put [OF free(1)] del: receiver_step.simps of_nat_add)
  have "deliver clock (received_frames accepted token fr) =
      deliver clock ([bf_start fr] @ (if accepted then [accept_frame token] else [])) @
      deliver clock (bf_chunks fr) @ deliver clock [bf_end fr]"
    by (simp add: deliver_def received_frames_def)
  then show ?thesis
    using op run_chunks run_end
    by (cases accepted)
       (simp_all add: run_steps_append received_frames_def ch numeral_2_eq_2 del: run_steps.simps)
qed

section \<open>Order of chunks\<close>

text \<open>What the end of a transfer depends on: everything but the order in which the chunks are
  stored and the bookkeeping of the frontier.\<close>

definition same_content :: "active_transfer \<Rightarrow> active_transfer \<Rightarrow> bool" where
  "same_content t u \<longleftrightarrow>
     at_digest t = at_digest u \<and> at_total_bytes t = at_total_bytes u \<and>
     at_total_chunks t = at_total_chunks u \<and> at_start_progress t = at_start_progress u \<and>
     at_highest_observed_progress t = at_highest_observed_progress u \<and>
     map_of (at_chunks t) = map_of (at_chunks u) \<and>
     keys_ok (at_chunks t) \<and> keys_ok (at_chunks u)"

lemma keys_ok_length: "keys_ok m \<Longrightarrow> length m = card (dom (map_of m))"
  by (simp add: keys_ok_def dom_map_of_conv_image_fst distinct_card flip: set_map)

lemma same_content_length:
  "same_content t u \<Longrightarrow> length (at_chunks t) = length (at_chunks u)"
  by (simp add: same_content_def keys_ok_length)

lemma assemble_from_cong:
  "map_of m = map_of m' \<Longrightarrow> assemble_from m first is = assemble_from m' first is"
  by (induction "is") (auto split: option.splits)

lemma same_content_assemble: "same_content t u \<Longrightarrow> assemble t = assemble u"
  using assemble_from_cong [of "at_chunks t" "at_chunks u"]
  by (simp add: same_content_def assemble_def assembly_first_chunk_progress_def
      has_complete_chunk_range_def contains_key_def Let_def split: option.splits)

lemma handle_end_same:
  assumes "map_of (rc_transfers r) token = Some t" and "map_of (rc_transfers r') token = Some u"
    and "same_content t u" and "rc_policy r = rc_policy r'"
  shows "snd (handle_end X r token k) = snd (handle_end X r' token k)"
proof -
  have fields: "at_digest t = at_digest u" "at_total_bytes t = at_total_bytes u"
    "at_total_chunks t = at_total_chunks u"
    "at_highest_observed_progress t = at_highest_observed_progress u"
    using assms(3) by (simp_all add: same_content_def)
  have len: "length (at_chunks t) = length (at_chunks u)"
    using assms(3) by (rule same_content_length)
  then have empty: "(at_chunks t = []) = (at_chunks u = [])" by (metis length_0_conv)
  show ?thesis
    unfolding handle_end_def assms(1,2,4) option.case snd_conv
    by (simp only: fields len empty same_content_assemble [OF assms(3)])
qed

definition feed_chunks ::
  "receiver \<Rightarrow> string \<Rightarrow> (u64 \<times> string) list \<Rightarrow>
   receiver \<times> (oversized_error, json_rpc_message option) result list" where
  "feed_chunks r token es = run_steps (\<lambda>r (k, d). handle_chunk r token k d) r es"

lemma feed_chunks_Cons:
  "feed_chunks r token ((k, d) # es) =
     (fst (feed_chunks (fst (handle_chunk r token k d)) token es),
      snd (handle_chunk r token k d) # snd (feed_chunks (fst (handle_chunk r token k d)) token es))"
  by (simp add: feed_chunks_def split_beta Let_def)

text \<open>The content a list of accepted chunks leaves behind.\<close>

definition holds_chunks ::
  "active_transfer \<Rightarrow> (u64 \<times> string) list \<Rightarrow> active_transfer \<Rightarrow> bool" where
  "holds_chunks t es u \<longleftrightarrow>
     at_digest u = at_digest t \<and> at_total_bytes u = at_total_bytes t \<and>
     at_total_chunks u = at_total_chunks t \<and> at_start_progress u = at_start_progress t \<and>
     keys_ok (at_chunks u) \<and>
     set (at_chunks u) = set (at_chunks t) \<union> set es \<and>
     at_highest_observed_progress u =
       Max (insert (at_highest_observed_progress t) (fst ` set es))"

lemma set_update_fresh:
  "map_of m k = None \<Longrightarrow> set (AList.update k v m) = insert (k, v) (set m)"
  by (simp add: update_new contains_key_def)

lemma Max_insert_snoc:
  "finite A \<Longrightarrow> Max (insert (max h k) A) = Max (insert h (insert k A))" for h k :: "'a :: linorder"
  by (cases "A = {}") (simp_all add: max.assoc)

lemma feed_chunks_content:
  assumes "receiver_inv r" and "map_of (rc_transfers r) token = Some t"
    and "feed_chunks r token es = (r', outs)" and "set outs \<subseteq> {Ok None}"
  shows "\<exists>u. map_of (rc_transfers r') token = Some u \<and> holds_chunks t es u \<and>
    rc_policy r' = rc_policy r"
  using assms
proof (induction es arbitrary: r t outs)
  case Nil
  then have "keys_ok (at_chunks t)" by (auto simp: transfer_inv_def dest!: receiver_inv_lookup)
  with Nil show ?case by (simp add: feed_chunks_def holds_chunks_def)
next
  case (Cons e es)
  obtain k d where e: "e = (k, d)" by (cases e)
  let ?r1 = "fst (handle_chunk r token k d)"
  define outs' where "outs' = snd (feed_chunks ?r1 token es)"
  have rest: "feed_chunks ?r1 token es = (r', outs')"
    and outs: "outs = snd (handle_chunk r token k d) # outs'"
    using Cons.prems(3) unfolding e feed_chunks_Cons outs'_def by (metis prod.collapse prod.inject)+
  have okd: "snd (handle_chunk r token k d) = Ok None" "set outs' \<subseteq> {Ok None}"
    using Cons.prems(4) outs by auto
  have inv1: "receiver_inv ?r1" using chunk_h.keeps_inv [OF Cons.prems(1), of token "(k, d)"] by simp
  have pol1: "rc_policy ?r1 = rc_policy r" using chunk_h.keeps_policy [of r token "(k, d)"] by simp
  have tinv: "transfer_inv (rc_policy r) t" using Cons.prems(1,2) by (rule receiver_inv_lookup)
  show ?case
  proof (cases rule: handle_chunk_cases [of r token k d])
    case (duplicate u)
    from duplicate(1) Cons.prems(2) have u: "u = t" by simp
    have kd: "(k, d) \<in> set (at_chunks t)" using duplicate(2) u by (auto dest: map_of_SomeD)
    then have le: "k \<le> at_highest_observed_progress t"
      using tinv unfolding transfer_inv_def list_all_iff slot_ok_def by blast
    from duplicate(3) rest have "feed_chunks r token es = (r', outs')" by simp
    from Cons.IH [OF Cons.prems(1,2) this okd(2)] obtain w where
      w: "map_of (rc_transfers r') token = Some w" "holds_chunks t es w" "rc_policy r' = rc_policy r"
      by blast
    have "Max (insert (at_highest_observed_progress t) (fst ` set es)) =
        Max (insert (at_highest_observed_progress t) (insert k (fst ` set es)))"
      using Max_insert_snoc [of "fst ` set es" "at_highest_observed_progress t" k] le
      by (simp add: max_absorb1)
    with w kd e show ?thesis by (auto simp: holds_chunks_def)
  next
    case (stored u)
    from stored(1) Cons.prems(2) have u: "u = t" by simp
    let ?t1 = "store_chunk t k d"
    have m1: "map_of (rc_transfers ?r1) token = Some ?t1" using stored(4) u by simp
    from Cons.IH [OF inv1 m1 rest okd(2)] obtain w where
      w: "map_of (rc_transfers r') token = Some w" "holds_chunks ?t1 es w"
      "rc_policy r' = rc_policy ?r1"
      by blast
    have "holds_chunks t (e # es) w"
      using w(2) set_update_fresh [of "at_chunks t" k d] stored(3) u e
        Max_insert_snoc [of "fst ` set es" "at_highest_observed_progress t" k]
      by (auto simp: holds_chunks_def)
    with w pol1 show ?thesis by auto
  qed (use okd Cons.prems(2) in auto)
qed

lemma holds_chunks_same:
  assumes "holds_chunks t es u" and "holds_chunks t fs w" and "set es = set fs"
  shows "same_content u w"
proof -
  have "map_of (at_chunks u) = map_of (at_chunks w)"
    using assms by (intro map_of_inject_set [THEN iffD2])
      (auto simp: holds_chunks_def keys_ok_def)
  with assms show ?thesis by (simp add: holds_chunks_def same_content_def)
qed

section \<open>Delivery properties\<close>

text \<open>C1. Round trip of oversized transfer. For every JSON-RPC message whose serialization the
  parser reads back, the frames \<open>build_oversized_frames\<close> makes of that serialization,
  delivered in order to a receiver with a free slot and limits that admit them, give \<open>Ok(None)\<close>
  for every frame but the last and exactly the original message for the \<open>end\<close> frame, and leave
  the receiver as it was. This holds with and without the accept handshake, and also when the
  receiver recorded an accept for which the sender did not reserve a slot.\<close>

theorem oversized_roundtrip:
  assumes "encodable m" and "json_to_string X (message_to_value m) = s"
    and "json_from_str X s = Some (message_to_value m)"
    and "s \<noteq> []" and "length s < 2 ^ 63"
    and "build_oversized_frames X s opts = Ok fr"
    and "so_progress_token opts = token" and "token \<noteq> []"
    and "so_needs_accept_handshake opts \<longrightarrow> accepted"
    and "\<not> is_tracking r token"
    and "active_transfer_count r < tp_max_concurrent_transfers (rc_policy r)"
    and "length s \<le> unat (tp_max_transfer_bytes (rc_policy r))"
    and "length (bf_chunks fr) \<le> unat (tp_max_transfer_chunks (rc_policy r))"
  shows "run_steps (receiver_step X) r (deliver clock (received_frames accepted token fr)) =
    (r, replicate (length (received_frames accepted token fr) - 1) (FrameOut (Ok None)) @
        [FrameOut (Ok (Some m))])"
  by (rule delivery [OF assms(6) assms(7)[symmetric] assms(8,9,4,5,10-13)])
     (simp add: assms(3) validate_message_encode [OF assms(1)])

section \<open>A concrete transfer\<close>

text \<open>Third-party functions under which one payload parses, and its two-chunk transfer.\<close>

definition sample_message :: json_rpc_message where
  "sample_message =
     Response \<lparr>rsp_jsonrpc = ''2.0'', rsp_id = JNumber (PosInt 1), rsp_result = JNull\<rparr>"

definition sample_ext :: ext where
  "sample_ext =
     \<lparr>sha256_hex = (\<lambda>s. s), json_from_str = (\<lambda>s. Some (message_to_value sample_message)),
      json_to_string = (\<lambda>v. ''abc''), f64_to_string = (\<lambda>f. []), json_canon = (\<lambda>v. None)\<rparr>"

definition sample_options :: sender_options where
  "sample_options =
     \<lparr>so_progress_token = ''t'', so_chunk_size_bytes = 2, so_needs_accept_handshake = False\<rparr>"

definition sample_frames :: built_frames where
  "sample_frames =
     \<lparr>bf_start = into_progress_notification (Start Render (sha256_digest sample_ext ''abc'') 3 2)
        ''t'' START_PROGRESS (Some ''starting oversized transfer''),
      bf_chunks = chunk_frames ''t'' 2 [''ab'', ''c''],
      bf_end = into_progress_notification End ''t'' 4 (Some ''oversized transfer complete'')\<rparr>"

definition sample_receiver :: receiver where
  "sample_receiver = with_policy default_transfer_policy"

lemma sample_build: "build_oversized_frames sample_ext ''abc'' sample_options = Ok sample_frames"
proof -
  have "split_string_by_byte_size ''abc'' 2 = Ok [''ab'', ''c'']" by code_simp
  then show ?thesis
    by (simp add: build_oversized_frames_def sample_options_def sample_frames_def Let_def
        ACCEPT_PROGRESS_def)
qed

lemma sample_facts:
  "encodable sample_message" "json_to_string sample_ext (message_to_value sample_message) = ''abc''"
  "json_from_str sample_ext ''abc'' = Some (message_to_value sample_message)"
  "so_progress_token sample_options = ''t''" "\<not> so_needs_accept_handshake sample_options"
  "\<not> is_tracking sample_receiver ''t''" "active_transfer_count sample_receiver = 0"
  "rc_policy sample_receiver = default_transfer_policy"
  "tp_max_concurrent_transfers default_transfer_policy = 64"
  "unat (tp_max_transfer_bytes default_transfer_policy) = 104857600"
  "unat (tp_max_transfer_chunks default_transfer_policy) = 10000"
  "length (bf_chunks sample_frames) = 2"
  by (simp_all add: sample_message_def sample_ext_def sample_options_def sample_receiver_def
      with_policy_def is_tracking_def contains_key_def active_transfer_count_def
      default_transfer_policy_def sample_frames_def)

lemma sample_run:
  "run_steps (receiver_step sample_ext) sample_receiver
     (deliver clock (received_frames False ''t'' sample_frames)) =
   (sample_receiver, replicate 3 (FrameOut (Ok None)) @ [FrameOut (Ok (Some sample_message))])"
proof -
  have "length (received_frames False ''t'' sample_frames) = 4"
    by (simp add: received_frames_def sample_facts)
  moreover have "Option.bind (json_from_str sample_ext ''abc'') validate_message =
      Some sample_message"
    by (simp add: sample_facts validate_message_encode)
  ultimately show ?thesis
    using delivery [OF sample_build, of "''t''" False sample_receiver sample_message clock]
    by (simp add: sample_facts)
qed

text \<open>The state before the last frame, and what the last frame does there.\<close>

definition sample_history :: "receiver_event list" where
  "sample_history =
     deliver (\<lambda>f. 0) (butlast (received_frames False ''t'' sample_frames))"

definition sample_before_end :: receiver where
  "sample_before_end = fst (run_steps (receiver_step sample_ext) sample_receiver sample_history)"

lemma sample_last:
  "receiver_process_frame sample_ext sample_before_end 0 (bf_end sample_frames) =
     (sample_receiver, Ok (Some sample_message))"
proof -
  have "deliver (\<lambda>f. 0) (received_frames False ''t'' sample_frames) =
      sample_history @ [FrameIn 0 (bf_end sample_frames)]"
    by (simp add: sample_history_def deliver_def received_frames_def butlast_append)
  with sample_run [of "\<lambda>f. 0"] show ?thesis
    by (auto simp: run_steps_append sample_before_end_def split_beta Let_def prod_eq_iff)
qed

lemma sample_end_frame:
  "frame_of_notification sample_ext (bf_end sample_frames) = Some (''t'', 4, End)"
proof -
  have "(0 :: u64) < 4" by (simp add: word_less_nat_alt)
  then show ?thesis by (simp add: sample_frames_def)
qed

theorem oversized_roundtrip_witness:
  "run_steps (receiver_step sample_ext) sample_receiver
     (deliver (\<lambda>f. 7) (received_frames True ''t'' sample_frames)) =
   (sample_receiver, replicate 4 (FrameOut (Ok None)) @ [FrameOut (Ok (Some sample_message))])"
proof -
  have "length (received_frames True ''t'' sample_frames) = 5"
    by (simp add: received_frames_def sample_facts)
  then show ?thesis
    using oversized_roundtrip [OF sample_facts(1-3) _ _ sample_build sample_facts(4),
      of True sample_receiver "\<lambda>f. 7"]
    by (simp add: sample_facts)
qed

theorem receiver_integrity_witness:
  "\<exists>token k start cm digest total_bytes total_chunks first ds.
     frame_of_notification sample_ext (bf_end sample_frames) = Some (token, k, End) \<and>
     heard sample_ext sample_history token start (Start cm digest total_bytes total_chunks) \<and>
     (first = start + 1 \<or> first = start + 2) \<and>
     length ds = unat total_chunks \<and>
     (\<forall>i<length ds. heard sample_ext sample_history token (first + of_nat i) (Chunk (ds ! i))) \<and>
     length (concat ds) \<le> unat (tp_max_transfer_bytes default_transfer_policy) \<and>
     of_nat (length (concat ds)) = total_bytes \<and>
     sha256_digest sample_ext (concat ds) = digest \<and>
     Option.bind (json_from_str sample_ext (concat ds)) validate_message = Some sample_message \<and>
     \<not> is_tracking sample_receiver token"
proof (rule receiver_integrity [OF _ sample_last])
  show "reaches sample_ext default_transfer_policy sample_history sample_before_end"
    unfolding sample_before_end_def sample_receiver_def by (rule reaches_run)
qed


theorem frame_isolation_cleanup_witness: "\<not> is_tracking sample_receiver ''t''"
  using frame_isolation_cleanup [OF sample_end_frame sample_last] by simp

text \<open>A receiver that has just admitted the transfer.\<close>

definition sample_tracked :: receiver where
  "sample_tracked =
     put_transfer sample_receiver ''t'' (mid False 2 (sha256_digest sample_ext ''abc'') 3 2 0 [])"

lemma sample_tracked_inv: "receiver_inv sample_tracked"
proof -
  have "fst (handle_start sample_receiver 0 ''t'' START_PROGRESS (sha256_digest sample_ext ''abc'') 3
      (of_nat 2)) = sample_tracked"
    unfolding sample_tracked_def
    by (subst handle_start_fresh) (simp_all add: sample_facts word_le_nat_alt)
  moreover have "receiver_inv sample_receiver"
    by (simp add: sample_receiver_def with_policy_def receiver_inv_def)
  ultimately show ?thesis by (metis handle_start_inv)
qed

lemma sample_tracked_lookup:
  "map_of (rc_transfers sample_tracked) ''t'' =
     Some (mid False 2 (sha256_digest sample_ext ''abc'') 3 2 0 [])"
  by (simp add: sample_tracked_def)

theorem remove_expired_exact_witness:
  "''t'' \<in> set (snd (remove_expired sample_tracked 300000000001)) \<and>
   map_of (rc_transfers (fst (remove_expired sample_tracked 300000000001))) ''t'' = None"
proof -
  have "unat (tp_transfer_timeout_ms (rc_policy sample_tracked)) = 300000"
    by (simp add: sample_tracked_def sample_facts default_transfer_policy_def)
  moreover have "tp_transfer_timeout_ms (rc_policy sample_tracked) \<noteq> 0"
    by (simp add: sample_tracked_def sample_facts default_transfer_policy_def)
  moreover have "at_admitted_at (mid False 2 (sha256_digest sample_ext ''abc'') 3 2 0 []) = 0"
    by (simp add: mid_def)
  ultimately show ?thesis
    using remove_expired_exact [OF sample_tracked_inv surjective_pairing,
      of "300000000001" "''t''"]
    by (simp add: sample_tracked_lookup)
qed

text \<open>C25. The order of chunks does not matter. Take a receiver with its invariant and a
  tracked transfer. If two sequences contain the same chunks, in any order and with any
  repetition, and the receiver accepts every frame of both, then the \<open>end\<close> frame has the same
  outcome after either.\<close>

theorem chunk_order_irrelevant:
  assumes "receiver_inv r" and "map_of (rc_transfers r) token = Some t"
    and "set es = set fs"
    and "feed_chunks r token es = (r1, outs1)" and "set outs1 \<subseteq> {Ok None}"
    and "feed_chunks r token fs = (r2, outs2)" and "set outs2 \<subseteq> {Ok None}"
  shows "snd (handle_end X r1 token k) = snd (handle_end X r2 token k)"
proof -
  from feed_chunks_content [OF assms(1,2,4,5)] obtain u where
    u: "map_of (rc_transfers r1) token = Some u" "holds_chunks t es u" "rc_policy r1 = rc_policy r"
    by blast
  from feed_chunks_content [OF assms(1,2,6,7)] obtain w where
    w: "map_of (rc_transfers r2) token = Some w" "holds_chunks t fs w" "rc_policy r2 = rc_policy r"
    by blast
  from u(2) w(2) assms(3) have "same_content u w" by (rule holds_chunks_same)
  with u w show ?thesis by (intro handle_end_same) simp_all
qed

lemmas sample_eval = handle_chunk_def Let_def next_expected_chunk_progress_def
  refresh_chunk_progress_state_def buffered_out_of_order_count_def first_chunk_slot_def
  contains_key_def mid_def first_slot_def START_PROGRESS_def sample_tracked_def sample_facts
  default_transfer_policy_def word_less_nat_alt

lemma sample_orders:
  "set (snd (feed_chunks sample_tracked ''t'' [(2, ''ab''), (3, ''c'')])) \<subseteq> {Ok None}"
  "set (snd (feed_chunks sample_tracked ''t'' [(3, ''c''), (2, ''ab'')])) \<subseteq> {Ok None}"
  by (simp_all add: feed_chunks_def sample_eval)

theorem chunk_order_irrelevant_witness:
  "snd (handle_end sample_ext
     (fst (feed_chunks sample_tracked ''t'' [(2, ''ab''), (3, ''c'')])) ''t'' 4) =
   snd (handle_end sample_ext
     (fst (feed_chunks sample_tracked ''t'' [(3, ''c''), (2, ''ab'')])) ''t'' 4)"
  by (rule chunk_order_irrelevant [OF sample_tracked_inv sample_tracked_lookup _
        surjective_pairing sample_orders(1) surjective_pairing sample_orders(2)])
     (simp only: list.set insert_commute)

end
