(* ===== verification/Open_Stream_Session.thy ===== *)
theory Open_Stream_Session
  imports Oversized_Codec
begin

text \<open>
  CEP-41 open streams, reader side: the frames of \<open>src/transport/open_stream/frame.rs\<close> and the
  reader session of \<open>session.rs\<close>. A session is a record; the mutex of the code makes every method
  one atomic step, so a method is a function from the old state to the new state and its result.
  A method that fails keeps the changes it made before the error. The wakers are kept as
  state: whether a consumer is parked, and how many \<open>closed()\<close> futures are.
\<close>

section \<open>Frames\<close>

definition OPEN_STREAM_TYPE :: string where "OPEN_STREAM_TYPE = ''open-stream''"
definition MAX_OPEN_STREAM_PING_NONCE_BYTES :: nat where "MAX_OPEN_STREAM_PING_NONCE_BYTES = 64"

datatype open_stream_error =
    OsAbortError string "string option"
  | OsPolicy string
  | OsSequence string

datatype open_stream_frame =
    OsStart "string option"
  | OsAccept
  | OsChunk u64 string
  | OsPing string
  | OsPong string
  | OsClose "u64 option"
  | OsAbort "string option"

fun os_frame_type :: "open_stream_frame \<Rightarrow> string" where
  "os_frame_type (OsStart ct) = ''start''"
| "os_frame_type OsAccept = ''accept''"
| "os_frame_type (OsChunk i d) = ''chunk''"
| "os_frame_type (OsPing n) = ''ping''"
| "os_frame_type (OsPong n) = ''pong''"
| "os_frame_type (OsClose l) = ''close''"
| "os_frame_type (OsAbort r) = ''abort''"

fun os_frame_fields :: "open_stream_frame \<Rightarrow> (string \<times> json) list" where
  "os_frame_fields (OsStart content_type) = opt_entry ''contentType'' JString content_type"
| "os_frame_fields OsAccept = []"
| "os_frame_fields (OsChunk chunk_index data) =
     [(''chunkIndex'', JNumber (PosInt chunk_index)), (''data'', JString data)]"
| "os_frame_fields (OsPing nonce) = [(''nonce'', JString nonce)]"
| "os_frame_fields (OsPong nonce) = [(''nonce'', JString nonce)]"
| "os_frame_fields (OsClose last_chunk_index) =
     opt_entry ''lastChunkIndex'' (\<lambda>i. JNumber (PosInt i)) last_chunk_index"
| "os_frame_fields (OsAbort reason) = opt_entry ''reason'' JString reason"

definition os_to_cvm_value :: "open_stream_frame \<Rightarrow> json" where
  "os_to_cvm_value f = JObject
     (AList.update ''type'' (JString OPEN_STREAM_TYPE)
       ((''frameType'', JString (os_frame_type f)) # os_frame_fields f))"

definition os_frame_of_value :: "json \<Rightarrow> open_stream_frame option" where
  "os_frame_of_value v =
     (case req_str v ''frameType'' of
        None \<Rightarrow> None
      | Some ft \<Rightarrow>
          if ft = ''start'' then map_option OsStart (opt_field json_as_str v ''contentType'')
          else if ft = ''accept'' then Some OsAccept
          else if ft = ''chunk'' then
            (case (req_u64 v ''chunkIndex'', req_str v ''data'') of
               (Some i, Some d) \<Rightarrow> Some (OsChunk i d) | _ \<Rightarrow> None)
          else if ft = ''ping'' then map_option OsPing (req_str v ''nonce'')
          else if ft = ''pong'' then map_option OsPong (req_str v ''nonce'')
          else if ft = ''close'' then map_option OsClose (opt_field json_as_u64 v ''lastChunkIndex'')
          else if ft = ''abort'' then map_option OsAbort (opt_field json_as_str v ''reason'')
          else None)"

definition os_from_cvm_value :: "json \<Rightarrow> open_stream_frame option" where
  "os_from_cvm_value v =
     (if Option.bind (json_get v ''type'') json_as_str \<noteq> Some OPEN_STREAM_TYPE
      then None else os_frame_of_value v)"

definition os_is_frame_value :: "json \<Rightarrow> bool" where
  "os_is_frame_value v \<longleftrightarrow>
     Option.bind (json_get v ''type'') json_as_str = Some OPEN_STREAM_TYPE \<and>
     Option.bind (json_get v ''frameType'') json_as_str \<noteq> None"

definition os_into_progress_notification ::
  "open_stream_frame \<Rightarrow> string \<Rightarrow> u64 \<Rightarrow> string option \<Rightarrow> json_rpc_notification" where
  "os_into_progress_notification f progress_token progress message =
     \<lparr>ntf_jsonrpc = ''2.0'', ntf_method = NOTIFICATIONS_PROGRESS_METHOD,
      ntf_params = Some (JObject
        ([(''progressToken'', JString progress_token),
          (''progress'', JNumber (PosInt progress))] @
         opt_entry ''message'' JString message @
         [(''cvm'', os_to_cvm_value f)]))\<rparr>"

definition open_stream_frame_from_notification ::
  "json_rpc_notification \<Rightarrow> open_stream_frame option" where
  "open_stream_frame_from_notification n =
     Option.bind (notification_param n ''cvm'') os_from_cvm_value"

section \<open>Session state\<close>

datatype frame_outcome =
    OutNone
  | SendPong string
  | OutClosed
  | OutAborted "string option"

datatype keepalive_action =
    KaNone
  | SendPing string
  | KaAbort string

record session_options =
  sop_progress_token :: string
  sop_max_buffered_chunks :: nat
  sop_max_buffered_bytes :: u64
  sop_idle_timeout_ms :: u64
  sop_probe_timeout_ms :: u64
  sop_close_grace_period_ms :: u64
  sop_has_publisher :: bool

record session =
  ss_progress_token :: string
  ss_max_buffered_chunks :: nat
  ss_max_buffered_bytes :: u64
  ss_idle_timeout :: duration
  ss_probe_timeout :: duration
  ss_close_grace_period :: duration
  ss_queue :: "string list"
  ss_buffered :: "(u64, string) hash_map"
  ss_buffered_bytes :: u64
  ss_queued_bytes :: u64
  ss_next_expected_chunk :: u64
  ss_last_progress :: int
  ss_started :: bool
  ss_active :: bool
  ss_closed_remotely :: bool
  ss_expected_last_chunk_index :: "u64 option"
  ss_terminal :: "open_stream_error option"
  ss_waker :: bool
  ss_closed_wakers :: nat
  ss_last_activity :: instant
  ss_pending_probe_nonce :: "string option"
  ss_control_nonce :: u64
  ss_probe_deadline :: "instant option"
  ss_close_grace_deadline :: "instant option"
  ss_outbound_progress :: u64
  ss_has_publisher :: bool

definition session_new :: "session_options \<Rightarrow> instant \<Rightarrow> session" where
  "session_new options now =
     \<lparr>ss_progress_token = sop_progress_token options,
      ss_max_buffered_chunks = sop_max_buffered_chunks options,
      ss_max_buffered_bytes = sop_max_buffered_bytes options,
      ss_idle_timeout = from_millis (sop_idle_timeout_ms options),
      ss_probe_timeout = from_millis (sop_probe_timeout_ms options),
      ss_close_grace_period = from_millis (sop_close_grace_period_ms options),
      ss_queue = [], ss_buffered = [], ss_buffered_bytes = 0, ss_queued_bytes = 0,
      ss_next_expected_chunk = 0, ss_last_progress = - 1, ss_started = False,
      ss_active = True, ss_closed_remotely = False, ss_expected_last_chunk_index = None,
      ss_terminal = None, ss_waker = False, ss_closed_wakers = 0, ss_last_activity = now,
      ss_pending_probe_nonce = None, ss_control_nonce = 0, ss_probe_deadline = None,
      ss_close_grace_deadline = None, ss_outbound_progress = 0,
      ss_has_publisher = sop_has_publisher options\<rparr>"

section \<open>Session operations\<close>

definition wake_stream :: "session \<Rightarrow> session" where
  "wake_stream s = s\<lparr>ss_waker := False\<rparr>"

definition finalize :: "open_stream_error option \<Rightarrow> session \<Rightarrow> session" where
  "finalize error s =
     (if \<not> ss_active s then s
      else wake_stream
        (s\<lparr>ss_active := False, ss_terminal := error, ss_pending_probe_nonce := None,
           ss_probe_deadline := None, ss_close_grace_deadline := None, ss_closed_wakers := 0\<rparr>))"

definition assert_active :: "session \<Rightarrow> (open_stream_error, unit) result" where
  "assert_active s =
     (if \<not> ss_active s then
        Err (OsSequence (''Received frame for inactive stream '' @ ss_progress_token s))
      else Ok ())"

definition assert_started :: "session \<Rightarrow> (open_stream_error, unit) result" where
  "assert_started s =
     (if \<not> ss_started s then
        Err (OsSequence (''Received non-start frame before start for '' @ ss_progress_token s))
      else Ok ())"

definition assert_progress ::
  "session \<Rightarrow> int \<Rightarrow> session \<times> (open_stream_error, unit) result" where
  "assert_progress s progress =
     (if progress \<le> ss_last_progress s then
        (s, Err (OsSequence (''Non-increasing progress for stream '' @ ss_progress_token s)))
      else (s\<lparr>ss_last_progress := progress\<rparr>, Ok ()))"

definition buffer_chunk ::
  "session \<Rightarrow> u64 \<Rightarrow> string \<Rightarrow> session \<times> (open_stream_error, unit) result" where
  "buffer_chunk s chunk_index data =
     (if chunk_index < ss_next_expected_chunk s then
        (s, Err (OsSequence (''Stale chunkIndex '' @ dec_u64 chunk_index @ '' for '' @
               ss_progress_token s)))
      else if contains_key (ss_buffered s) chunk_index then
        (s, Err (OsSequence (''Duplicate chunkIndex '' @ dec_u64 chunk_index @ '' for '' @
               ss_progress_token s)))
      else
        let chunk_bytes = of_nat (length data) in
        if length (ss_buffered s) + length (ss_queue s) \<ge> ss_max_buffered_chunks s then
          (s, Err (OsSequence (''Buffered chunk limit exceeded for stream '' @
                 ss_progress_token s)))
        else if ss_buffered_bytes s + ss_queued_bytes s + chunk_bytes > ss_max_buffered_bytes s then
          (s, Err (OsSequence (''Buffered byte limit exceeded for stream '' @
                 ss_progress_token s)))
        else
          (s\<lparr>ss_buffered := AList.update chunk_index data (ss_buffered s),
             ss_buffered_bytes := ss_buffered_bytes s + chunk_bytes\<rparr>, Ok ()))"

definition emit :: "session \<Rightarrow> string \<Rightarrow> session" where
  "emit s data =
     wake_stream (s\<lparr>ss_queued_bytes := ss_queued_bytes s + of_nat (length data),
                    ss_queue := ss_queue s @ [data]\<rparr>)"

text \<open>The \<open>while let Some(data) = buffered.remove(&next)\<close> loop. Every turn removes a buffered
  chunk.\<close>

definition flush_one :: "session \<Rightarrow> string \<Rightarrow> session" where
  "flush_one s data =
     (let s1 = s\<lparr>ss_buffered := AList.delete (ss_next_expected_chunk s) (ss_buffered s),
                 ss_buffered_bytes :=
                   saturating_sub_u64 (ss_buffered_bytes s) (of_nat (length data))\<rparr>;
          s2 = emit s1 data in
      s2\<lparr>ss_next_expected_chunk := ss_next_expected_chunk s2 + 1\<rparr>)"

lemma flush_one_buffered [simp]:
  "ss_buffered (flush_one s data) = AList.delete (ss_next_expected_chunk s) (ss_buffered s)"
  by (simp add: flush_one_def emit_def wake_stream_def Let_def)

function flush_loop :: "session \<Rightarrow> session" where
  "flush_loop s =
     (case map_of (ss_buffered s) (ss_next_expected_chunk s) of
        None \<Rightarrow> s
      | Some data \<Rightarrow> flush_loop (flush_one s data))"
  by pat_completeness auto
termination
  by (relation "measure (\<lambda>s. length (ss_buffered s))")
     (auto simp: contains_key_def intro: length_delete_present)

declare flush_loop.simps [simp del]

definition maybe_finish_gracefully ::
  "session \<Rightarrow> session \<times> (open_stream_error, bool) result" where
  "maybe_finish_gracefully s =
     (if \<not> ss_closed_remotely s \<or> ss_buffered s \<noteq> [] then (s, Ok False)
      else
        (case ss_expected_last_chunk_index s of
           Some expected \<Rightarrow>
             if ss_next_expected_chunk s \<noteq> expected + 1 then
               (s, Err (OsSequence (''Incomplete stream for '' @ ss_progress_token s @
                      '': expected chunks through '' @ dec_u64 expected)))
             else (finalize None s, Ok True)
         | None \<Rightarrow> (finalize None s, Ok True)))"

definition flush_contiguous_chunks ::
  "session \<Rightarrow> session \<times> (open_stream_error, bool) result" where
  "flush_contiguous_chunks s =
     (let s' = flush_loop s in
      if ss_closed_remotely s' then maybe_finish_gracefully s' else (s', Ok False))"

definition handle_pong :: "session \<Rightarrow> string \<Rightarrow> session" where
  "handle_pong s nonce =
     (if ss_pending_probe_nonce s = Some nonce
      then s\<lparr>ss_pending_probe_nonce := None, ss_probe_deadline := None\<rparr> else s)"

definition next_control_nonce :: "session \<Rightarrow> session \<times> string" where
  "next_control_nonce s =
     (let s' = s\<lparr>ss_control_nonce := ss_control_nonce s + 1\<rparr> in
      (s', ss_progress_token s' @ '':'' @ dec_u64 (ss_control_nonce s')))"

definition session_tick :: "session \<Rightarrow> instant \<Rightarrow> session \<times> keepalive_action" where
  "session_tick s now =
     (if \<not> ss_active s then (s, KaNone)
      else if (case ss_probe_deadline s of
                 Some deadline \<Rightarrow> ss_pending_probe_nonce s \<noteq> None \<and> now \<ge> deadline
               | None \<Rightarrow> False) then
        (finalize (Some (OsAbortError (ss_progress_token s) (Some ''Probe timeout''))) s,
         KaAbort ''Probe timeout'')
      else if (case ss_close_grace_deadline s of
                 Some deadline \<Rightarrow> ss_closed_remotely s \<and> ss_buffered s \<noteq> [] \<and> now \<ge> deadline
               | None \<Rightarrow> False) then
        (finalize (Some (OsAbortError (ss_progress_token s) (Some ''Close grace period expired''))) s,
         KaAbort ''Close grace period expired'')
      else if ss_started s \<and> \<not> ss_closed_remotely s \<and> ss_pending_probe_nonce s = None \<and>
              duration_since now (ss_last_activity s) \<ge> ss_idle_timeout s then
        (let (s', nonce) = next_control_nonce s in
         (s'\<lparr>ss_pending_probe_nonce := Some nonce,
             ss_probe_deadline := Some (now + ss_probe_timeout s')\<rparr>, SendPing nonce))
      else (s, KaNone))"

text \<open>The match of \<open>process_frame\<close>, after activity and progress have been checked.\<close>

fun session_dispatch ::
  "session \<Rightarrow> instant \<Rightarrow> open_stream_frame \<Rightarrow>
   session \<times> (open_stream_error, frame_outcome) result" where
  "session_dispatch s now (OsStart ct) =
     (if ss_started s then
        (s, Err (OsSequence (''Duplicate start frame for stream '' @ ss_progress_token s)))
      else (s\<lparr>ss_started := True\<rparr>, Ok OutNone))"
| "session_dispatch s now OsAccept = (s, Ok OutNone)"
| "session_dispatch s now (OsPing nonce) =
     (case assert_started s of
        Err e \<Rightarrow> (s, Err e)
      | Ok _ \<Rightarrow>
          if length nonce > MAX_OPEN_STREAM_PING_NONCE_BYTES then
            (s, Err (OsSequence (''ping nonce exceeds '' @ dec MAX_OPEN_STREAM_PING_NONCE_BYTES @
                   ''-byte cap (got '' @ dec (length nonce) @ '' bytes)'')))
          else (s, Ok (SendPong nonce)))"
| "session_dispatch s now (OsPong nonce) =
     (case assert_started s of
        Err e \<Rightarrow> (s, Err e)
      | Ok _ \<Rightarrow> (handle_pong s nonce, Ok OutNone))"
| "session_dispatch s now (OsChunk chunk_index data) =
     (case assert_started s of
        Err e \<Rightarrow> (s, Err e)
      | Ok _ \<Rightarrow>
          (case buffer_chunk s chunk_index data of
             (s1, Err e) \<Rightarrow> (s1, Err e)
           | (s1, Ok _) \<Rightarrow>
               (case flush_contiguous_chunks s1 of
                  (s2, Err e) \<Rightarrow> (s2, Err e)
                | (s2, Ok finished) \<Rightarrow> (s2, Ok (if finished then OutClosed else OutNone)))))"
| "session_dispatch s now (OsClose last_chunk_index) =
     (case assert_started s of
        Err e \<Rightarrow> (s, Err e)
      | Ok _ \<Rightarrow>
          (case flush_contiguous_chunks
                  (s\<lparr>ss_closed_remotely := True,
                     ss_expected_last_chunk_index := last_chunk_index\<rparr>) of
             (s1, Err e) \<Rightarrow> (s1, Err e)
           | (s1, Ok finished) \<Rightarrow>
               if finished then (s1, Ok OutClosed)
               else (s1\<lparr>ss_close_grace_deadline := Some (now + ss_close_grace_period s1)\<rparr>,
                     Ok OutNone)))"
| "session_dispatch s now (OsAbort reason) =
     (finalize (Some (OsAbortError (ss_progress_token s) reason)) s, Ok (OutAborted reason))"

definition session_process_frame ::
  "session \<Rightarrow> instant \<Rightarrow> int \<Rightarrow> open_stream_frame \<Rightarrow>
   session \<times> (open_stream_error, frame_outcome) result" where
  "session_process_frame s now progress frame =
     (case assert_active s of
        Err e \<Rightarrow> (s, Err e)
      | Ok _ \<Rightarrow>
          (case assert_progress s progress of
             (s1, Err e) \<Rightarrow> (s1, Err e)
           | (s1, Ok _) \<Rightarrow> session_dispatch (s1\<lparr>ss_last_activity := now\<rparr>) now frame))"

definition session_fail :: "session \<Rightarrow> open_stream_error \<Rightarrow> session" where
  "session_fail s error = finalize (Some error) s"

definition session_dispose :: "session \<Rightarrow> session" where
  "session_dispose s = finalize None s"

text \<open>\<open>abort\<close>: the new state and the frame handed to the publisher, if any.\<close>

definition session_abort ::
  "session \<Rightarrow> string option \<Rightarrow> session \<times> json_rpc_notification option" where
  "session_abort s reason =
     (if \<not> ss_active s then (s, None)
      else
        let token = ss_progress_token s;
            s1 = finalize (Some (OsAbortError token reason)) s in
        if ss_has_publisher s1 then
          let s2 = s1\<lparr>ss_outbound_progress := ss_outbound_progress s1 + 1\<rparr> in
          (s2, Some (os_into_progress_notification (OsAbort reason) token
                 (ss_outbound_progress s2) None))
        else (s1, None))"

datatype 'a poll = Ready 'a | Pending

definition poll_next ::
  "session \<Rightarrow> session \<times> (open_stream_error, string) result option poll" where
  "poll_next s =
     (case ss_queue s of
        item # rest \<Rightarrow>
          (s\<lparr>ss_queue := rest,
             ss_queued_bytes := saturating_sub_u64 (ss_queued_bytes s) (of_nat (length item))\<rparr>,
           Ready (Some (Ok item)))
      | [] \<Rightarrow>
          if \<not> ss_active s then
            (case ss_terminal s of
               Some error \<Rightarrow> (s\<lparr>ss_terminal := None\<rparr>, Ready (Some (Err error)))
             | None \<Rightarrow> (s, Ready None))
          else (s\<lparr>ss_waker := True\<rparr>, Pending))"

definition poll_closed :: "session \<Rightarrow> session \<times> unit poll" where
  "poll_closed s =
     (if \<not> ss_active s then (s, Ready ())
      else (s\<lparr>ss_closed_wakers := ss_closed_wakers s + 1\<rparr>, Pending))"

section \<open>Frames: round trip\<close>

lemma os_from_to_cvm_value [simp]: "os_from_cvm_value (os_to_cvm_value f) = Some f"
  by (cases f)
     (auto simp: os_from_cvm_value_def os_to_cvm_value_def os_frame_of_value_def json_read_defs
       OPEN_STREAM_TYPE_def split: option.splits)

lemma os_into_progress_params [simp]:
  "notification_param (os_into_progress_notification f t p msg) ''cvm'' =
     Some (os_to_cvm_value f)"
  "notification_param (os_into_progress_notification f t p msg) ''progressToken'' =
     Some (JString t)"
  "notification_param (os_into_progress_notification f t p msg) ''progress'' =
     Some (JNumber (PosInt p))"
  by (auto simp: notification_param_def os_into_progress_notification_def opt_entry_def
      split: option.splits)

section \<open>Invariant\<close>

definition payload_bytes :: "string list \<Rightarrow> nat" where
  "payload_bytes ds = sum_list (map length ds)"

definition buffered_payload :: "session \<Rightarrow> nat" where
  "buffered_payload s = sum_list (map (\<lambda>(k, d). length d) (ss_buffered s))"

definition not_stale :: "session \<Rightarrow> u64 \<Rightarrow> bool" where
  "not_stale s k \<longleftrightarrow> ss_next_expected_chunk s \<le> k"

text \<open>The data plane: exact byte counters, the two limits, no stale buffered chunk.\<close>

definition data_inv :: "session \<Rightarrow> bool" where
  "data_inv s \<longleftrightarrow>
     keys_ok (ss_buffered s) \<and>
     unat (ss_buffered_bytes s) = buffered_payload s \<and>
     unat (ss_queued_bytes s) = payload_bytes (ss_queue s) \<and>
     length (ss_buffered s) + length (ss_queue s) \<le> ss_max_buffered_chunks s \<and>
     buffered_payload s + payload_bytes (ss_queue s) \<le> unat (ss_max_buffered_bytes s)"

text \<open>The control plane: a parked consumer has nothing to read and the stream is live; the probe
  has a deadline exactly while it is pending; a finished stream holds no timer.\<close>

definition control_inv :: "session \<Rightarrow> bool" where
  "control_inv s \<longleftrightarrow>
     (ss_waker s \<longrightarrow> ss_queue s = [] \<and> ss_active s) \<and>
     (ss_active s \<longrightarrow> ss_terminal s = None) \<and>
     (ss_pending_probe_nonce s = None \<longleftrightarrow> ss_probe_deadline s = None) \<and>
     (\<not> ss_active s \<longrightarrow> ss_pending_probe_nonce s = None \<and> ss_close_grace_deadline s = None \<and>
        ss_closed_wakers s = 0)"

text \<open>Every contiguous chunk has been moved to the queue.\<close>

definition flushed :: "session \<Rightarrow> bool" where
  "flushed s \<longleftrightarrow> \<not> contains_key (ss_buffered s) (ss_next_expected_chunk s)"

text \<open>What the consumer sees: \<open>d\<close> has been delivered, the queue follows. The chunk at position
  \<open>i\<close> is one of those heard with index \<open>i\<close>, and the next index expected is the number of
  chunks so far.\<close>

definition content_inv :: "(u64 \<times> string) set \<Rightarrow> string list \<Rightarrow> session \<Rightarrow> bool" where
  "content_inv H d s \<longleftrightarrow>
     of_nat (length (d @ ss_queue s)) = ss_next_expected_chunk s \<and>
     (\<forall>i<length (d @ ss_queue s). (of_nat i, (d @ ss_queue s) ! i) \<in> H) \<and>
     set (ss_buffered s) \<subseteq> H"

lemma payload_bytes_simps [simp]:
  "payload_bytes [] = 0" "payload_bytes (x # xs) = length x + payload_bytes xs"
  "payload_bytes (xs @ ys) = payload_bytes xs + payload_bytes ys"
  by (simp_all add: payload_bytes_def)

section \<open>Lemmas: finishing\<close>

lemma wake_stream_fields [simp]:
  "ss_waker (wake_stream s) = False" "ss_queue (wake_stream s) = ss_queue s"
  "ss_buffered (wake_stream s) = ss_buffered s"
  "ss_next_expected_chunk (wake_stream s) = ss_next_expected_chunk s"
  "ss_active (wake_stream s) = ss_active s" "ss_terminal (wake_stream s) = ss_terminal s"
  by (simp_all add: wake_stream_def)

lemma finalize_data [simp]:
  "ss_queue (finalize e s) = ss_queue s" "ss_buffered (finalize e s) = ss_buffered s"
  "ss_buffered_bytes (finalize e s) = ss_buffered_bytes s"
  "ss_queued_bytes (finalize e s) = ss_queued_bytes s"
  "ss_next_expected_chunk (finalize e s) = ss_next_expected_chunk s"
  "ss_max_buffered_chunks (finalize e s) = ss_max_buffered_chunks s"
  "ss_max_buffered_bytes (finalize e s) = ss_max_buffered_bytes s"
  "ss_progress_token (finalize e s) = ss_progress_token s"
  "ss_last_progress (finalize e s) = ss_last_progress s"
  "ss_active (finalize e s) = False"
  by (simp_all add: finalize_def wake_stream_def)

lemma finalize_terminal:
  "ss_terminal (finalize e s) = (if ss_active s then e else ss_terminal s)"
  by (simp add: finalize_def wake_stream_def)

lemma finalize_idem [simp]: "finalize e' (finalize e s) = finalize e s"
  by (simp add: finalize_def)

lemma finalize_control: "control_inv s \<Longrightarrow> control_inv (finalize e s)"
  by (auto simp: control_inv_def finalize_def wake_stream_def)

lemma data_inv_cong:
  assumes "ss_buffered s' = ss_buffered s" "ss_buffered_bytes s' = ss_buffered_bytes s"
    "ss_queue s' = ss_queue s" "ss_queued_bytes s' = ss_queued_bytes s"
    "ss_max_buffered_chunks s' = ss_max_buffered_chunks s"
    "ss_max_buffered_bytes s' = ss_max_buffered_bytes s"
  shows "data_inv s' = data_inv s"
  using assms by (simp add: data_inv_def buffered_payload_def)

lemma finalize_data_inv [simp]: "data_inv (finalize e s) = data_inv s"
  by (rule data_inv_cong) simp_all

lemma content_inv_cong:
  assumes "ss_buffered s' = ss_buffered s" "ss_queue s' = ss_queue s"
    "ss_next_expected_chunk s' = ss_next_expected_chunk s"
  shows "content_inv H d s' = content_inv H d s"
  using assms by (simp add: content_inv_def)

lemma finalize_content [simp]: "content_inv H d (finalize e s) = content_inv H d s"
  by (rule content_inv_cong) simp_all

lemma content_inv_mono: "content_inv H d s \<Longrightarrow> H \<subseteq> H' \<Longrightarrow> content_inv H' d s"
  unfolding content_inv_def by blast

section \<open>Lemmas: flushing\<close>

lemma flush_one_fields [simp]:
  "ss_queue (flush_one s data) = ss_queue s @ [data]"
  "ss_buffered_bytes (flush_one s data) =
     saturating_sub_u64 (ss_buffered_bytes s) (of_nat (length data))"
  "ss_queued_bytes (flush_one s data) = ss_queued_bytes s + of_nat (length data)"
  "ss_next_expected_chunk (flush_one s data) = ss_next_expected_chunk s + 1"
  "ss_waker (flush_one s data) = False"
  "ss_max_buffered_chunks (flush_one s data) = ss_max_buffered_chunks s"
  "ss_max_buffered_bytes (flush_one s data) = ss_max_buffered_bytes s"
  "ss_progress_token (flush_one s data) = ss_progress_token s"
  "ss_last_progress (flush_one s data) = ss_last_progress s"
  "ss_started (flush_one s data) = ss_started s"
  "ss_active (flush_one s data) = ss_active s"
  "ss_closed_remotely (flush_one s data) = ss_closed_remotely s"
  "ss_expected_last_chunk_index (flush_one s data) = ss_expected_last_chunk_index s"
  "ss_terminal (flush_one s data) = ss_terminal s"
  "ss_closed_wakers (flush_one s data) = ss_closed_wakers s"
  "ss_pending_probe_nonce (flush_one s data) = ss_pending_probe_nonce s"
  "ss_probe_deadline (flush_one s data) = ss_probe_deadline s"
  "ss_close_grace_deadline (flush_one s data) = ss_close_grace_deadline s"
  "ss_close_grace_period (flush_one s data) = ss_close_grace_period s"
  by (simp_all add: flush_one_def emit_def wake_stream_def Let_def)

text \<open>What one turn of the loop keeps, the loop keeps.\<close>

lemma flush_loop_keeps:
  assumes "P s"
    and "\<And>s data. P s \<Longrightarrow> map_of (ss_buffered s) (ss_next_expected_chunk s) = Some data \<Longrightarrow>
           P (flush_one s data)"
  shows "P (flush_loop s)"
  using assms(1)
proof (induction s rule: flush_loop.induct)
  case (1 s)
  show ?case
  proof (cases "map_of (ss_buffered s) (ss_next_expected_chunk s)")
    case None
    with "1.prems" show ?thesis by (simp add: flush_loop.simps [of s])
  next
    case (Some data)
    with 1 assms(2) show ?thesis by (simp add: flush_loop.simps [of s])
  qed
qed

lemma flush_loop_flushed: "flushed (flush_loop s)"
proof (induction s rule: flush_loop.induct)
  case (1 s)
  then show ?case
    by (cases "map_of (ss_buffered s) (ss_next_expected_chunk s)")
       (simp_all add: flush_loop.simps [of s] flushed_def contains_key_def)
qed

lemma flush_loop_fields [simp]:
  "ss_max_buffered_chunks (flush_loop s) = ss_max_buffered_chunks s"
  "ss_max_buffered_bytes (flush_loop s) = ss_max_buffered_bytes s"
  "ss_progress_token (flush_loop s) = ss_progress_token s"
  "ss_last_progress (flush_loop s) = ss_last_progress s"
  "ss_started (flush_loop s) = ss_started s"
  "ss_active (flush_loop s) = ss_active s"
  "ss_closed_remotely (flush_loop s) = ss_closed_remotely s"
  "ss_expected_last_chunk_index (flush_loop s) = ss_expected_last_chunk_index s"
  "ss_terminal (flush_loop s) = ss_terminal s"
  "ss_closed_wakers (flush_loop s) = ss_closed_wakers s"
  "ss_pending_probe_nonce (flush_loop s) = ss_pending_probe_nonce s"
  "ss_probe_deadline (flush_loop s) = ss_probe_deadline s"
  "ss_close_grace_deadline (flush_loop s) = ss_close_grace_deadline s"
  "ss_close_grace_period (flush_loop s) = ss_close_grace_period s"
  by (rule flush_loop_keeps [where P = "\<lambda>x. f x = f s" for f]; simp)+

lemma flush_one_data:
  assumes "data_inv s" and some: "map_of (ss_buffered s) (ss_next_expected_chunk s) = Some data"
  shows "data_inv (flush_one s data)"
proof -
  have keys: "keys_ok (ss_buffered s)" using assms(1) by (simp add: data_inv_def)
  have sum: "buffered_payload (flush_one s data) + length data = buffered_payload s"
    using sum_list_delete [OF keys some, of "\<lambda>(k, d). length d"]
    by (simp add: buffered_payload_def)
  have len: "length (ss_buffered (flush_one s data)) < length (ss_buffered s)"
    using some by (simp add: contains_key_def length_delete_present)
  have small: "length data + payload_bytes (ss_queue s) < 2 ^ 64"
    using assms(1) sum unat_u64_lt [of "ss_max_buffered_bytes s"] by (simp add: data_inv_def)
  then have "unat (ss_queued_bytes s + of_nat (length data)) =
      payload_bytes (ss_queue s) + length data"
    using assms(1) by (simp add: data_inv_def unat_add_no_wrap unat_of_nat_u64)
  moreover have "unat (saturating_sub_u64 (ss_buffered_bytes s) (of_nat (length data))) =
      buffered_payload (flush_one s data)"
    using assms(1) sum small
    by (simp add: data_inv_def saturating_sub_u64_unat unat_of_nat_u64)
  ultimately show ?thesis
    using assms(1) sum len by (simp add: data_inv_def)
qed

lemma indexed_snoc:
  "\<forall>i<length xs. (of_nat i, xs ! i) \<in> H \<Longrightarrow> (of_nat (length xs), y) \<in> H \<Longrightarrow>
   \<forall>i<length (xs @ [y]). (of_nat i, (xs @ [y]) ! i) \<in> H"
  by (auto simp: nth_append less_Suc_eq)

lemma flush_one_content:
  assumes "content_inv H d s" and some: "map_of (ss_buffered s) (ss_next_expected_chunk s) = Some data"
  shows "content_inv H d (flush_one s data)"
proof -
  have "(ss_next_expected_chunk s, data) \<in> H"
    using assms by (auto simp: content_inv_def dest: map_of_SomeD)
  then have "\<forall>i<length ((d @ ss_queue s) @ [data]). (of_nat i, ((d @ ss_queue s) @ [data]) ! i) \<in> H"
    using assms(1) unfolding content_inv_def by (intro indexed_snoc) simp_all
  moreover have "set (ss_buffered (flush_one s data)) \<subseteq> H"
    using assms(1) set_delete_subset [of "ss_next_expected_chunk s" "ss_buffered s"]
    by (auto simp: content_inv_def)
  ultimately show ?thesis using assms(1) by (simp add: content_inv_def add.assoc)
qed

lemma flush_loop_inv:
  "data_inv s \<Longrightarrow> data_inv (flush_loop s)"
  "content_inv H d s \<Longrightarrow> content_inv H d (flush_loop s)"
  "control_inv s \<Longrightarrow> control_inv (flush_loop s)"
  by (rule flush_loop_keeps; simp add: flush_one_data flush_one_content control_inv_def)+

section \<open>Lemmas: operations\<close>

lemmas session_simps = assert_active_def assert_started_def assert_progress_def
  next_control_nonce_def handle_pong_def Let_def

lemma maybe_finish_inv:
  "data_inv (fst (maybe_finish_gracefully s)) = data_inv s"
  "content_inv H d (fst (maybe_finish_gracefully s)) = content_inv H d s"
  "control_inv s \<Longrightarrow> control_inv (fst (maybe_finish_gracefully s))"
  by (auto simp: maybe_finish_gracefully_def finalize_control split: option.splits)

lemma flush_contiguous_inv:
  "data_inv s \<Longrightarrow> data_inv (fst (flush_contiguous_chunks s))"
  "content_inv H d s \<Longrightarrow> content_inv H d (fst (flush_contiguous_chunks s))"
  "control_inv s \<Longrightarrow> control_inv (fst (flush_contiguous_chunks s))"
  by (simp_all add: flush_contiguous_chunks_def Let_def flush_loop_inv maybe_finish_inv)

text \<open>The outcome of \<open>flush_contiguous_chunks\<close>: waiting, complete, or impossible.\<close>

lemma flush_contiguous_cases:
  obtains (waiting) "flush_contiguous_chunks s = (flush_loop s, Ok False)"
      "ss_closed_remotely s \<Longrightarrow> ss_buffered (flush_loop s) \<noteq> []"
  | (finished) "flush_contiguous_chunks s = (finalize None (flush_loop s), Ok True)"
      "ss_closed_remotely s" "ss_buffered (flush_loop s) = []"
      "\<And>l. ss_expected_last_chunk_index s = Some l \<Longrightarrow>
         ss_next_expected_chunk (flush_loop s) = l + 1"
  | (incomplete) e where "flush_contiguous_chunks s = (flush_loop s, Err e)"
      "ss_closed_remotely s" "ss_buffered (flush_loop s) = []"
proof -
  consider "\<not> ss_closed_remotely s" | "ss_buffered (flush_loop s) \<noteq> []"
    | "ss_closed_remotely s" "ss_buffered (flush_loop s) = []" by blast
  then show thesis
  proof cases
    case 1
    then show ?thesis by (intro waiting) (simp_all add: flush_contiguous_chunks_def Let_def)
  next
    case 2
    then show ?thesis
      by (intro waiting)
         (simp_all add: flush_contiguous_chunks_def maybe_finish_gracefully_def Let_def)
  next
    case 3
    show ?thesis
    proof (cases "\<exists>l. ss_expected_last_chunk_index s = Some l \<and>
        ss_next_expected_chunk (flush_loop s) \<noteq> l + 1")
      case True
      with 3 have "\<exists>e. flush_contiguous_chunks s = (flush_loop s, Err e)"
        by (auto simp: flush_contiguous_chunks_def maybe_finish_gracefully_def Let_def)
      with 3 incomplete show ?thesis by blast
    next
      case False
      with 3 show ?thesis
        by (intro finished [OF _ 3])
           (auto simp: flush_contiguous_chunks_def maybe_finish_gracefully_def Let_def
             split: option.splits)
    qed
  qed
qed

definition in_budget :: "session \<Rightarrow> string \<Rightarrow> bool" where
  "in_budget s data \<longleftrightarrow>
     ss_buffered_bytes s + ss_queued_bytes s + of_nat (length data) \<le> ss_max_buffered_bytes s"

definition with_chunk :: "session \<Rightarrow> u64 \<Rightarrow> string \<Rightarrow> session" where
  "with_chunk s k data =
     s\<lparr>ss_buffered := AList.update k data (ss_buffered s),
       ss_buffered_bytes := ss_buffered_bytes s + of_nat (length data)\<rparr>"

lemma buffer_chunk_result:
  assumes "buffer_chunk s k data = res"
  shows "(\<exists>e. res = (s, Err e)) \<or>
     res = (with_chunk s k data, Ok ()) \<and> not_stale s k \<and> \<not> contains_key (ss_buffered s) k \<and>
     length (ss_buffered s) + length (ss_queue s) < ss_max_buffered_chunks s \<and> in_budget s data"
  using assms
  by (auto simp: buffer_chunk_def not_stale_def in_budget_def with_chunk_def Let_def not_less not_le
      split: if_splits)

lemma buffer_chunk_cases:
  obtains (rejected) e where "buffer_chunk s k data = (s, Err e)"
  | (buffered) "buffer_chunk s k data = (with_chunk s k data, Ok ())"
      "not_stale s k" "\<not> contains_key (ss_buffered s) k"
      "length (ss_buffered s) + length (ss_queue s) < ss_max_buffered_chunks s"
      "in_budget s data"
  using buffer_chunk_result [OF refl, of s k data] by blast

lemma with_chunk_fields [simp]:
  "ss_buffered (with_chunk s k data) = AList.update k data (ss_buffered s)"
  "ss_buffered_bytes (with_chunk s k data) = ss_buffered_bytes s + of_nat (length data)"
  "ss_queue (with_chunk s k data) = ss_queue s"
  "ss_queued_bytes (with_chunk s k data) = ss_queued_bytes s"
  "ss_next_expected_chunk (with_chunk s k data) = ss_next_expected_chunk s"
  "ss_max_buffered_chunks (with_chunk s k data) = ss_max_buffered_chunks s"
  "ss_max_buffered_bytes (with_chunk s k data) = ss_max_buffered_bytes s"
  "ss_progress_token (with_chunk s k data) = ss_progress_token s"
  "ss_last_progress (with_chunk s k data) = ss_last_progress s"
  "ss_started (with_chunk s k data) = ss_started s"
  "ss_active (with_chunk s k data) = ss_active s"
  "ss_closed_remotely (with_chunk s k data) = ss_closed_remotely s"
  "ss_expected_last_chunk_index (with_chunk s k data) = ss_expected_last_chunk_index s"
  by (simp_all add: with_chunk_def)

lemma with_chunk_control: "control_inv (with_chunk s k data) = control_inv s"
  by (simp add: control_inv_def with_chunk_def)

lemma buffer_chunk_data:
  assumes inv: "data_inv s" and fits: "unat (ss_max_buffered_bytes s) + length data < 2 ^ 64"
  shows "data_inv (fst (buffer_chunk s k data))"
proof (cases rule: buffer_chunk_cases [of s k data])
  case buffered
  let ?s = "fst (buffer_chunk s k data)"
  have payload: "buffered_payload ?s = buffered_payload s + length data"
    using buffered(3) by (simp add: buffered(1) buffered_payload_def update_new)
  have bytes: "unat (ss_buffered_bytes s + of_nat (length data)) = buffered_payload s + length data"
    using inv fits by (simp add: data_inv_def unat_add_no_wrap unat_of_nat_u64)
  have queued: "unat (ss_buffered_bytes s + ss_queued_bytes s) =
      buffered_payload s + payload_bytes (ss_queue s)"
    using inv fits by (simp add: data_inv_def unat_add_no_wrap)
  have "unat (ss_buffered_bytes s + ss_queued_bytes s + of_nat (length data)) =
      buffered_payload s + payload_bytes (ss_queue s) + length data"
    using inv fits by (subst unat_add_no_wrap) (simp_all add: data_inv_def queued unat_of_nat_u64)
  with buffered(5) have "buffered_payload s + length data + payload_bytes (ss_queue s) \<le>
      unat (ss_max_buffered_bytes s)"
    by (simp add: in_budget_def word_le_nat_alt)
  then show ?thesis
    using inv payload bytes buffered(3,4)
    by (simp add: data_inv_def buffered(1) update_new keys_ok_def contains_key_iff)
qed (use inv in simp)

lemma buffer_chunk_other:
  "content_inv H d s \<Longrightarrow> content_inv (insert (k, data) H) d (fst (buffer_chunk s k data))"
  "control_inv s \<Longrightarrow> control_inv (fst (buffer_chunk s k data))"
proof -
  show "content_inv (insert (k, data) H) d (fst (buffer_chunk s k data))" if "content_inv H d s"
  proof (cases rule: buffer_chunk_cases [of s k data])
    case buffered
    with that show ?thesis
      using set_update_subset [of k data "ss_buffered s"] by (auto simp: content_inv_def)
  qed (use that in \<open>auto intro: content_inv_mono\<close>)
  show "control_inv (fst (buffer_chunk s k data))" if "control_inv s"
    by (cases rule: buffer_chunk_cases [of s k data]) (use that in \<open>simp_all add: with_chunk_control\<close>)
qed

text \<open>The chunk a frame carries, and the frames whose payload fits the address space.\<close>

fun frame_chunk :: "open_stream_frame \<Rightarrow> (u64 \<times> string) set" where
  "frame_chunk (OsChunk k data) = {(k, data)}"
| "frame_chunk _ = {}"

definition frame_fits :: "session \<Rightarrow> open_stream_frame \<Rightarrow> bool" where
  "frame_fits s f \<longleftrightarrow>
     (\<forall>(k, data) \<in> frame_chunk f. unat (ss_max_buffered_bytes s) + length data < 2 ^ 64)"

lemma dispatch_chunk:
  assumes "ss_started s"
  shows "fst (session_dispatch s now (OsChunk k data)) =
    (case buffer_chunk s k data of (s1, Err e) \<Rightarrow> s1 | (s1, Ok _) \<Rightarrow> fst (flush_contiguous_chunks s1))"
  using assms by (simp add: assert_started_def split: prod.splits sum.splits)

lemma session_dispatch_data:
  assumes "data_inv s" and "frame_fits s f"
  shows "data_inv (fst (session_dispatch s now f))"
proof (cases f)
  case (OsChunk k data)
  show ?thesis
  proof (cases "ss_started s")
    case True
    have "data_inv (fst (buffer_chunk s k data))"
      using assms OsChunk by (intro buffer_chunk_data) (simp_all add: frame_fits_def)
    then show ?thesis
      unfolding OsChunk dispatch_chunk [OF True]
      by (auto simp: flush_contiguous_inv split: prod.splits sum.splits)
  next
    case False
    with assms(1) OsChunk show ?thesis by (simp add: assert_started_def)
  qed
next
  case (OsClose l)
  let ?s = "s\<lparr>ss_closed_remotely := True, ss_expected_last_chunk_index := l\<rparr>"
  have "data_inv ?s" using assms(1) by (subst data_inv_cong [of _ s]) simp_all
  from flush_contiguous_inv(1) [OF this] have "data_inv (fst (flush_contiguous_chunks ?s))" .
  then show ?thesis
    using assms(1) OsClose
    by (auto simp: assert_started_def split: prod.splits sum.splits)
       (subst data_inv_cong; simp)+
qed (use assms(1) in \<open>auto simp: session_simps data_inv_def buffered_payload_def split: sum.splits\<close>)

lemma session_dispatch_content:
  assumes "content_inv H d s"
  shows "content_inv (H \<union> frame_chunk f) d (fst (session_dispatch s now f))"
proof (cases f)
  case (OsChunk k data)
  show ?thesis
  proof (cases "ss_started s")
    case True
    have "content_inv (insert (k, data) H) d (fst (buffer_chunk s k data))"
      using assms by (rule buffer_chunk_other)
    then show ?thesis
      unfolding OsChunk dispatch_chunk [OF True]
      by (auto simp: flush_contiguous_inv split: prod.splits sum.splits)
  next
    case False
    with assms OsChunk show ?thesis by (auto simp: assert_started_def intro: content_inv_mono)
  qed
next
  case (OsClose l)
  let ?s = "s\<lparr>ss_closed_remotely := True, ss_expected_last_chunk_index := l\<rparr>"
  have "content_inv H d ?s" using assms by (subst content_inv_cong [of _ s]) simp_all
  from flush_contiguous_inv(2) [OF this] have "content_inv H d (fst (flush_contiguous_chunks ?s))" .
  then show ?thesis
    using assms OsClose
    by (auto simp: assert_started_def split: prod.splits sum.splits)
       (subst content_inv_cong; simp)+
qed (use assms in \<open>auto simp: session_simps content_inv_def split: sum.splits\<close>)

lemma flush_contiguous_active:
  "ss_active s \<Longrightarrow> snd (flush_contiguous_chunks s) = Ok False \<or> (\<exists>e. snd (flush_contiguous_chunks s) = Err e)
   \<Longrightarrow> ss_active (fst (flush_contiguous_chunks s))"
  by (cases rule: flush_contiguous_cases [of s]) auto

lemma session_dispatch_control:
  assumes "control_inv s" and "ss_active s"
  shows "control_inv (fst (session_dispatch s now f))"
proof (cases f)
  case (OsChunk k data)
  show ?thesis
  proof (cases "ss_started s")
    case True
    have "control_inv (fst (buffer_chunk s k data))" using assms(1) by (rule buffer_chunk_other)
    then show ?thesis
      unfolding OsChunk dispatch_chunk [OF True]
      by (auto simp: flush_contiguous_inv split: prod.splits sum.splits)
  next
    case False
    with assms OsChunk show ?thesis by (simp add: assert_started_def)
  qed
next
  case (OsClose l)
  let ?s = "s\<lparr>ss_closed_remotely := True, ss_expected_last_chunk_index := l\<rparr>"
  have c: "control_inv ?s" using assms(1) by (simp add: control_inv_def)
  show ?thesis
  proof (cases "ss_started s")
    case True
    show ?thesis
    proof (cases rule: flush_contiguous_cases [of ?s])
      case waiting
      have "control_inv (flush_loop ?s)" "ss_active (flush_loop ?s)"
        using c assms(2) by (simp_all add: flush_loop_inv)
      then show ?thesis using True OsClose waiting(1)
        by (simp add: assert_started_def control_inv_def)
    next
      case finished
      then show ?thesis using True OsClose c
        by (simp add: assert_started_def finalize_control flush_loop_inv)
    next
      case (incomplete e)
      then show ?thesis using True OsClose c by (simp add: assert_started_def flush_loop_inv)
    qed
  next
    case False
    with assms OsClose show ?thesis by (simp add: assert_started_def)
  qed
next
  case (OsPong nonce)
  with assms show ?thesis by (auto simp: session_simps control_inv_def split: sum.splits)
next
  case (OsAbort r)
  with assms show ?thesis by (simp add: finalize_control)
qed (use assms in \<open>auto simp: session_simps control_inv_def split: sum.splits\<close>)

section \<open>The session as a state machine\<close>

datatype session_event =
    SFrame instant int open_stream_frame
  | STick instant
  | SPoll
  | SPollClosed
  | SFail open_stream_error
  | SDispose
  | SAbort "string option"

datatype session_output =
    SOutcome "(open_stream_error, frame_outcome) result"
  | SAction keepalive_action
  | SItem "(open_stream_error, string) result option poll"
  | SClosedPoll "unit poll"
  | SPublish "json_rpc_notification option"
  | SDone

fun session_step :: "session \<Rightarrow> session_event \<Rightarrow> session \<times> session_output" where
  "session_step s (SFrame now progress f) =
     (let (s', r) = session_process_frame s now progress f in (s', SOutcome r))"
| "session_step s (STick now) = (let (s', a) = session_tick s now in (s', SAction a))"
| "session_step s SPoll = (let (s', r) = poll_next s in (s', SItem r))"
| "session_step s SPollClosed = (let (s', r) = poll_closed s in (s', SClosedPoll r))"
| "session_step s (SFail e) = (session_fail s e, SDone)"
| "session_step s SDispose = (session_dispose s, SDone)"
| "session_step s (SAbort reason) = (let (s', n) = session_abort s reason in (s', SPublish n))"

fun event_chunks :: "session_event \<Rightarrow> (u64 \<times> string) set" where
  "event_chunks (SFrame now progress f) = frame_chunk f"
| "event_chunks _ = {}"

fun delivered_item :: "session_output \<Rightarrow> string list" where
  "delivered_item (SItem (Ready (Some (Inr item)))) = [item]"
| "delivered_item _ = []"

definition delivered :: "session_output list \<Rightarrow> string list" where
  "delivered outs = concat (map delivered_item outs)"

definition heard_chunks :: "session_event list \<Rightarrow> (u64 \<times> string) set" where
  "heard_chunks es = (\<Union>e\<in>set es. event_chunks e)"

definition event_fits :: "u64 \<Rightarrow> session_event \<Rightarrow> bool" where
  "event_fits max_bytes e \<longleftrightarrow>
     (\<forall>(k, data) \<in> event_chunks e. unat max_bytes + length data < 2 ^ 64)"

lemma flush_contiguous_limits [simp]:
  "ss_max_buffered_bytes (fst (flush_contiguous_chunks s)) = ss_max_buffered_bytes s"
  "ss_max_buffered_chunks (fst (flush_contiguous_chunks s)) = ss_max_buffered_chunks s"
  by (cases rule: flush_contiguous_cases [of s]; simp)+

lemma dispatch_limits:
  "ss_max_buffered_bytes (fst (session_dispatch s now f)) = ss_max_buffered_bytes s \<and>
   ss_max_buffered_chunks (fst (session_dispatch s now f)) = ss_max_buffered_chunks s"
proof (cases f)
  case (OsChunk k data)
  show ?thesis
  proof (cases "ss_started s")
    case True
    show ?thesis
      unfolding OsChunk dispatch_chunk [OF True]
      by (cases rule: buffer_chunk_cases [of s k data]) simp_all
  qed (simp add: OsChunk assert_started_def)
next
  case (OsClose l)
  let ?s = "s\<lparr>ss_closed_remotely := True, ss_expected_last_chunk_index := l\<rparr>"
  show ?thesis
    by (cases rule: flush_contiguous_cases [of ?s]) (simp_all add: OsClose assert_started_def)
qed (auto simp: session_simps split: sum.splits)

text \<open>The limits are those of the options, and both planes keep their invariant.\<close>

definition session_ok :: "nat \<Rightarrow> u64 \<Rightarrow> session \<Rightarrow> bool" where
  "session_ok max_chunks max_bytes s \<longleftrightarrow>
     ss_max_buffered_chunks s = max_chunks \<and> ss_max_buffered_bytes s = max_bytes \<and>
     data_inv s \<and> control_inv s"

lemma process_frame_ok:
  assumes "session_ok mc mb s" and "event_fits mb (SFrame now p f)"
  shows "session_ok mc mb (fst (session_process_frame s now p f))"
proof (cases "ss_active s \<and> ss_last_progress s < p")
  case True
  let ?s = "s\<lparr>ss_last_progress := p, ss_last_activity := now\<rparr>"
  have step: "session_process_frame s now p f = session_dispatch ?s now f"
    using True by (simp add: session_process_frame_def assert_active_def assert_progress_def)
  have "data_inv ?s" using assms(1) by (subst data_inv_cong [of _ s]) (simp_all add: session_ok_def)
  moreover have "control_inv ?s" using assms(1) by (simp add: session_ok_def control_inv_def)
  moreover have "frame_fits ?s f" using assms by (simp add: session_ok_def event_fits_def frame_fits_def)
  ultimately show ?thesis
    using assms(1) True dispatch_limits [of ?s now f]
    by (simp add: step session_ok_def session_dispatch_data session_dispatch_control)
next
  case False
  then have "fst (session_process_frame s now p f) = s"
    by (auto simp: session_process_frame_def assert_active_def assert_progress_def)
  with assms(1) show ?thesis by simp
qed

lemma poll_next_ok:
  assumes "session_ok mc mb s"
  shows "session_ok mc mb (fst (poll_next s))"
proof (cases "ss_queue s")
  case Nil
  with assms show ?thesis
    by (auto simp: poll_next_def session_ok_def data_inv_def buffered_payload_def control_inv_def
        split: option.splits)
next
  case (Cons item rest)
  have q: "unat (ss_queued_bytes s) = length item + payload_bytes rest"
    using assms Cons by (simp add: session_ok_def data_inv_def)
  then have "length item < 2 ^ 64" using unat_u64_lt [of "ss_queued_bytes s"] by simp
  then have "unat (saturating_sub_u64 (ss_queued_bytes s) (of_nat (length item))) =
      payload_bytes rest"
    using q by (simp add: saturating_sub_u64_unat unat_of_nat_u64)
  with assms Cons show ?thesis
    by (auto simp: poll_next_def session_ok_def data_inv_def buffered_payload_def control_inv_def)
qed

lemma session_step_ok:
  assumes "session_ok mc mb s" and "event_fits mb e"
  shows "session_ok mc mb (fst (session_step s e))"
proof (cases e)
  case (SFrame now p f)
  with assms show ?thesis by (simp add: process_frame_ok split_beta Let_def)
next
  case SPoll
  with assms show ?thesis by (simp add: poll_next_ok split_beta Let_def)
next
  case (STick now)
  have "data_inv (fst (session_tick s now)) = data_inv s"
    by (rule data_inv_cong) (simp_all add: session_tick_def session_simps)
  moreover have "control_inv (fst (session_tick s now))"
    using assms(1) finalize_control [of s]
    by (auto simp: session_tick_def session_simps session_ok_def control_inv_def)
  moreover have "ss_max_buffered_bytes (fst (session_tick s now)) = ss_max_buffered_bytes s"
    "ss_max_buffered_chunks (fst (session_tick s now)) = ss_max_buffered_chunks s"
    by (simp_all add: session_tick_def session_simps)
  ultimately show ?thesis using assms(1) STick by (simp add: session_ok_def split_beta Let_def)
next
  case SPollClosed
  with assms show ?thesis
    by (auto simp: poll_closed_def session_ok_def data_inv_def buffered_payload_def control_inv_def)
next
  case (SAbort reason)
  have "data_inv (fst (session_abort s reason)) = data_inv s"
    by (rule data_inv_cong) (simp_all add: session_abort_def Let_def)
  moreover have "control_inv (fst (session_abort s reason))"
    using assms(1) finalize_control [of s "Some (OsAbortError (ss_progress_token s) reason)"]
    by (auto simp: session_abort_def session_ok_def control_inv_def Let_def)
  ultimately show ?thesis
    using assms(1) SAbort by (simp add: session_ok_def split_beta Let_def session_abort_def)
qed (use assms(1) in \<open>simp_all add: session_ok_def session_fail_def session_dispose_def
  finalize_control\<close>)

interpretation session_m: guarded_machine session_step "event_fits mb" "session_ok mc mb"
  by unfold_locales (rule session_step_ok)

lemma session_new_ok:
  "session_ok (sop_max_buffered_chunks opts) (sop_max_buffered_bytes opts) (session_new opts now)"
  by (simp add: session_ok_def session_new_def data_inv_def buffered_payload_def control_inv_def)

section \<open>What the consumer reads\<close>

text \<open>The session with the chunks delivered and the chunks heard so far.\<close>

definition observed_step ::
  "session \<times> string list \<times> (u64 \<times> string) set \<Rightarrow> session_event \<Rightarrow>
   (session \<times> string list \<times> (u64 \<times> string) set) \<times> session_output" where
  "observed_step x e =
     (case x of (s, d, H) \<Rightarrow>
       let (s', out) = session_step s e in ((s', d @ delivered_item out, H \<union> event_chunks e), out))"

lemma observed_run:
  "run_steps observed_step (s, d, H) es =
     (let (s', outs) = run_steps session_step s es in
      ((s', d @ delivered outs, H \<union> heard_chunks es), outs))"
  by (induction es arbitrary: s d H)
     (auto simp: observed_step_def delivered_def heard_chunks_def split_beta Let_def)

definition observed_ok :: "session \<times> string list \<times> (u64 \<times> string) set \<Rightarrow> bool" where
  "observed_ok x = (case x of (s, d, H) \<Rightarrow> content_inv H d s)"

lemma process_frame_content:
  assumes "content_inv H d s"
  shows "content_inv (H \<union> frame_chunk f) d (fst (session_process_frame s now p f))"
proof (cases "ss_active s \<and> ss_last_progress s < p")
  case True
  let ?s = "s\<lparr>ss_last_progress := p, ss_last_activity := now\<rparr>"
  have "content_inv H d ?s" using assms by (subst content_inv_cong [of _ s]) simp_all
  with True session_dispatch_content [of H d ?s f now] show ?thesis
    by (simp add: session_process_frame_def assert_active_def assert_progress_def)
next
  case False
  then have "fst (session_process_frame s now p f) = s"
    by (auto simp: session_process_frame_def assert_active_def assert_progress_def)
  with assms show ?thesis by (auto intro: content_inv_mono)
qed

lemma poll_next_content:
  assumes "content_inv H d s"
  shows "content_inv H (d @ delivered_item (SItem (snd (poll_next s)))) (fst (poll_next s))"
  using assms
  by (cases "ss_queue s") (auto simp: poll_next_def content_inv_def split: option.splits)

lemma observed_step_ok: "observed_ok x \<Longrightarrow> observed_ok (fst (observed_step x e))"
proof -
  obtain s d H where x: "x = (s, d, H)" by (cases x)
  assume "observed_ok x"
  then have c: "content_inv H d s" by (simp add: x observed_ok_def)
  have same: "content_inv H d s'" if "ss_buffered s' = ss_buffered s" "ss_queue s' = ss_queue s"
      "ss_next_expected_chunk s' = ss_next_expected_chunk s" for s'
    using c that by (subst content_inv_cong [of _ s])
  show "observed_ok (fst (observed_step x e))"
  proof (cases e)
    case (SFrame now p f)
    with process_frame_content [OF c, of f now p] show ?thesis
      by (simp add: x observed_step_def observed_ok_def split_beta Let_def)
  next
    case SPoll
    with poll_next_content [OF c] show ?thesis
      by (simp add: x observed_step_def observed_ok_def split_beta Let_def)
  next
    case (STick now)
    then show ?thesis
      by (simp add: x observed_step_def observed_ok_def split_beta Let_def)
         (rule same; simp add: session_tick_def session_simps)
  next
    case SPollClosed
    then show ?thesis
      by (simp add: x observed_step_def observed_ok_def split_beta Let_def)
         (rule same; simp add: poll_closed_def)
  next
    case (SAbort reason)
    then show ?thesis
      by (simp add: x observed_step_def observed_ok_def split_beta Let_def)
         (rule same; simp add: session_abort_def Let_def)
  qed (use c in \<open>simp_all add: x observed_step_def observed_ok_def session_fail_def
    session_dispose_def\<close>)
qed

interpretation observed_m: machine observed_step observed_ok
  by unfold_locales (rule observed_step_ok)

end
