(* ===== verification/Open_Stream_Reader.thy ===== *)
theory Open_Stream_Reader
  imports Open_Stream_Session
begin

text \<open>
  What the reader session of \<open>src/transport/open_stream/session.rs\<close> promises its consumer and its
  peer: the chunks read are a gap-free prefix of the chunks sent, within the limits; a graceful
  close means that prefix is complete; the terminal error is read once, after every chunk; the
  outer progress orders all accepted frames; an idle stream is probed and then aborted.
\<close>

section \<open>Draining a finished stream\<close>

definition item :: "string \<Rightarrow> session_output" where
  "item d = SItem (Ready (Some (Ok d)))"

definition end_of_stream :: session_output where
  "end_of_stream = SItem (Ready None)"

lemma drain_items:
  "\<exists>s'. run_steps session_step s (replicate (length (ss_queue s)) SPoll) =
      (s', map item (ss_queue s)) \<and>
    ss_queue s' = [] \<and> ss_active s' = ss_active s \<and> ss_terminal s' = ss_terminal s"
proof (induction "ss_queue s" arbitrary: s)
  case Nil
  then show ?case by simp
next
  case (Cons d ds)
  from Cons(2) [symmetric] have q: "ss_queue s = d # ds" .
  define s1 where "s1 = fst (poll_next s)"
  have s1: "ss_queue s1 = ds" "ss_active s1 = ss_active s" "ss_terminal s1 = ss_terminal s"
    "poll_next s = (s1, Ready (Some (Ok d)))"
    by (simp_all add: s1_def poll_next_def q)
  from Cons(1) [of s1] s1 obtain s' where
    "run_steps session_step s1 (replicate (length ds) SPoll) = (s', map item ds)"
    "ss_queue s' = []" "ss_active s' = ss_active s" "ss_terminal s' = ss_terminal s"
    by auto
  with s1(4) q show ?case by (simp add: item_def)
qed

lemma drain_finished:
  assumes "\<not> ss_active s"
  shows "snd (run_steps session_step s (replicate (length (ss_queue s) + 2) SPoll)) =
    map item (ss_queue s) @
    (case ss_terminal s of
       None \<Rightarrow> [end_of_stream, end_of_stream]
     | Some e \<Rightarrow> [SItem (Ready (Some (Err e))), end_of_stream])"
proof -
  obtain s' where s': "run_steps session_step s (replicate (length (ss_queue s)) SPoll) =
      (s', map item (ss_queue s))"
    "ss_queue s' = []" "\<not> ss_active s'" "ss_terminal s' = ss_terminal s"
    using drain_items [of s] assms by blast
  have tail: "snd (run_steps session_step s' [SPoll, SPoll]) =
      (case ss_terminal s of
         None \<Rightarrow> [end_of_stream, end_of_stream]
       | Some e \<Rightarrow> [SItem (Ready (Some (Err e))), end_of_stream])"
    using s' by (simp add: poll_next_def end_of_stream_def split: option.splits)
  have "replicate (length (ss_queue s) + 2) SPoll =
      replicate (length (ss_queue s)) SPoll @ [SPoll, SPoll]"
    by (simp only: replicate_add) (simp add: numeral_2_eq_2)
  then show ?thesis
    by (simp add: run_steps_append s'(1) split_beta Let_def tail del: run_steps.simps replicate_Suc)
qed

section \<open>Graceful close\<close>

lemma dispatch_closed:
  assumes "ss_active s" and "session_dispatch s now f = (s', Ok OutClosed)"
  shows "\<not> ss_active s' \<and> ss_terminal s' = None \<and> ss_buffered s' = [] \<and>
    (\<forall>l. ss_expected_last_chunk_index s' = Some l \<longrightarrow> ss_next_expected_chunk s' = l + 1)"
proof -
  have fin: "\<not> ss_active (finalize None x) \<and> ss_terminal (finalize None x) = None \<and>
      ss_expected_last_chunk_index (finalize None x) = ss_expected_last_chunk_index x"
    if "ss_active x" for x
    using that by (simp add: finalize_def wake_stream_def)
  show ?thesis
  proof (cases f)
    case (OsChunk k data)
    with assms(2) have st: "ss_started s" by (auto simp: assert_started_def split: if_splits)
    show ?thesis
    proof (cases rule: buffer_chunk_cases [of s k data])
      case (rejected e)
      with assms(2) st OsChunk show ?thesis by (simp add: assert_started_def)
    next
      case buffered
      let ?s = "with_chunk s k data"
      show ?thesis
        by (cases rule: flush_contiguous_cases [of ?s])
           (use assms OsChunk st buffered(1) fin [of "flush_loop ?s"] in
             \<open>auto simp: assert_started_def\<close>)
    qed
  next
    case (OsClose l)
    with assms(2) have st: "ss_started s" by (auto simp: assert_started_def split: if_splits)
    let ?s = "s\<lparr>ss_closed_remotely := True, ss_expected_last_chunk_index := l\<rparr>"
    show ?thesis
      by (cases rule: flush_contiguous_cases [of ?s])
         (use assms OsClose st fin [of "flush_loop ?s"] in \<open>auto simp: assert_started_def\<close>)
  qed (use assms in \<open>auto simp: session_simps split: sum.splits if_splits\<close>)
qed

lemma process_frame_active:
  assumes "session_process_frame s now p f = (s', Ok out)"
  shows "ss_active s \<and> ss_last_progress s < p \<and>
    session_dispatch (s\<lparr>ss_last_progress := p, ss_last_activity := now\<rparr>) now f = (s', Ok out)"
  using assms
  by (auto simp: session_process_frame_def assert_active_def assert_progress_def split: if_splits)

section \<open>Order of the accepted frames\<close>

lemma flush_contiguous_progress [simp]:
  "ss_last_progress (fst (flush_contiguous_chunks s)) = ss_last_progress s"
  by (cases rule: flush_contiguous_cases [of s]) simp_all

lemma dispatch_progress:
  "ss_last_progress (fst (session_dispatch s now f)) = ss_last_progress s"
proof (cases f)
  case (OsChunk k data)
  show ?thesis
  proof (cases "ss_started s")
    case True
    show ?thesis
      unfolding OsChunk dispatch_chunk [OF True]
      by (cases rule: buffer_chunk_cases [of s k data]) simp_all
  qed (simp add: OsChunk assert_started_def)
next
  case (OsClose l)
  let ?s = "s\<lparr>ss_closed_remotely := True, ss_expected_last_chunk_index := l\<rparr>"
  show ?thesis
    by (cases rule: flush_contiguous_cases [of ?s]) (simp_all add: OsClose assert_started_def)
qed (auto simp: session_simps split: sum.splits)

lemma process_frame_progress:
  "ss_last_progress s \<le> ss_last_progress (fst (session_process_frame s now p f))"
  "session_process_frame s now p f = (s', Ok out) \<Longrightarrow>
     ss_last_progress s < p \<and> ss_last_progress s' = p"
proof -
  show "ss_last_progress s \<le> ss_last_progress (fst (session_process_frame s now p f))"
    by (auto simp: session_process_frame_def assert_active_def assert_progress_def
        dispatch_progress)
  assume a: "session_process_frame s now p f = (s', Ok out)"
  from process_frame_active [OF a] show "ss_last_progress s < p \<and> ss_last_progress s' = p"
    using dispatch_progress [of "s\<lparr>ss_last_progress := p, ss_last_activity := now\<rparr>" now f] by simp
qed

lemma session_step_progress: "ss_last_progress s \<le> ss_last_progress (fst (session_step s e))"
proof (cases e)
  case (SFrame now p f)
  then show ?thesis using process_frame_progress(1) [of s now p f] by (simp add: split_beta Let_def)
qed (simp_all add: split_beta Let_def session_tick_def session_simps poll_next_def poll_closed_def
  session_fail_def session_dispose_def session_abort_def split: list.splits option.splits)

definition accepted_progress :: "session_event \<times> session_output \<Rightarrow> int list" where
  "accepted_progress x =
     (case x of (SFrame now p f, SOutcome (Ok out)) \<Rightarrow> [p] | _ \<Rightarrow> [])"

lemma accepted_increasing:
  "sorted_wrt (<) (concat (map accepted_progress (zip es (snd (run_steps session_step s es))))) \<and>
   (\<forall>p\<in>set (concat (map accepted_progress (zip es (snd (run_steps session_step s es))))).
      ss_last_progress s < p)"
proof (induction es arbitrary: s)
  case Nil
  then show ?case by simp
next
  case (Cons e es)
  let ?s = "fst (session_step s e)"
  let ?rest = "concat (map accepted_progress (zip es (snd (run_steps session_step ?s es))))"
  have later: "\<forall>p\<in>set ?rest. ss_last_progress s < p"
    using Cons.IH [of ?s] session_step_progress [of s e] by force
  have first: "\<forall>p\<in>set (accepted_progress (e, snd (session_step s e))).
      ss_last_progress s < p \<and> ss_last_progress ?s = p"
  proof (cases e)
    case (SFrame now p f)
    obtain s' r where r: "session_process_frame s now p f = (s', r)" by fastforce
    then show ?thesis
      using process_frame_progress(2) [of s now p f s'] SFrame
      by (cases r) (auto simp: accepted_progress_def)
  qed (simp_all add: accepted_progress_def)
  have one: "sorted_wrt (<) (accepted_progress (e, snd (session_step s e)))"
    by (auto simp: accepted_progress_def split: session_event.splits session_output.splits
        sum.splits)
  have "snd (run_steps session_step s (e # es)) =
      snd (session_step s e) # snd (run_steps session_step ?s es)"
    by (simp add: split_beta Let_def)
  then show ?case
    using later first one Cons.IH [of ?s] by (fastforce simp: sorted_wrt_append)
qed

lemma buffered_payload_alt: "buffered_payload s = sum_list (map length (map snd (ss_buffered s)))"
  by (simp add: buffered_payload_def comp_def case_prod_beta')

section \<open>A concrete stream\<close>

definition sample_stream_options :: session_options where
  "sample_stream_options = \<lparr>sop_progress_token = ''t'', sop_max_buffered_chunks = 4,
     sop_max_buffered_bytes = 100, sop_idle_timeout_ms = 1, sop_probe_timeout_ms = 1,
     sop_close_grace_period_ms = 1, sop_has_publisher = False\<rparr>"

definition sample_stream :: "session_event list" where
  "sample_stream = [SFrame 0 1 (OsStart None), SFrame 0 2 (OsChunk 0 ''x'')]"

lemmas stream_eval = session_new_def session_process_frame_def assert_active_def
  assert_progress_def assert_started_def buffer_chunk_def flush_contiguous_chunks_def
  flush_loop.simps flush_one_def emit_def wake_stream_def contains_key_def delivered_def
  maybe_finish_gracefully_def finalize_def word_less_nat_alt

lemma sample_stream_run:
  "ss_queue (fst (run_steps session_step (session_new sample_stream_options 0) sample_stream)) =
     [''x'']"
  "delivered (snd (run_steps session_step (session_new sample_stream_options 0) sample_stream)) = []"
  "snd (session_process_frame
     (fst (run_steps session_step (session_new sample_stream_options 0) sample_stream))
     0 3 (OsClose (Some 0))) = Ok OutClosed"
  by (simp_all add: sample_stream_def sample_stream_options_def stream_eval)

section \<open>Properties\<close>

text \<open>C8. The reader sees a gap-free prefix of the stream. After any sequence of frames, ticks,
  polls, failures and cancellations of a new session, the chunks the consumer has read followed by
  those queued for it are, position by position, chunks that arrived with exactly that chunk
  index; nothing is skipped, duplicated, reordered or invented, and the next index the session
  expects is the number of chunks so far.\<close>

theorem stream_prefix:
  assumes "run_steps session_step (session_new opts t0) es = (s, outs)"
    and "c = delivered outs @ ss_queue s"
  shows "(\<forall>i<length c. (of_nat i, c ! i) \<in> heard_chunks es) \<and>
    ss_next_expected_chunk s = of_nat (length c)"
proof -
  have "observed_ok (session_new opts t0, [], {})"
    by (simp add: observed_ok_def content_inv_def session_new_def)
  then have "observed_ok (fst (run_steps observed_step (session_new opts t0, [], {}) es))"
    by (rule observed_m.run_inv)
  then show ?thesis
    using assms by (simp add: observed_run observed_ok_def content_inv_def Let_def)
qed

theorem stream_prefix_witness: "(0, ''x'') \<in> heard_chunks sample_stream"
  using stream_prefix [OF surjective_pairing refl, of sample_stream_options 0 sample_stream]
  by (simp add: sample_stream_run)

text \<open>C23. Limits and wake-ups. For every sequence of events whose payloads fit the address space, a
  session holds at most the configured number of chunks and bytes, buffered and queued together;
  its byte counters are exact; and a parked consumer has nothing to read on a live stream, so no
  wake-up is lost.\<close>

theorem session_bounds:
  assumes "fst (run_steps session_step (session_new opts t0) es) = s"
    and "list_all (event_fits (sop_max_buffered_bytes opts)) es"
  shows "length (ss_buffered s) + length (ss_queue s) \<le> sop_max_buffered_chunks opts \<and>
    sum_list (map length (map snd (ss_buffered s) @ ss_queue s)) \<le>
      unat (sop_max_buffered_bytes opts) \<and>
    unat (ss_queued_bytes s) = sum_list (map length (ss_queue s)) \<and>
    unat (ss_buffered_bytes s) = sum_list (map length (map snd (ss_buffered s))) \<and>
    (ss_waker s \<longrightarrow> ss_queue s = [] \<and> ss_active s)"
proof -
  have "session_ok (sop_max_buffered_chunks opts) (sop_max_buffered_bytes opts) s"
    unfolding assms(1) [symmetric] using session_new_ok assms(2) by (rule session_m.guarded_run_inv)
  then show ?thesis
    unfolding session_ok_def data_inv_def control_inv_def buffered_payload_alt payload_bytes_def
    by auto
qed

theorem session_bounds_witness:
  "length (ss_queue (fst (run_steps session_step (session_new sample_stream_options 0)
     sample_stream))) \<le> 4"
  using session_bounds [OF refl, of sample_stream_options sample_stream 0]
  by (simp add: event_fits_def sample_stream_def sample_stream_options_def)

text \<open>C22. A graceful close is complete. When a frame closes the stream, the consumer then
  reads the queued chunks and the end of the stream, with no error, and the chunks it has read in
  all, counted modulo \<open>2 ^ 64\<close>, are one more than the last chunk index the peer declared, if it
  declared one; no received chunk is left behind.\<close>

theorem graceful_close_complete:
  assumes "run_steps session_step (session_new opts t0) es = (s, outs)"
    and "session_process_frame s now p f = (s', Ok OutClosed)"
  shows "snd (run_steps session_step s' (replicate (length (ss_queue s') + 2) SPoll)) =
      map item (ss_queue s') @ [end_of_stream, end_of_stream] \<and>
    ss_buffered s' = [] \<and>
    (\<forall>l. ss_expected_last_chunk_index s' = Some l \<longrightarrow>
       of_nat (length (delivered outs @ ss_queue s')) = l + 1)"
proof -
  from process_frame_active [OF assms(2)] have act: "ss_active s"
    and disp: "session_dispatch (s\<lparr>ss_last_progress := p, ss_last_activity := now\<rparr>) now f =
      (s', Ok OutClosed)"
    by simp_all
  have closed: "\<not> ss_active s'" "ss_terminal s' = None" "ss_buffered s' = []"
    "\<forall>l. ss_expected_last_chunk_index s' = Some l \<longrightarrow> ss_next_expected_chunk s' = l + 1"
    using dispatch_closed [OF _ disp] act by simp_all
  have "observed_ok (session_new opts t0, [], {})"
    by (simp add: observed_ok_def content_inv_def session_new_def)
  then have "observed_ok (fst (run_steps observed_step (session_new opts t0, [], {}) es))"
    by (rule observed_m.run_inv)
  then have "content_inv (heard_chunks es) (delivered outs) s"
    using assms(1) by (simp add: observed_run observed_ok_def Let_def)
  from process_frame_content [OF this, of f now p]
  have "of_nat (length (delivered outs @ ss_queue s')) = ss_next_expected_chunk s'"
    unfolding assms(2) fst_conv content_inv_def by blast
  with closed drain_finished [OF closed(1)] show ?thesis by simp
qed

theorem graceful_close_complete_witness:
  "snd (run_steps session_step (fst (session_process_frame
       (fst (run_steps session_step (session_new sample_stream_options 0) sample_stream))
       0 3 (OsClose (Some 0)))) [SPoll, SPoll, SPoll]) =
     [item ''x'', end_of_stream, end_of_stream]"
proof -
  let ?r = "run_steps session_step (session_new sample_stream_options 0) sample_stream"
  let ?s = "fst (session_process_frame (fst ?r) 0 3 (OsClose (Some 0)))"
  have "session_process_frame (fst ?r) 0 3 (OsClose (Some 0)) = (?s, Ok OutClosed)"
    using sample_stream_run(3) by (simp add: prod_eq_iff)
  with graceful_close_complete [where s = "fst ?r" and outs = "snd ?r" and es = sample_stream
      and opts = sample_stream_options and ?t0.0 = 0 and now = 0 and p = 3
      and f = "OsClose (Some 0)" and s' = ?s]
  have "snd (run_steps session_step ?s (replicate (length (ss_queue ?s) + 2) SPoll)) =
      map item (ss_queue ?s) @ [end_of_stream, end_of_stream]"
    by simp
  moreover have "ss_queue ?s = [''x'']"
    by (simp add: sample_stream_def sample_stream_options_def stream_eval)
  ultimately show ?thesis by (simp add: numeral_2_eq_2)
qed

text \<open>The terminal error is read once and last. A session that is failed while it is live
  lets the consumer read every chunk queued so far, then the error exactly once, then the end of
  the stream; a later failure or disposal does not replace the error.\<close>

theorem terminal_error_once:
  assumes "ss_active s"
  shows "snd (run_steps session_step s
      ([SFail e, SFail e', SDispose] @ replicate (length (ss_queue s) + 2) SPoll)) =
    [SDone, SDone, SDone] @ map item (ss_queue s) @ [SItem (Ready (Some (Err e))), end_of_stream]"
proof -
  let ?s = "finalize (Some e) s"
  have "snd (run_steps session_step ?s (replicate (length (ss_queue ?s) + 2) SPoll)) =
      map item (ss_queue s) @ [SItem (Ready (Some (Err e))), end_of_stream]"
    using drain_finished [of ?s] assms by (simp add: finalize_terminal)
  then show ?thesis
    by (simp add: session_fail_def session_dispose_def split_beta Let_def
        del: replicate_Suc add_2_eq_Suc' add_2_eq_Suc)
qed

theorem terminal_error_once_witness:
  "\<exists>s. snd (run_steps session_step s [SFail (OsPolicy ''p''), SFail (OsPolicy ''q''), SDispose,
       SPoll, SPoll]) =
     [SDone, SDone, SDone, SItem (Ready (Some (Err (OsPolicy ''p'')))), end_of_stream]"
proof -
  let ?s = "session_new sample_stream_options 0"
  have "ss_active ?s" "ss_queue ?s = []" by (simp_all add: session_new_def)
  with terminal_error_once [of ?s "OsPolicy ''p''" "OsPolicy ''q''"] show ?thesis
    by (intro exI [of _ ?s]) (simp add: numeral_2_eq_2)
qed

text \<open>The outer progress orders every accepted frame: in any run of a session, the progress
  values of the frames it answered with \<open>Ok\<close> are strictly increasing, whatever kind of frame they
  belong to.\<close>

theorem accepted_frames_increasing:
  "sorted_wrt (<) (concat (map accepted_progress (zip es (snd (run_steps session_step s es)))))"
  using accepted_increasing by blast

text \<open>A silent peer is probed and then given up. On a live, started stream that the peer has
  not closed and with no probe pending, a tick at or after the idle timeout sends a ping with a
  fresh nonce. Until the probe deadline further ticks do nothing; from the deadline on a tick
  aborts the stream with a probe timeout. The matching pong, in a frame that is accepted, clears
  the probe and the stream stays live.\<close>

theorem keepalive_probe:
  assumes "ss_active s" "ss_started s" "\<not> ss_closed_remotely s" "ss_pending_probe_nonce s = None"
    and "ss_last_activity s + ss_idle_timeout s \<le> now"
    and "session_tick s now = (s1, a)"
  shows "\<exists>nonce. a = SendPing nonce \<and>
    nonce = ss_progress_token s @ '':'' @ dec_u64 (ss_control_nonce s + 1) \<and>
    (\<forall>t < now + ss_probe_timeout s. session_tick s1 t = (s1, KaNone)) \<and>
    (\<forall>t \<ge> now + ss_probe_timeout s. snd (session_tick s1 t) = KaAbort ''Probe timeout'' \<and>
       \<not> ss_active (fst (session_tick s1 t))) \<and>
    (\<forall>t p s2 out. session_process_frame s1 t p (OsPong nonce) = (s2, Ok out) \<longrightarrow>
       ss_active s2 \<and> ss_pending_probe_nonce s2 = None \<and> ss_probe_deadline s2 = None)"
proof -
  define nonce where "nonce = ss_progress_token s @ '':'' @ dec_u64 (ss_control_nonce s + 1)"
  have idle: "ss_idle_timeout s \<le> duration_since now (ss_last_activity s)"
    using assms(5) by (simp add: duration_since_def)
  have s1: "s1 = s\<lparr>ss_control_nonce := ss_control_nonce s + 1, ss_pending_probe_nonce := Some nonce,
      ss_probe_deadline := Some (now + ss_probe_timeout s)\<rparr>" and a: "a = SendPing nonce"
    using assms(1-4,6) idle
    by (auto simp: session_tick_def next_control_nonce_def Let_def nonce_def split: option.splits)
  have "session_tick s1 t = (s1, KaNone)" if "t < now + ss_probe_timeout s" for t
    using that assms(1-3) by (simp add: session_tick_def s1 split: option.splits)
  moreover have "snd (session_tick s1 t) = KaAbort ''Probe timeout'' \<and>
      \<not> ss_active (fst (session_tick s1 t))" if "now + ss_probe_timeout s \<le> t" for t
    using that assms(1) by (simp add: session_tick_def s1)
  moreover have "ss_active s2 \<and> ss_pending_probe_nonce s2 = None \<and> ss_probe_deadline s2 = None"
    if "session_process_frame s1 t p (OsPong nonce) = (s2, Ok out)" for t p s2 out
    using process_frame_active [OF that] assms(1,2)
    by (auto simp: assert_started_def handle_pong_def s1)
  ultimately show ?thesis using a nonce_def by blast
qed

theorem keepalive_probe_witness:
  "\<exists>nonce. snd (session_tick (fst (session_process_frame (session_new sample_stream_options 0) 0 1
     (OsStart None))) 1000000) = SendPing nonce"
  using keepalive_probe [OF _ _ _ _ _ surjective_pairing,
      of "fst (session_process_frame (session_new sample_stream_options 0) 0 1 (OsStart None))"
        1000000]
  by (auto simp: stream_eval sample_stream_options_def from_millis_def)

text \<open>The completeness check of \<open>maybe_finish_gracefully\<close> adds one to the declared index, which
  wraps at \<open>u64::MAX\<close>: a stream without any chunk that declares this last index is closed as
  complete.\<close>

lemma close_index_wraps:
  "snd (session_process_frame (fst (session_process_frame (session_new opts 0) 0 1 (OsStart None)))
     0 2 (OsClose (Some (- 1)))) = Ok OutClosed"
  by (simp add: stream_eval)

end
