(* ===== verification/Open_Stream_Registry.thy ===== *)
theory Open_Stream_Registry
  imports Open_Stream_Reader
begin

text \<open>
  The registry of reader sessions (\<open>src/transport/open_stream/registry.rs\<close>), its adapter
  (\<open>receiver.rs\<close>) and the configuration (\<open>mod.rs\<close>).

  A session is shared: the registry holds one handle to feed it and the consumer another to drain
  it. The model keeps the sessions in a store, \<open>rg_heap\<close>, and a handle is an index into it; an entry
  removed from the registry leaves its session in the store, where the consumer still reads it. The
  terminal hooks are identifiers, and an operation returns the hook calls it made; what a hook
  answers is logged and swallowed by the code.
\<close>

section \<open>Policy and configuration\<close>

definition DEFAULT_MAX_CONCURRENT_OPEN_STREAMS :: nat where
  "DEFAULT_MAX_CONCURRENT_OPEN_STREAMS = 64"
definition DEFAULT_MAX_BUFFERED_CHUNKS_PER_STREAM :: nat where
  "DEFAULT_MAX_BUFFERED_CHUNKS_PER_STREAM = 64"
definition DEFAULT_MAX_BUFFERED_BYTES_PER_STREAM :: nat where
  "DEFAULT_MAX_BUFFERED_BYTES_PER_STREAM = 512 * 1024"
definition DEFAULT_OPEN_STREAM_IDLE_TIMEOUT_MS :: u64 where
  "DEFAULT_OPEN_STREAM_IDLE_TIMEOUT_MS = 30000"
definition DEFAULT_OPEN_STREAM_PROBE_TIMEOUT_MS :: u64 where
  "DEFAULT_OPEN_STREAM_PROBE_TIMEOUT_MS = 20000"
definition DEFAULT_OPEN_STREAM_CLOSE_GRACE_PERIOD_MS :: u64 where
  "DEFAULT_OPEN_STREAM_CLOSE_GRACE_PERIOD_MS = 5000"

record registry_policy =
  rp_max_concurrent_streams :: nat
  rp_max_buffered_chunks_per_stream :: nat
  rp_max_buffered_bytes_per_stream :: nat
  rp_idle_timeout_ms :: u64
  rp_probe_timeout_ms :: u64
  rp_close_grace_period_ms :: u64

definition default_registry_policy :: registry_policy where
  "default_registry_policy =
     \<lparr>rp_max_concurrent_streams = DEFAULT_MAX_CONCURRENT_OPEN_STREAMS,
      rp_max_buffered_chunks_per_stream = DEFAULT_MAX_BUFFERED_CHUNKS_PER_STREAM,
      rp_max_buffered_bytes_per_stream = DEFAULT_MAX_BUFFERED_BYTES_PER_STREAM,
      rp_idle_timeout_ms = DEFAULT_OPEN_STREAM_IDLE_TIMEOUT_MS,
      rp_probe_timeout_ms = DEFAULT_OPEN_STREAM_PROBE_TIMEOUT_MS,
      rp_close_grace_period_ms = DEFAULT_OPEN_STREAM_CLOSE_GRACE_PERIOD_MS\<rparr>"

record open_stream_config =
  osc_enabled :: bool
  osc_max_concurrent_streams :: nat
  osc_max_buffered_chunks_per_stream :: nat
  osc_max_buffered_bytes_per_stream :: nat
  osc_idle_timeout_ms :: u64
  osc_probe_timeout_ms :: u64
  osc_close_grace_period_ms :: u64
  osc_max_total_timeout_ms :: "u64 option"

definition default_open_stream_config :: open_stream_config where
  "default_open_stream_config =
     \<lparr>osc_enabled = False,
      osc_max_concurrent_streams = DEFAULT_MAX_CONCURRENT_OPEN_STREAMS,
      osc_max_buffered_chunks_per_stream = DEFAULT_MAX_BUFFERED_CHUNKS_PER_STREAM,
      osc_max_buffered_bytes_per_stream = DEFAULT_MAX_BUFFERED_BYTES_PER_STREAM,
      osc_idle_timeout_ms = DEFAULT_OPEN_STREAM_IDLE_TIMEOUT_MS,
      osc_probe_timeout_ms = DEFAULT_OPEN_STREAM_PROBE_TIMEOUT_MS,
      osc_close_grace_period_ms = DEFAULT_OPEN_STREAM_CLOSE_GRACE_PERIOD_MS,
      osc_max_total_timeout_ms = None\<rparr>"

definition registry_policy_of_config :: "open_stream_config \<Rightarrow> registry_policy" where
  "registry_policy_of_config c =
     \<lparr>rp_max_concurrent_streams = osc_max_concurrent_streams c,
      rp_max_buffered_chunks_per_stream = osc_max_buffered_chunks_per_stream c,
      rp_max_buffered_bytes_per_stream = osc_max_buffered_bytes_per_stream c,
      rp_idle_timeout_ms = osc_idle_timeout_ms c,
      rp_probe_timeout_ms = osc_probe_timeout_ms c,
      rp_close_grace_period_ms = osc_close_grace_period_ms c\<rparr>"

section \<open>State\<close>

type_synonym handle = nat
type_synonym hook = nat

datatype hook_call = CloseHook hook | AbortHook hook "string option"

record session_init =
  si_has_publisher :: bool
  si_on_close :: "hook option"
  si_on_abort :: "hook option"

definition default_session_init :: session_init where
  "default_session_init = \<lparr>si_has_publisher = False, si_on_close = None, si_on_abort = None\<rparr>"

record registry_entry =
  re_session :: handle
  re_on_close :: "hook option"
  re_on_abort :: "hook option"

record registry =
  rg_policy :: registry_policy
  rg_sessions :: "(string, registry_entry) hash_map"
  rg_heap :: "session list"

definition registry_with_policy :: "registry_policy \<Rightarrow> registry" where
  "registry_with_policy policy = \<lparr>rg_policy = policy, rg_sessions = [], rg_heap = []\<rparr>"

text \<open>The \<open>Display\<close> of \<open>OpenStreamError\<close> (\<open>errors.rs\<close>).\<close>

fun open_stream_error_to_string :: "open_stream_error \<Rightarrow> string" where
  "open_stream_error_to_string (OsAbortError token reason) =
     ''Open stream aborted (token: '' @ token @ '')'' @
     (case reason of Some r \<Rightarrow> '': '' @ r | None \<Rightarrow> '''')"
| "open_stream_error_to_string (OsPolicy m) = ''Open stream policy violation: '' @ m"
| "open_stream_error_to_string (OsSequence m) = ''Open stream sequence error: '' @ m"

section \<open>Operations\<close>

definition registry_size :: "registry \<Rightarrow> nat" where
  "registry_size rg = length (rg_sessions rg)"

definition get_session :: "registry \<Rightarrow> string \<Rightarrow> handle option" where
  "get_session rg progress_token = map_option re_session (map_of (rg_sessions rg) progress_token)"

definition is_open_stream_progress :: "json_rpc_notification \<Rightarrow> bool" where
  "is_open_stream_progress n =
     (case Option.bind (ntf_params n) (\<lambda>params. json_get params ''cvm'') of
        Some v \<Rightarrow> os_is_frame_value v
      | None \<Rightarrow> False)"

definition create_session_with ::
  "registry \<Rightarrow> instant \<Rightarrow> string \<Rightarrow> session_init \<Rightarrow>
   registry \<times> (open_stream_error, handle) result" where
  "create_session_with rg now progress_token init =
     (if contains_key (rg_sessions rg) progress_token then
        (rg, Err (OsSequence (''Stream session already exists for '' @ progress_token)))
      else if length (rg_sessions rg) \<ge> rp_max_concurrent_streams (rg_policy rg) then
        (rg, Err (OsPolicy ''Maximum concurrent open streams exceeded''))
      else
        let session = session_new
              \<lparr>sop_progress_token = progress_token,
               sop_max_buffered_chunks = rp_max_buffered_chunks_per_stream (rg_policy rg),
               sop_max_buffered_bytes =
                 of_nat (rp_max_buffered_bytes_per_stream (rg_policy rg)),
               sop_idle_timeout_ms = rp_idle_timeout_ms (rg_policy rg),
               sop_probe_timeout_ms = rp_probe_timeout_ms (rg_policy rg),
               sop_close_grace_period_ms = rp_close_grace_period_ms (rg_policy rg),
               sop_has_publisher = si_has_publisher init\<rparr> now;
            h = length (rg_heap rg) in
        (rg\<lparr>rg_heap := rg_heap rg @ [session],
            rg_sessions := AList.update progress_token
              \<lparr>re_session = h, re_on_close = si_on_close init, re_on_abort = si_on_abort init\<rparr>
              (rg_sessions rg)\<rparr>,
         Ok h))"

definition create_session ::
  "registry \<Rightarrow> instant \<Rightarrow> string \<Rightarrow> registry \<times> (open_stream_error, handle) result" where
  "create_session rg now progress_token =
     create_session_with rg now progress_token default_session_init"

definition get_or_create_session ::
  "registry \<Rightarrow> instant \<Rightarrow> string \<Rightarrow> registry \<times> (open_stream_error, handle) result" where
  "get_or_create_session rg now progress_token =
     (case get_session rg progress_token of
        Some h \<Rightarrow> (rg, Ok h)
      | None \<Rightarrow> create_session rg now progress_token)"

definition run_close :: "registry \<Rightarrow> string \<Rightarrow> registry \<times> hook_call list" where
  "run_close rg progress_token =
     (case map_of (rg_sessions rg) progress_token of
        None \<Rightarrow> (rg, [])
      | Some entry \<Rightarrow>
          (rg\<lparr>rg_sessions := AList.delete progress_token (rg_sessions rg)\<rparr>,
           (case re_on_close entry of Some k \<Rightarrow> [CloseHook k] | None \<Rightarrow> [])))"

definition run_abort :: "registry \<Rightarrow> string \<Rightarrow> string option \<Rightarrow> registry \<times> hook_call list" where
  "run_abort rg progress_token reason =
     (case map_of (rg_sessions rg) progress_token of
        None \<Rightarrow> (rg, [])
      | Some entry \<Rightarrow>
          (rg\<lparr>rg_sessions := AList.delete progress_token (rg_sessions rg)\<rparr>,
           (case re_on_abort entry of Some k \<Rightarrow> [AbortHook k reason] | None \<Rightarrow> [])))"

definition consumer_abort ::
  "registry \<Rightarrow> string \<Rightarrow> string option \<Rightarrow> registry \<times> hook_call list" where
  "consumer_abort rg progress_token reason =
     (case map_of (rg_sessions rg) progress_token of
        None \<Rightarrow> (rg, [])
      | Some entry \<Rightarrow>
          let h = re_session entry in
          (rg\<lparr>rg_heap := (rg_heap rg)
                [h := session_fail (rg_heap rg ! h) (OsAbortError progress_token reason)],
              rg_sessions := AList.delete progress_token (rg_sessions rg)\<rparr>,
           (case re_on_abort entry of Some k \<Rightarrow> [AbortHook k reason] | None \<Rightarrow> [])))"

definition os_parse_progress :: "json option \<Rightarrow> string \<Rightarrow> (open_stream_error, int) result" where
  "os_parse_progress v token =
     (case (case v of
              Some (JNumber n) \<Rightarrow>
                (case number_as_i64 n of
                   Some i \<Rightarrow> Some i
                 | None \<Rightarrow> Some (f64_as_i64 (number_as_f64 n)))
            | _ \<Rightarrow> None) of
        Some p \<Rightarrow> Ok p
      | None \<Rightarrow> Err (OsSequence (''Invalid progress value (token: '' @ token @ '')'')))"

definition parse_frame ::
  "ext \<Rightarrow> json_rpc_notification \<Rightarrow>
   (open_stream_error, string \<times> int \<times> open_stream_frame) result" where
  "parse_frame X n =
     (case ntf_params n of
        None \<Rightarrow> Err (OsSequence ''Open stream frame is missing params'')
      | Some params \<Rightarrow>
     (case Option.bind (json_get params ''cvm'') os_from_cvm_value of
        None \<Rightarrow> Err (OsSequence ''Notification is not an open-stream frame'')
      | Some frame \<Rightarrow>
     (case Option.bind (json_get params ''progressToken'') (progress_token_string X) of
        None \<Rightarrow> Err (OsSequence ''Open stream frame is missing progressToken'')
      | Some token \<Rightarrow>
          if token = [] then Err (OsSequence ''Open stream frame is missing progressToken'')
          else
            (case os_parse_progress (json_get params ''progress'') token of
               Err e \<Rightarrow> Err e
             | Ok progress \<Rightarrow> Ok (token, progress, frame)))))"

text \<open>\<open>process_frame\<close> in two parts: admission, and the frame on the session it found.\<close>

definition admit_frame ::
  "registry \<Rightarrow> instant \<Rightarrow> string \<Rightarrow> open_stream_frame \<Rightarrow>
   registry \<times> (open_stream_error, bool) result" where
  "admit_frame rg now token frame =
     (if contains_key (rg_sessions rg) token then (rg, Ok True)
      else
        let ft = os_frame_type frame in
        if ft = ''start'' then
          (case create_session_with rg now token default_session_init of
             (rg', Err e) \<Rightarrow> (rg', Err e)
           | (rg', Ok _) \<Rightarrow> (rg', Ok True))
        else if ft = ''ping'' \<or> ft = ''pong'' \<or> ft = ''abort'' then (rg, Ok False)
        else (rg, Err (OsSequence (''Received '' @ ft @ '' frame before start for '' @ token))))"

definition route_frame ::
  "registry \<Rightarrow> instant \<Rightarrow> string \<Rightarrow> int \<Rightarrow> open_stream_frame \<Rightarrow>
   registry \<times> hook_call list \<times> (open_stream_error, frame_outcome) result" where
  "route_frame rg now token progress frame =
     (case map_of (rg_sessions rg) token of
        None \<Rightarrow> (rg, [], Ok OutNone)
      | Some entry \<Rightarrow>
          let h = re_session entry;
              (s', r) = session_process_frame (rg_heap rg ! h) now progress frame;
              rg1 = rg\<lparr>rg_heap := (rg_heap rg)[h := s']\<rparr> in
          (case r of
             Ok OutClosed \<Rightarrow> (let (rg2, hooks) = run_close rg1 token in (rg2, hooks, Ok OutClosed))
           | Ok (OutAborted reason) \<Rightarrow>
               (let (rg2, hooks) = run_abort rg1 token reason in
                (rg2, hooks, Ok (OutAborted reason)))
           | Ok other \<Rightarrow> (rg1, [], Ok other)
           | Err error \<Rightarrow>
               (let rg2 = rg1\<lparr>rg_heap := (rg_heap rg1)[h := session_fail (rg_heap rg1 ! h) error]\<rparr>;
                    (rg3, hooks) =
                      run_abort rg2 token (Some (open_stream_error_to_string error)) in
                (rg3, hooks, Err error))))"

definition registry_process_frame ::
  "ext \<Rightarrow> registry \<Rightarrow> instant \<Rightarrow> json_rpc_notification \<Rightarrow>
   registry \<times> hook_call list \<times> (open_stream_error, frame_outcome) result" where
  "registry_process_frame X rg now n =
     (case parse_frame X n of
        Err e \<Rightarrow> (rg, [], Err e)
      | Ok (token, progress, frame) \<Rightarrow>
          (case admit_frame rg now token frame of
             (rg1, Err e) \<Rightarrow> (rg1, [], Err e)
           | (rg1, Ok False) \<Rightarrow> (rg1, [], Ok OutNone)
           | (rg1, Ok True) \<Rightarrow> route_frame rg1 now token progress frame))"

text \<open>\<open>tick_all\<close>: the loop over the map, then the removal of the sessions that aborted.\<close>

fun tick_entries ::
  "instant \<Rightarrow> (string, registry_entry) hash_map \<Rightarrow> session list \<Rightarrow>
   session list \<times> (string \<times> keepalive_action) list" where
  "tick_entries now [] heap = (heap, [])"
| "tick_entries now ((token, entry) # rest) heap =
     (let (s', action) = session_tick (heap ! re_session entry) now;
          (heap', actions) = tick_entries now rest (heap[re_session entry := s']) in
      (heap', (if action = KaNone then actions else (token, action) # actions)))"

fun is_abort_action :: "keepalive_action \<Rightarrow> bool" where
  "is_abort_action (KaAbort reason) = True"
| "is_abort_action _ = False"

definition tick_all :: "registry \<Rightarrow> instant \<Rightarrow> registry \<times> (string \<times> keepalive_action) list" where
  "tick_all rg now =
     (let (heap', actions) = tick_entries now (rg_sessions rg) (rg_heap rg);
          aborted = map fst (filter (is_abort_action \<circ> snd) actions) in
      (rg\<lparr>rg_heap := heap', rg_sessions := fold AList.delete aborted (rg_sessions rg)\<rparr>, actions))"

fun dispose_entries ::
  "(string, registry_entry) hash_map \<Rightarrow> session list \<Rightarrow> session list" where
  "dispose_entries [] heap = heap"
| "dispose_entries ((token, entry) # rest) heap =
     dispose_entries rest (heap[re_session entry := session_dispose (heap ! re_session entry)])"

definition registry_clear :: "registry \<Rightarrow> registry" where
  "registry_clear rg =
     rg\<lparr>rg_heap := dispose_entries (rg_sessions rg) (rg_heap rg), rg_sessions := []\<rparr>"

text \<open>A consumer acts on its handle directly, past the registry.\<close>

definition handle_step :: "registry \<Rightarrow> handle \<Rightarrow> session_event \<Rightarrow> registry \<times> session_output" where
  "handle_step rg h e =
     (let (s', out) = session_step (rg_heap rg ! h) e in
      (rg\<lparr>rg_heap := (rg_heap rg)[h := s']\<rparr>, out))"

section \<open>Sessions keep their name and stay finished\<close>

lemma flush_contiguous_token [simp]:
  "ss_progress_token (fst (flush_contiguous_chunks s)) = ss_progress_token s"
  by (cases rule: flush_contiguous_cases [of s]) simp_all

lemma dispatch_token: "ss_progress_token (fst (session_dispatch s now f)) = ss_progress_token s"
proof (cases f)
  case (OsChunk k data)
  show ?thesis
  proof (cases "ss_started s")
    case True
    show ?thesis
      unfolding OsChunk dispatch_chunk [OF True]
      by (cases rule: buffer_chunk_cases [of s k data]) simp_all
  qed (simp add: OsChunk assert_started_def)
next
  case (OsClose l)
  let ?s = "s\<lparr>ss_closed_remotely := True, ss_expected_last_chunk_index := l\<rparr>"
  show ?thesis
    by (cases rule: flush_contiguous_cases [of ?s]) (simp_all add: OsClose assert_started_def)
qed (auto simp: session_simps split: sum.splits)

lemma session_step_token [simp]: "ss_progress_token (fst (session_step s e)) = ss_progress_token s"
proof (cases e)
  case (SFrame now p f)
  then show ?thesis
    by (simp add: split_beta Let_def session_process_frame_def assert_active_def
        assert_progress_def dispatch_token)
qed (simp_all add: split_beta Let_def session_tick_def session_simps poll_next_def poll_closed_def
  session_fail_def session_dispose_def session_abort_def split: list.splits option.splits)

lemma session_step_inactive: "\<not> ss_active s \<Longrightarrow> \<not> ss_active (fst (session_step s e))"
  by (cases e)
     (auto simp: split_beta Let_def session_process_frame_def assert_active_def session_tick_def
       poll_next_def poll_closed_def session_fail_def session_dispose_def session_abort_def
       split: list.splits option.splits)

lemma process_frame_terminal:
  assumes "session_process_frame s now p f = (s', r)"
    and "r = Ok OutClosed \<or> (\<exists>reason. r = Ok (OutAborted reason))"
  shows "\<not> ss_active s'"
proof -
  from assms(2) obtain out where r: "r = Ok out" by blast
  let ?s = "s\<lparr>ss_last_progress := p, ss_last_activity := now\<rparr>"
  from process_frame_active [OF assms(1) [unfolded r]]
  have act: "ss_active ?s" and disp: "session_dispatch ?s now f = (s', Ok out)" by simp_all
  show ?thesis
  proof (cases "out = OutClosed")
    case True
    with dispatch_closed [OF act] disp show ?thesis by simp
  next
    case False
    with assms(2) r obtain reason where "out = OutAborted reason" by blast
    with disp show ?thesis
      by (cases f) (auto simp: session_simps split: if_splits sum.splits prod.splits)
  qed
qed

section \<open>Invariant\<close>

text \<open>The entries are within the limit, each refers to a session of its own name, every session is
  within its limits, and a session that is not registered any more has finished, so that a
  consumer that still holds it does not wait for ever.\<close>

definition linked :: "registry \<Rightarrow> bool" where
  "linked rg \<longleftrightarrow>
     (\<forall>(token, entry) \<in> set (rg_sessions rg).
        re_session entry < length (rg_heap rg) \<and>
        ss_progress_token (rg_heap rg ! re_session entry) = token)"

definition registered :: "registry \<Rightarrow> handle set" where
  "registered rg = re_session ` snd ` set (rg_sessions rg)"

definition orphans_finished :: "registry \<Rightarrow> bool" where
  "orphans_finished rg \<longleftrightarrow>
     (\<forall>h<length (rg_heap rg). h \<notin> registered rg \<longrightarrow> \<not> ss_active (rg_heap rg ! h))"

definition stream_limits_ok :: "registry_policy \<Rightarrow> session \<Rightarrow> bool" where
  "stream_limits_ok policy s =
     session_ok (rp_max_buffered_chunks_per_stream policy)
       (of_nat (rp_max_buffered_bytes_per_stream policy)) s"

definition registry_ok :: "registry_policy \<Rightarrow> registry \<Rightarrow> bool" where
  "registry_ok policy rg \<longleftrightarrow>
     rg_policy rg = policy \<and> keys_ok (rg_sessions rg) \<and>
     length (rg_sessions rg) \<le> rp_max_concurrent_streams policy \<and>
     linked rg \<and> list_all (stream_limits_ok policy) (rg_heap rg) \<and> orphans_finished rg"

definition event_fits_policy :: "registry_policy \<Rightarrow> session_event \<Rightarrow> bool" where
  "event_fits_policy policy e = event_fits (of_nat (rp_max_buffered_bytes_per_stream policy)) e"

lemma list_all_nth_update:
  "list_all P xs \<Longrightarrow> (i < length xs \<Longrightarrow> P y) \<Longrightarrow> list_all P (xs[i := y])"
  by (cases "i < length xs") (auto simp: list_all_length nth_list_update list_update_beyond)

lemma linkedD:
  "linked rg \<Longrightarrow> (token, entry) \<in> set (rg_sessions rg) \<Longrightarrow>
     re_session entry < length (rg_heap rg) \<and>
     ss_progress_token (rg_heap rg ! re_session entry) = token"
  by (fastforce simp: linked_def)

text \<open>One event on one session of the store.\<close>

definition cell_update :: "registry \<Rightarrow> handle \<Rightarrow> session_event \<Rightarrow> registry" where
  "cell_update rg h e = rg\<lparr>rg_heap := (rg_heap rg)[h := fst (session_step (rg_heap rg ! h) e)]\<rparr>"

lemma cell_update_ok:
  assumes "registry_ok policy rg" and "event_fits_policy policy e"
  shows "registry_ok policy (cell_update rg h e)"
proof -
  have "linked (cell_update rg h e)"
    unfolding linked_def
  proof (clarify)
    fix token entry assume "(token, entry) \<in> set (rg_sessions (cell_update rg h e))"
    then have "re_session entry < length (rg_heap rg) \<and>
        ss_progress_token (rg_heap rg ! re_session entry) = token"
      using assms(1) by (intro linkedD) (simp_all add: registry_ok_def cell_update_def)
    then show "re_session entry < length (rg_heap (cell_update rg h e)) \<and>
        ss_progress_token (rg_heap (cell_update rg h e) ! re_session entry) = token"
      by (cases "h = re_session entry") (simp_all add: cell_update_def)
  qed
  moreover have "list_all (stream_limits_ok policy) (rg_heap (cell_update rg h e))"
    using assms
    by (simp add: cell_update_def, intro list_all_nth_update)
       (auto simp: registry_ok_def stream_limits_ok_def event_fits_policy_def list_all_length
         intro: session_step_ok)
  moreover have "orphans_finished (cell_update rg h e)"
    unfolding orphans_finished_def
  proof (intro allI impI)
    fix i assume i: "i < length (rg_heap (cell_update rg h e))" "i \<notin> registered (cell_update rg h e)"
    then have "\<not> ss_active (rg_heap rg ! i)"
      using assms(1)
      by (simp add: registry_ok_def orphans_finished_def registered_def cell_update_def)
    then show "\<not> ss_active (rg_heap (cell_update rg h e) ! i)"
      using i(1) session_step_inactive by (cases "h = i") (simp_all add: cell_update_def)
  qed
  ultimately show ?thesis using assms(1) by (simp add: registry_ok_def cell_update_def)
qed

lemma handle_injective:
  assumes "linked rg" "(t, e) \<in> set (rg_sessions rg)" "(u, e') \<in> set (rg_sessions rg)"
    and "re_session e = re_session e'"
  shows "t = u"
  using assms linkedD by metis

lemma remove_ok:
  assumes ok: "registry_ok policy rg"
    and fin: "\<And>entry. map_of (rg_sessions rg) token = Some entry \<Longrightarrow>
      \<not> ss_active (rg_heap rg ! re_session entry)"
  shows "registry_ok policy (rg\<lparr>rg_sessions := AList.delete token (rg_sessions rg)\<rparr>)"
    (is "registry_ok policy ?rg")
proof -
  have keys: "keys_ok (rg_sessions rg)" using ok by (simp add: registry_ok_def)
  have "linked ?rg"
    using ok by (auto simp: registry_ok_def linked_def AList.delete_eq)
  moreover have "orphans_finished ?rg"
    unfolding orphans_finished_def
  proof (intro allI impI)
    fix h assume h: "h < length (rg_heap ?rg)" "h \<notin> registered ?rg"
    show "\<not> ss_active (rg_heap ?rg ! h)"
    proof (cases "h \<in> registered rg")
      case True
      then obtain t entry where te: "(t, entry) \<in> set (rg_sessions rg)" "h = re_session entry"
        by (auto simp: registered_def)
      then have "t = token" using h(2) by (force simp: registered_def AList.delete_eq)
      then show ?thesis using fin te keys by (simp add: keys_ok_def)
    next
      case False
      then show ?thesis using ok h by (simp add: registry_ok_def orphans_finished_def)
    qed
  qed
  moreover have "length (rg_sessions ?rg) \<le> rp_max_concurrent_streams policy"
    using ok length_delete_le [of token "rg_sessions rg"] by (simp add: registry_ok_def)
  ultimately show ?thesis using ok by (simp add: registry_ok_def)
qed

lemma create_session_with_ok:
  assumes "registry_ok policy rg"
  shows "registry_ok policy (fst (create_session_with rg now token init))"
proof (cases "contains_key (rg_sessions rg) token \<or>
    rp_max_concurrent_streams (rg_policy rg) \<le> length (rg_sessions rg)")
  case True
  with assms show ?thesis by (auto simp: create_session_with_def)
next
  case False
  have "\<exists>s. rg_heap (fst (create_session_with rg now token init)) = rg_heap rg @ [s] \<and>
      stream_limits_ok policy s \<and> ss_progress_token s = token"
    using False assms
    by (auto simp: create_session_with_def Let_def registry_ok_def stream_limits_ok_def
        session_new_def session_ok_def data_inv_def buffered_payload_def control_inv_def)
  then obtain s where s: "rg_heap (fst (create_session_with rg now token init)) = rg_heap rg @ [s]"
    "stream_limits_ok policy s" "ss_progress_token s = token" by blast
  have new: "rg_sessions (fst (create_session_with rg now token init)) = rg_sessions rg @
      [(token, \<lparr>re_session = length (rg_heap rg), re_on_close = si_on_close init,
         re_on_abort = si_on_abort init\<rparr>)]"
    "rg_policy (fst (create_session_with rg now token init)) = rg_policy rg"
    using False by (simp_all add: create_session_with_def Let_def update_new)
  have "linked (fst (create_session_with rg now token init))"
    using assms s by (auto simp: linked_def new registry_ok_def nth_append)
  moreover have "orphans_finished (fst (create_session_with rg now token init))"
    using assms by (auto simp: orphans_finished_def registered_def new s(1) registry_ok_def
        nth_append less_Suc_eq)
  ultimately show ?thesis
    using assms s False
    by (auto simp: registry_ok_def new keys_ok_def contains_key_iff)
qed

section \<open>The operations keep the invariant\<close>

lemma event_fits_other [simp]:
  "event_fits_policy policy (STick now)" "event_fits_policy policy (SFail e)"
  "event_fits_policy policy SDispose" "event_fits_policy policy SPoll"
  by (simp_all add: event_fits_policy_def event_fits_def)

lemma run_terminal_ok:
  assumes "registry_ok policy rg"
    and "\<And>entry. map_of (rg_sessions rg) token = Some entry \<Longrightarrow>
      \<not> ss_active (rg_heap rg ! re_session entry)"
  shows "registry_ok policy (fst (run_close rg token))"
    and "registry_ok policy (fst (run_abort rg token reason))"
  using remove_ok [OF assms] assms(1)
  by (auto simp: run_close_def run_abort_def split: option.splits)

text \<open>A frame on a known token is one event on its cell, a failure on top when it is rejected,
  and the removal of the entry when the stream is over.\<close>

lemma route_frame_cell:
  assumes "map_of (rg_sessions rg) token = Some entry"
    and "session_process_frame (rg_heap rg ! re_session entry) now p f = (s', r)"
    and "re_session entry < length (rg_heap rg)"
  shows "route_frame rg now token p f =
    (let h = re_session entry; rg1 = cell_update rg h (SFrame now p f) in
     case r of
       Ok OutClosed \<Rightarrow> (fst (run_close rg1 token), snd (run_close rg1 token), Ok OutClosed)
     | Ok (OutAborted reason) \<Rightarrow>
         (fst (run_abort rg1 token reason), snd (run_abort rg1 token reason), Ok (OutAborted reason))
     | Ok other \<Rightarrow> (rg1, [], Ok other)
     | Err e \<Rightarrow>
         (let rg2 = cell_update rg1 h (SFail e); x = Some (open_stream_error_to_string e) in
          (fst (run_abort rg2 token x), snd (run_abort rg2 token x), Err e)))"
  using assms
  by (auto simp: route_frame_def cell_update_def Let_def split_beta split: sum.splits
      frame_outcome.splits)

lemma route_frame_ok:
  assumes ok: "registry_ok policy rg" and fits: "event_fits_policy policy (SFrame now p f)"
  shows "registry_ok policy (fst (route_frame rg now token p f))"
proof (cases "map_of (rg_sessions rg) token")
  case None
  with ok show ?thesis by (simp add: route_frame_def)
next
  case (Some entry)
  let ?h = "re_session entry"
  obtain s' r where r: "session_process_frame (rg_heap rg ! ?h) now p f = (s', r)" by fastforce
  have h: "?h < length (rg_heap rg)"
    using linkedD [of rg token entry] ok Some by (auto simp: registry_ok_def dest: map_of_SomeD)
  define rg1 where "rg1 = cell_update rg ?h (SFrame now p f)"
  have ok1: "registry_ok policy rg1" unfolding rg1_def using ok fits by (rule cell_update_ok)
  have cell: "rg_heap rg1 ! ?h = s'" "rg_sessions rg1 = rg_sessions rg"
    using h r by (simp_all add: rg1_def cell_update_def)
  show ?thesis
  proof (cases r)
    case (Inl e)
    define rg2 where "rg2 = cell_update rg1 ?h (SFail e)"
    have "registry_ok policy rg2" unfolding rg2_def using ok1 by (rule cell_update_ok) simp
    moreover have "\<not> ss_active (rg_heap rg2 ! ?h)" "rg_sessions rg2 = rg_sessions rg"
      using h cell by (simp_all add: rg2_def cell_update_def rg1_def session_fail_def)
    ultimately show ?thesis
      using route_frame_cell [OF Some r h] Inl Some run_terminal_ok(2) [of policy rg2 token]
      by (simp add: Let_def rg1_def [symmetric] rg2_def [symmetric])
  next
    case (Inr out)
    have "\<not> ss_active (rg_heap rg1 ! ?h)" if "out = OutClosed \<or> (\<exists>reason. out = OutAborted reason)"
      using process_frame_terminal [OF r] that Inr cell by auto
    then show ?thesis
      using route_frame_cell [OF Some r h] Inr Some ok1 cell run_terminal_ok [of policy rg1 token]
      by (cases out) (simp_all add: Let_def rg1_def [symmetric])
  qed
qed

lemma admit_frame_ok:
  "registry_ok policy rg \<Longrightarrow> registry_ok policy (fst (admit_frame rg now token f))"
  using create_session_with_ok [of policy rg now token default_session_init]
  by (auto simp: admit_frame_def Let_def split: prod.splits sum.splits)

text \<open>The \<open>expect\<close> of the code: after admission the session is there.\<close>

lemma admit_frame_present:
  "admit_frame rg now token f = (rg', Ok True) \<Longrightarrow> contains_key (rg_sessions rg') token"
  by (auto simp: admit_frame_def create_session_with_def contains_key_def Let_def
      split: if_splits prod.splits sum.splits)

definition notification_fits :: "ext \<Rightarrow> registry_policy \<Rightarrow> json_rpc_notification \<Rightarrow> bool" where
  "notification_fits X policy n =
     (case parse_frame X n of
        Err e \<Rightarrow> True
      | Ok (token, p, f) \<Rightarrow> event_fits_policy policy (SFrame 0 p f))"

lemma registry_process_frame_ok:
  assumes "registry_ok policy rg" and "notification_fits X policy n"
  shows "registry_ok policy (fst (registry_process_frame X rg now n))"
proof (cases "parse_frame X n")
  case (Inl e)
  with assms(1) show ?thesis by (simp add: registry_process_frame_def)
next
  case (Inr x)
  obtain token p f where x: "x = (token, p, f)" by (cases x)
  obtain rg1 a where a: "admit_frame rg now token f = (rg1, a)" by fastforce
  have ok1: "registry_ok policy rg1" using admit_frame_ok [OF assms(1), of now token f] a by simp
  have "event_fits_policy policy (SFrame now p f)"
    using assms(2) Inr x
    by (simp add: notification_fits_def event_fits_policy_def event_fits_def)
  then show ?thesis
    using Inr x a ok1 route_frame_ok [OF ok1]
    by (auto simp: registry_process_frame_def split: sum.splits bool.splits)
qed

lemma consumer_abort_ok:
  assumes "registry_ok policy rg"
  shows "registry_ok policy (fst (consumer_abort rg token reason))"
proof (cases "map_of (rg_sessions rg) token")
  case None
  with assms show ?thesis by (simp add: consumer_abort_def)
next
  case (Some entry)
  let ?rg = "cell_update rg (re_session entry) (SFail (OsAbortError token reason))"
  have h: "re_session entry < length (rg_heap rg)"
    using linkedD [of rg token entry] assms Some
    by (auto simp: registry_ok_def dest: map_of_SomeD)
  have "registry_ok policy ?rg" using assms by (rule cell_update_ok) simp
  then have "registry_ok policy (?rg\<lparr>rg_sessions := AList.delete token (rg_sessions ?rg)\<rparr>)"
    by (rule remove_ok) (use Some h in \<open>auto simp: cell_update_def session_fail_def\<close>)
  then show ?thesis using Some by (simp add: consumer_abort_def cell_update_def Let_def)
qed

lemma tick_entries_ok:
  "registry_ok policy (rg\<lparr>rg_heap := heap\<rparr>) \<Longrightarrow>
   registry_ok policy (rg\<lparr>rg_heap := fst (tick_entries now es heap)\<rparr>)"
proof (induction es arbitrary: heap)
  case Nil
  then show ?case by simp
next
  case (Cons x es)
  obtain token entry where x: "x = (token, entry)" by (cases x)
  from cell_update_ok [OF Cons.prems, of "STick now" "re_session entry"]
  have "registry_ok policy (rg\<lparr>rg_heap := heap[re_session entry :=
      fst (session_tick (heap ! re_session entry) now)]\<rparr>)"
    by (simp add: cell_update_def split_beta Let_def)
  from Cons.IH [OF this] show ?case by (simp add: x split_beta Let_def)
qed

lemma tick_inactive: "\<not> ss_active s \<Longrightarrow> \<not> ss_active (fst (session_tick s now))"
  by (simp add: session_tick_def)

lemma tick_entries_length [simp]: "length (fst (tick_entries now es heap)) = length heap"
  by (induction es arbitrary: heap) (auto simp: split_beta Let_def)

lemma tick_entries_inactive:
  "h < length heap \<Longrightarrow> \<not> ss_active (heap ! h) \<Longrightarrow>
   \<not> ss_active (fst (tick_entries now es heap) ! h)"
proof (induction es arbitrary: heap)
  case (Cons x es)
  obtain token entry where x: "x = (token, entry)" by (cases x)
  have "\<not> ss_active (heap[re_session entry := fst (session_tick (heap ! re_session entry) now)] ! h)"
    using Cons.prems tick_inactive by (cases "re_session entry = h") simp_all
  then show ?case using Cons.IH Cons.prems(1) by (simp add: x split_beta Let_def)
qed simp

lemma tick_abort_inactive: "session_tick s now = (s', KaAbort reason) \<Longrightarrow> \<not> ss_active s'"
  by (auto simp: session_tick_def session_simps split: if_splits)

lemma tick_entries_aborted:
  assumes "(token, KaAbort reason) \<in> set (snd (tick_entries now es heap))"
    and "\<forall>(t, entry) \<in> set es. re_session entry < length heap"
  shows "\<exists>entry. (token, entry) \<in> set es \<and>
    \<not> ss_active (fst (tick_entries now es heap) ! re_session entry)"
  using assms
proof (induction es arbitrary: heap)
  case (Cons x rest)
  obtain t entry where x: "x = (t, entry)" by (cases x)
  obtain s' action where s': "session_tick (heap ! re_session entry) now = (s', action)" by fastforce
  let ?heap = "heap[re_session entry := s']"
  show ?case
  proof (cases "(token, KaAbort reason) \<in> set (snd (tick_entries now rest ?heap))")
    case True
    with Cons.IH [OF True] Cons.prems(2) show ?thesis by (auto simp: x s' split_beta Let_def)
  next
    case False
    with Cons.prems(1) s' have "token = t" "action = KaAbort reason"
      by (auto simp: x split_beta Let_def split: if_splits)
    moreover from this s' have "\<not> ss_active s'" by (auto dest: tick_abort_inactive)
    ultimately show ?thesis
      using tick_entries_inactive [of "re_session entry" ?heap now rest] Cons.prems(2) s'
      by (auto simp: x split_beta Let_def)
  qed
qed simp

lemma fold_remove_ok:
  assumes "registry_ok policy rg"
    and "\<And>token entry. token \<in> set tokens \<Longrightarrow> map_of (rg_sessions rg) token = Some entry \<Longrightarrow>
      \<not> ss_active (rg_heap rg ! re_session entry)"
  shows "registry_ok policy (rg\<lparr>rg_sessions := fold AList.delete tokens (rg_sessions rg)\<rparr>)"
  using assms
proof (induction tokens arbitrary: rg)
  case Nil
  then show ?case by simp
next
  case (Cons t ts)
  let ?rg = "rg\<lparr>rg_sessions := AList.delete t (rg_sessions rg)\<rparr>"
  have "registry_ok policy ?rg" by (rule remove_ok) (use Cons.prems in auto)
  then have "registry_ok policy (?rg\<lparr>rg_sessions := fold AList.delete ts (rg_sessions ?rg)\<rparr>)"
    by (rule Cons.IH) (use Cons.prems(2) in \<open>auto split: if_splits\<close>)
  then show ?case by simp
qed

lemma tick_all_ok:
  assumes "registry_ok policy rg"
  shows "registry_ok policy (fst (tick_all rg now))"
proof -
  let ?heap = "fst (tick_entries now (rg_sessions rg) (rg_heap rg))"
  let ?rg = "rg\<lparr>rg_heap := ?heap\<rparr>"
  let ?actions = "snd (tick_entries now (rg_sessions rg) (rg_heap rg))"
  have keys: "keys_ok (rg_sessions rg)" using assms by (simp add: registry_ok_def)
  have "registry_ok policy ?rg" using assms by (intro tick_entries_ok) simp
  moreover have "\<not> ss_active (?heap ! re_session entry)"
    if "token \<in> fst ` {a \<in> set ?actions. is_abort_action (snd a)}"
      "map_of (rg_sessions rg) token = Some entry" for token entry
  proof -
    from that(1) obtain reason where "(token, KaAbort reason) \<in> set ?actions"
      by (auto elim: is_abort_action.elims)
    from tick_entries_aborted [OF this] obtain entry' where
      "(token, entry') \<in> set (rg_sessions rg)" "\<not> ss_active (?heap ! re_session entry')"
      using assms linkedD [of rg] by (fastforce simp: registry_ok_def)
    then show ?thesis using that(2) keys by (simp add: keys_ok_def)
  qed
  ultimately have "registry_ok policy (?rg\<lparr>rg_sessions := fold AList.delete
      (map fst (filter (is_abort_action \<circ> snd) ?actions)) (rg_sessions ?rg)\<rparr>)"
    by (intro fold_remove_ok) simp_all
  then show ?thesis by (simp add: tick_all_def split_beta Let_def)
qed

lemma dispose_entries_ok:
  "registry_ok policy (rg\<lparr>rg_heap := heap\<rparr>) \<Longrightarrow>
   registry_ok policy (rg\<lparr>rg_heap := dispose_entries es heap\<rparr>)"
proof (induction es arbitrary: heap)
  case (Cons x es)
  obtain token entry where x: "x = (token, entry)" by (cases x)
  from cell_update_ok [OF Cons.prems, of SDispose "re_session entry"]
  have "registry_ok policy (rg\<lparr>rg_heap :=
      heap[re_session entry := session_dispose (heap ! re_session entry)]\<rparr>)"
    by (simp add: cell_update_def)
  from Cons.IH [OF this] show ?case by (simp add: x)
qed simp

lemma dispose_entries_inactive:
  assumes "\<forall>(t, entry) \<in> set es. re_session entry < length heap" and "h < length heap"
    and "h \<in> re_session ` snd ` set es \<or> \<not> ss_active (heap ! h)"
  shows "\<not> ss_active (dispose_entries es heap ! h)"
  using assms
proof (induction es arbitrary: heap)
  case (Cons x es)
  obtain token entry where x: "x = (token, entry)" by (cases x)
  let ?heap = "heap[re_session entry := session_dispose (heap ! re_session entry)]"
  have "\<not> ss_active (?heap ! h)" if "re_session entry = h \<or> \<not> ss_active (heap ! h)"
    using that Cons.prems(2)
    by (cases "re_session entry = h") (simp_all add: session_dispose_def)
  with Cons.IH [of ?heap] Cons.prems show ?case by (auto simp: x)
qed simp

lemma dispose_entries_length [simp]:
  "length (dispose_entries es heap) = length heap"
  by (induction es arbitrary: heap) auto

lemma registry_clear_ok:
  assumes "registry_ok policy rg"
  shows "registry_ok policy (registry_clear rg)"
proof -
  let ?heap = "rg_heap (registry_clear rg)"
  have bound: "\<forall>(t, entry) \<in> set (rg_sessions rg). re_session entry < length (rg_heap rg)"
    using assms by (fastforce simp: registry_ok_def linked_def)
  have "registry_ok policy (rg\<lparr>rg_heap := ?heap\<rparr>)"
    using dispose_entries_ok [where rg = rg and heap = "rg_heap rg" and es = "rg_sessions rg"] assms
    by (simp add: registry_clear_def)
  moreover have "orphans_finished (registry_clear rg)"
    using dispose_entries_inactive [OF bound] assms
    unfolding orphans_finished_def registered_def registry_clear_def registry_ok_def
    by simp blast
  ultimately show ?thesis
    by (simp add: registry_ok_def registry_clear_def linked_def)
qed

section \<open>The registry as a state machine\<close>

datatype registry_event =
    RgFrame instant json_rpc_notification
  | RgCreate instant string session_init
  | RgGetOrCreate instant string
  | RgTick instant
  | RgClear
  | RgConsumerAbort string "string option"
  | RgHandle handle session_event

fun registry_step :: "ext \<Rightarrow> registry \<Rightarrow> registry_event \<Rightarrow> registry \<times> hook_call list" where
  "registry_step X rg (RgFrame now n) =
     (let (rg', hooks, r) = registry_process_frame X rg now n in (rg', hooks))"
| "registry_step X rg (RgCreate now token init) =
     (fst (create_session_with rg now token init), [])"
| "registry_step X rg (RgGetOrCreate now token) = (fst (get_or_create_session rg now token), [])"
| "registry_step X rg (RgTick now) = (fst (tick_all rg now), [])"
| "registry_step X rg RgClear = (registry_clear rg, [])"
| "registry_step X rg (RgConsumerAbort token reason) = consumer_abort rg token reason"
| "registry_step X rg (RgHandle h e) = (fst (handle_step rg h e), [])"

fun registry_event_fits :: "ext \<Rightarrow> registry_policy \<Rightarrow> registry_event \<Rightarrow> bool" where
  "registry_event_fits X policy (RgFrame now n) = notification_fits X policy n"
| "registry_event_fits X policy (RgHandle h e) = event_fits_policy policy e"
| "registry_event_fits X policy _ = True"

lemma registry_step_ok:
  assumes "registry_ok policy rg" and "registry_event_fits X policy e"
  shows "registry_ok policy (fst (registry_step X rg e))"
proof (cases e)
  case (RgFrame now n)
  with assms show ?thesis by (simp add: split_beta Let_def registry_process_frame_ok)
next
  case (RgHandle h ev)
  with assms cell_update_ok [of policy rg ev h] show ?thesis
    by (simp add: handle_step_def cell_update_def split_beta Let_def)
next
  case (RgGetOrCreate now token)
  with assms show ?thesis
    by (simp add: get_or_create_session_def create_session_def create_session_with_ok
        split: option.splits)
qed (use assms in \<open>simp_all add: create_session_with_ok tick_all_ok registry_clear_ok
  consumer_abort_ok\<close>)

interpretation registry_m: guarded_machine "registry_step X" "registry_event_fits X policy"
  "registry_ok policy"
  by unfold_locales (rule registry_step_ok)

lemma registry_new_ok: "registry_ok policy (registry_with_policy policy)"
  by (simp add: registry_ok_def registry_with_policy_def linked_def orphans_finished_def)

section \<open>What one frame does\<close>

definition hooks_of ::
  "registry_entry option \<Rightarrow> (open_stream_error, frame_outcome) result \<Rightarrow> hook_call list" where
  "hooks_of entry r =
     (case entry of
        None \<Rightarrow> []
      | Some e \<Rightarrow>
          (case r of
             Ok OutClosed \<Rightarrow> (case re_on_close e of Some k \<Rightarrow> [CloseHook k] | None \<Rightarrow> [])
           | Ok (OutAborted reason) \<Rightarrow>
               (case re_on_abort e of Some k \<Rightarrow> [AbortHook k reason] | None \<Rightarrow> [])
           | Err x \<Rightarrow>
               (case re_on_abort e of
                  Some k \<Rightarrow> [AbortHook k (Some (open_stream_error_to_string x))] | None \<Rightarrow> [])
           | _ \<Rightarrow> []))"

definition is_final :: "(open_stream_error, frame_outcome) result \<Rightarrow> bool" where
  "is_final r = (case r of Err e \<Rightarrow> True | Ok OutClosed \<Rightarrow> True | Ok (OutAborted x) \<Rightarrow> True | _ \<Rightarrow> False)"

text \<open>A rejected frame leaves the session live; it is the registry that fails it.\<close>

lemma dispatch_err_active:
  assumes "session_dispatch s now f = (s', Err e)" and "ss_active s"
  shows "ss_active s'"
proof (cases f)
  case (OsChunk k data)
  show ?thesis
  proof (cases "ss_started s")
    case True
    show ?thesis
    proof (cases rule: buffer_chunk_cases [of s k data])
      case (rejected e')
      with assms OsChunk True show ?thesis by (simp add: assert_started_def)
    next
      case buffered
      show ?thesis
        by (cases rule: flush_contiguous_cases [of "with_chunk s k data"])
           (use assms OsChunk True buffered(1) in \<open>auto simp: assert_started_def\<close>)
    qed
  qed (use assms OsChunk in \<open>simp add: assert_started_def\<close>)
next
  case (OsClose l)
  let ?s = "s\<lparr>ss_closed_remotely := True, ss_expected_last_chunk_index := l\<rparr>"
  show ?thesis
    by (cases rule: flush_contiguous_cases [of ?s])
       (use assms OsClose in \<open>auto simp: assert_started_def split: if_splits\<close>)
qed (use assms in \<open>auto simp: session_simps split: sum.splits if_splits\<close>)

lemma process_frame_err_active:
  "session_process_frame s now p f = (s', Err e) \<Longrightarrow> ss_active s \<Longrightarrow> ss_active s'"
  by (auto simp: session_process_frame_def assert_active_def assert_progress_def
      split: if_splits dest: dispatch_err_active)

lemma route_frame_effect:
  assumes "map_of (rg_sessions rg) token = Some entry" and "re_session entry < length (rg_heap rg)"
    and "route_frame rg now token p f = (rg', hooks, r)"
  shows "rg_sessions rg' = (if is_final r then AList.delete token (rg_sessions rg) else rg_sessions rg)"
    and "\<exists>s. rg_heap rg' = (rg_heap rg)[re_session entry := s] \<and> (is_final r \<longrightarrow> \<not> ss_active s) \<and>
      (\<forall>e. r = Err e \<and> ss_active (rg_heap rg ! re_session entry) \<longrightarrow> ss_terminal s = Some e)"
    and "hooks = hooks_of (Some entry) r"
proof -
  let ?h = "re_session entry"
  obtain s' r' where r': "session_process_frame (rg_heap rg ! ?h) now p f = (s', r')" by fastforce
  have step: "fst (session_step (rg_heap rg ! ?h) (SFrame now p f)) = s'" by (simp add: r')
  note eq = route_frame_cell [OF assms(1) r' assms(2)]
  have same: "r = r'"
    using eq assms(3) by (auto simp: Let_def split: sum.splits frame_outcome.splits)
  show "rg_sessions rg' = (if is_final r then AList.delete token (rg_sessions rg) else rg_sessions rg)"
    using eq assms(1,3) same
    by (auto simp: is_final_def run_close_def run_abort_def cell_update_def Let_def
        split: sum.splits frame_outcome.splits)
  show "hooks = hooks_of (Some entry) r"
    using eq assms(1,3) same
    by (auto simp: hooks_of_def run_close_def run_abort_def cell_update_def Let_def
        split: sum.splits frame_outcome.splits)
  show "\<exists>s. rg_heap rg' = (rg_heap rg)[?h := s] \<and> (is_final r \<longrightarrow> \<not> ss_active s) \<and>
      (\<forall>e. r = Err e \<and> ss_active (rg_heap rg ! ?h) \<longrightarrow> ss_terminal s = Some e)"
  proof (cases r')
    case (Inl e)
    then have "rg_heap rg' = (rg_heap rg)[?h := session_fail s' e]"
      using eq assms same step
      by (auto simp: run_abort_def cell_update_def Let_def simp del: session_step.simps)
         (simp add: session_fail_def)
    then show ?thesis
      using Inl same process_frame_err_active [OF r' [unfolded Inl]]
      by (intro exI [of _ "session_fail s' e"]) (auto simp: session_fail_def finalize_terminal)
  next
    case (Inr out)
    then have "rg_heap rg' = (rg_heap rg)[?h := s']"
      using eq assms same step
      by (cases out) (auto simp: run_close_def run_abort_def cell_update_def Let_def
          simp del: session_step.simps)
    then show ?thesis
      using Inr same process_frame_terminal [OF r']
      by (intro exI [of _ s']) (auto simp: is_final_def split: frame_outcome.splits)
  qed
qed

lemma parse_frame_into [simp]:
  "t \<noteq> [] \<Longrightarrow> unat p < 2 ^ 63 \<Longrightarrow>
   parse_frame X (os_into_progress_notification f t p msg) = Ok (t, int (unat p), f)"
  by (cases msg)
     (simp_all add: parse_frame_def os_into_progress_notification_def os_parse_progress_def)

text \<open>A frame for a token without a session: nothing happens, or a session is created for it.\<close>

lemma new_token_effect:
  assumes new: "\<not> contains_key (rg_sessions rg) token"
    and "parse_frame X n = Ok (token, p, f)"
    and "registry_process_frame X rg now n = (rg', hooks, r)"
  shows "hooks = [] \<and>
    (rg' = rg \<or>
     (\<exists>s. rg_heap rg' = rg_heap rg @ [s]) \<and>
     (\<exists>entry. rg_sessions rg' = (if is_final r then rg_sessions rg else rg_sessions rg @ [(token, entry)])))"
proof (cases "os_frame_type f = ''start'' \<and>
    length (rg_sessions rg) < rp_max_concurrent_streams (rg_policy rg)")
  case False
  then show ?thesis
    using assms by (auto simp: registry_process_frame_def admit_frame_def create_session_with_def
        Let_def split: if_splits)
next
  case True
  define entry where "entry = \<lparr>re_session = length (rg_heap rg), re_on_close = None, re_on_abort = None\<rparr>"
  define rg1 where "rg1 = fst (create_session_with rg now token default_session_init)"
  have rg1: "rg_sessions rg1 = rg_sessions rg @ [(token, entry)]"
    "\<exists>s. rg_heap rg1 = rg_heap rg @ [s]"
    using True new
    by (simp_all add: rg1_def entry_def create_session_with_def default_session_init_def Let_def
        update_new)
  have "admit_frame rg now token f = (rg1, Ok True)"
    using True new by (simp add: admit_frame_def rg1_def create_session_with_def Let_def)
  with assms(2,3) have route: "route_frame rg1 now token p f = (rg', hooks, r)"
    by (simp add: registry_process_frame_def)
  have e: "map_of (rg_sessions rg1) token = Some entry"
    using new by (simp add: rg1(1) contains_key_def map_add_def)
  have h: "re_session entry < length (rg_heap rg1)" using rg1(2) by (auto simp: entry_def)
  note eff = route_frame_effect [OF e h route]
  have "hooks = []" using eff(3) by (simp add: hooks_of_def entry_def split: sum.splits frame_outcome.splits)
  moreover have "AList.delete token (rg_sessions rg1) = rg_sessions rg"
    using new delete_notin [OF new] by (simp add: rg1(1) AList.delete_eq)
  moreover obtain s where "rg_heap rg' = rg_heap rg @ [s]"
    using eff(2) rg1(2) by (auto simp: entry_def)
  ultimately show ?thesis using eff(1) rg1(1) by auto
qed

section \<open>Properties\<close>

text \<open>C20. The registry invariant. After any sequence of frames, creations, sweeps, clears, cancels and
  direct consumer operations on a new registry, whose payloads fit the address space, the number of
  registered streams and the bytes they hold are within the policy; two tokens never share a
  session and each token's session carries its name; and every session handed out that is not
  registered any more has finished, so its consumer cannot wait for ever.\<close>

theorem registry_invariant:
  assumes "fst (run_steps (registry_step X) (registry_with_policy policy) es) = rg"
    and "list_all (registry_event_fits X policy) es"
  shows "registry_size rg \<le> rp_max_concurrent_streams policy \<and>
    (\<forall>h<length (rg_heap rg).
       sum_list (map length (map snd (ss_buffered (rg_heap rg ! h)) @ ss_queue (rg_heap rg ! h)))
         \<le> rp_max_buffered_bytes_per_stream policy) \<and>
    (\<forall>t h. get_session rg t = Some h \<longrightarrow>
       h < length (rg_heap rg) \<and> ss_progress_token (rg_heap rg ! h) = t) \<and>
    (\<forall>h<length (rg_heap rg). (\<forall>t. get_session rg t \<noteq> Some h) \<longrightarrow> \<not> ss_active (rg_heap rg ! h))"
proof -
  have ok: "registry_ok policy rg"
    unfolding assms(1) [symmetric] using registry_new_ok assms(2) by (rule registry_m.guarded_run_inv)
  have "unat (of_nat (rp_max_buffered_bytes_per_stream policy) :: u64) \<le>
      rp_max_buffered_bytes_per_stream policy"
    by (simp add: unat_of_nat)
  then have bytes: "sum_list (map length (map snd (ss_buffered s) @ ss_queue s)) \<le>
      rp_max_buffered_bytes_per_stream policy" if "stream_limits_ok policy s" for s
    using that
    by (auto simp: stream_limits_ok_def session_ok_def data_inv_def buffered_payload_alt
        payload_bytes_def)
  have keys: "get_session rg t = Some h \<longleftrightarrow> (\<exists>entry. (t, entry) \<in> set (rg_sessions rg) \<and> re_session entry = h)"
    for t h
    using ok by (auto simp: get_session_def registry_ok_def keys_ok_def)
  have "\<not> ss_active (rg_heap rg ! h)"
    if "h < length (rg_heap rg)" "\<forall>t. get_session rg t \<noteq> Some h" for h
  proof -
    have "h \<notin> registered rg" using that(2) unfolding keys by (force simp: registered_def)
    with ok that(1) show ?thesis by (simp add: registry_ok_def orphans_finished_def)
  qed
  then show ?thesis
    using ok bytes linkedD [of rg] unfolding keys
    by (auto simp: registry_ok_def registry_size_def list_all_length)
qed

text \<open>C21. One frame, one stream. A frame that parses for a token leaves every other token's entry
  and session as they were. When it is rejected, or closes or aborts the stream, the token is not
  registered afterwards, the session it had has finished, and a rejected frame's error is what the
  consumer of a live stream will read. The hooks that run are those of the entry for this outcome,
  with the peer's reason or the error as text.\<close>

theorem registry_frame_contained:
  assumes "fst (run_steps (registry_step X) (registry_with_policy policy) es) = rg"
    and "list_all (registry_event_fits X policy) es"
    and "parse_frame X n = Ok (token, p, f)"
    and "registry_process_frame X rg now n = (rg', hooks, r)"
  shows "(\<forall>t h. t \<noteq> token \<and> get_session rg t = Some h \<longrightarrow>
       get_session rg' t = Some h \<and> rg_heap rg' ! h = rg_heap rg ! h) \<and>
    (\<forall>t. t \<noteq> token \<and> get_session rg t = None \<longrightarrow> get_session rg' t = None) \<and>
    (is_final r \<longrightarrow> get_session rg' token = None \<and>
       (\<forall>h. get_session rg token = Some h \<longrightarrow> \<not> ss_active (rg_heap rg' ! h))) \<and>
    (\<forall>h e. get_session rg token = Some h \<and> ss_active (rg_heap rg ! h) \<and> r = Err e \<longrightarrow>
       ss_terminal (rg_heap rg' ! h) = Some e) \<and>
    hooks = hooks_of (map_of (rg_sessions rg) token) r"
proof -
  have ok: "registry_ok policy rg"
    unfolding assms(1) [symmetric] using registry_new_ok assms(2) by (rule registry_m.guarded_run_inv)
  show ?thesis
  proof (cases "contains_key (rg_sessions rg) token")
    case True
    then obtain entry where e: "map_of (rg_sessions rg) token = Some entry"
      by (auto simp: contains_key_def)
    have h: "re_session entry < length (rg_heap rg)"
      using linkedD [of rg token entry] ok e by (auto simp: registry_ok_def dest: map_of_SomeD)
    have route: "route_frame rg now token p f = (rg', hooks, r)"
      using assms(3,4) True by (simp add: registry_process_frame_def admit_frame_def)
    note eff = route_frame_effect [OF e h route]
    have other: "re_session entry \<noteq> re_session z"
      if "t \<noteq> token" "map_of (rg_sessions rg) t = Some z" for t z
      using that handle_injective [of rg t z token entry] ok e
      by (auto simp: registry_ok_def dest!: map_of_SomeD)
    from eff(2) obtain s where s: "rg_heap rg' = (rg_heap rg)[re_session entry := s]"
      "is_final r \<longrightarrow> \<not> ss_active s"
      "\<forall>e. r = Err e \<and> ss_active (rg_heap rg ! re_session entry) \<longrightarrow> ss_terminal s = Some e"
      by blast
    show ?thesis
      using eff(1,3) s e h other by (auto simp: get_session_def)
  next
    case False
    have "re_session z < length (rg_heap rg)" if "map_of (rg_sessions rg) t = Some z" for t z
      using that linkedD [of rg t z] ok by (auto simp: registry_ok_def dest: map_of_SomeD)
    with False new_token_effect [OF False assms(3,4)] show ?thesis
      by (auto simp: get_session_def contains_key_def hooks_of_def nth_append map_add_def
          split: option.splits)
  qed
qed

text \<open>The sample registry: one stream open, one chunk received.\<close>

definition sample_registry_events :: "registry_event list" where
  "sample_registry_events =
     [RgFrame 0 (os_into_progress_notification (OsStart None) ''t'' 1 None),
      RgFrame 0 (os_into_progress_notification (OsChunk 0 ''x'') ''t'' 2 None)]"

lemma sample_registry_fits:
  "list_all (registry_event_fits X default_registry_policy) sample_registry_events"
  by (simp add: sample_registry_events_def notification_fits_def event_fits_policy_def
      event_fits_def default_registry_policy_def DEFAULT_MAX_BUFFERED_BYTES_PER_STREAM_def)

theorem registry_invariant_witness:
  "registry_size (fst (run_steps (registry_step plain_ext) (registry_with_policy default_registry_policy)
     sample_registry_events)) \<le> 64"
  using registry_invariant [OF refl sample_registry_fits]
  by (simp add: default_registry_policy_def DEFAULT_MAX_CONCURRENT_OPEN_STREAMS_def)

lemmas registry_eval = registry_process_frame_def admit_frame_def create_session_with_def
  route_frame_def run_close_def run_abort_def registry_with_policy_def default_session_init_def
  default_registry_policy_def DEFAULT_MAX_CONCURRENT_OPEN_STREAMS_def
  DEFAULT_MAX_BUFFERED_CHUNKS_PER_STREAM_def DEFAULT_MAX_BUFFERED_BYTES_PER_STREAM_def
  get_session_def is_final_def

text \<open>The second frame once more: its progress does not increase, and the stream is failed.\<close>

theorem registry_frame_contained_witness:
  "get_session (fst (registry_process_frame plain_ext
     (fst (run_steps (registry_step plain_ext) (registry_with_policy default_registry_policy)
       sample_registry_events)) 0
     (os_into_progress_notification (OsChunk 0 ''x'') ''t'' 2 None))) ''t'' = None"
proof -
  let ?rg = "fst (run_steps (registry_step plain_ext) (registry_with_policy default_registry_policy)
       sample_registry_events)"
  let ?n = "os_into_progress_notification (OsChunk 0 ''x'') ''t'' 2 None"
  obtain rg' hooks r where r: "registry_process_frame plain_ext ?rg 0 ?n = (rg', hooks, r)"
    by (metis prod_cases3)
  have "is_final (snd (snd (registry_process_frame plain_ext ?rg 0 ?n)))"
    by (simp add: sample_registry_events_def registry_eval stream_eval)
  moreover have "parse_frame plain_ext ?n = Ok (''t'', 2, OsChunk 0 ''x'')" by simp
  ultimately show ?thesis
    using registry_frame_contained [OF refl sample_registry_fits _ r] r by simp
qed

end
