(* ===== verification/Open_Stream_Writer.thy ===== *)
theory Open_Stream_Writer
  imports Open_Stream_Registry "HOL-Library.Multiset"
begin

text \<open>
  The producer side of an open stream (\<open>src/transport/open_stream/writer.rs\<close>).

  The asynchronous methods run concurrently. \<open>start\<close>, \<open>write\<close>, \<open>ping\<close>, \<open>pong\<close> and \<open>close\<close> hold the
  \<open>op\<close> mutex from their first line to their return, \<open>abort\<close> and \<open>send_probe\<close> do not take it, and the
  liveness flag and the counters are atomics that all of them use. So a method is a small program
  with a program counter, one step per access to an atomic and one step per publication, and any
  number of them interleave. The publisher's answer is an argument of the step that publishes; a
  method stuck in its publication is one whose step is not scheduled. \<open>tick\<close>, \<open>ack_probe\<close> and
  \<open>dispose\<close> do not wait and are single steps.
\<close>

section \<open>State\<close>

type_synonym publish_result = "(string, unit) result"

record writer_options =
  wo_progress_token :: string
  wo_content_type :: "string option"
  wo_on_close :: "hook option"
  wo_on_abort :: "hook option"
  wo_idle_timeout :: "duration option"
  wo_probe_timeout :: duration

record writer =
  wr_progress_token :: string
  wr_content_type :: "string option"
  wr_on_close :: "hook option"
  wr_on_abort :: "hook option"
  wr_locked :: bool
  wr_chunk_index :: u64
  wr_progress :: u64
  wr_control_nonce :: u64
  wr_active :: bool
  wr_started :: bool
  wr_idle_timeout :: "duration option"
  wr_probe_timeout :: duration
  wr_last_activity :: instant
  wr_pending_probe_nonce :: "string option"
  wr_probe_deadline :: "instant option"

definition writer_new :: "writer_options \<Rightarrow> instant \<Rightarrow> writer" where
  "writer_new options now =
     \<lparr>wr_progress_token = wo_progress_token options,
      wr_content_type = wo_content_type options,
      wr_on_close = wo_on_close options, wr_on_abort = wo_on_abort options,
      wr_locked = False, wr_chunk_index = 0, wr_progress = 0, wr_control_nonce = 0,
      wr_active = True, wr_started = False,
      wr_idle_timeout = wo_idle_timeout options, wr_probe_timeout = wo_probe_timeout options,
      wr_last_activity = now, wr_pending_probe_nonce = None, wr_probe_deadline = None\<rparr>"

datatype writer_op =
    WStart
  | WWrite string
  | WPing
  | WPong string
  | WClose
  | WAbort "string option"
  | WProbe string

datatype wpc =
    PLock
  | PStarted
  | PStartActive
  | PStartMint
  | PStartPublish u64
  | PGo
  | PNonce
  | PTouch
  | PMint open_stream_frame
  | PPublish u64 open_stream_frame
  | PHook publish_result
  | PDone publish_result

text \<open>What a step lets the world see: a frame handed to the publisher with its progress, and
  whether the publisher accepted it, or a hook call.\<close>

datatype emission =
    EFrame u64 open_stream_frame bool
  | EHook hook_call

type_synonym step_result = "writer \<times> wpc \<times> emission list"

definition frame_notification :: "writer \<Rightarrow> u64 \<Rightarrow> open_stream_frame \<Rightarrow> json_rpc_notification" where
  "frame_notification w progress f =
     os_into_progress_notification f (wr_progress_token w) progress None"

fun is_ok :: "publish_result \<Rightarrow> bool" where
  "is_ok (Inr u) = True"
| "is_ok (Inl e) = False"

section \<open>Steps shared by the methods\<close>

definition acquire :: "writer \<Rightarrow> wpc \<Rightarrow> step_result option" where
  "acquire w next = (if wr_locked w then None else Some (w\<lparr>wr_locked := True\<rparr>, next, []))"

definition release :: "writer \<Rightarrow> publish_result \<Rightarrow> emission list \<Rightarrow> step_result option" where
  "release w r out = Some (w\<lparr>wr_locked := False\<rparr>, PDone r, out)"

definition next_progress :: "writer \<Rightarrow> open_stream_frame \<Rightarrow> step_result option" where
  "next_progress w f =
     Some (w\<lparr>wr_progress := wr_progress w + 1\<rparr>, PPublish (wr_progress w + 1) f, [])"

definition control_nonce :: "writer \<Rightarrow> writer \<times> string" where
  "control_nonce w =
     (let w' = w\<lparr>wr_control_nonce := wr_control_nonce w + 1\<rparr> in
      (w', wr_progress_token w @ '':'' @ dec_u64 (wr_control_nonce w')))"

text \<open>\<open>start_internal\<close>: on success the caller goes on at \<open>PGo\<close>, on a failed publication the whole
  method returns the error.\<close>

fun start_internal :: "writer \<Rightarrow> instant \<Rightarrow> publish_result \<Rightarrow> wpc \<Rightarrow> step_result option" where
  "start_internal w now pub PStarted =
     Some (w, (if wr_started w then PGo else PStartActive), [])"
| "start_internal w now pub PStartActive =
     Some (w, (if \<not> wr_active w then PGo else PStartMint), [])"
| "start_internal w now pub PStartMint =
     Some (w\<lparr>wr_progress := wr_progress w + 1\<rparr>, PStartPublish (wr_progress w + 1), [])"
| "start_internal w now pub (PStartPublish progress) =
     (let out = [EFrame progress (OsStart (wr_content_type w)) (is_ok pub)] in
      case pub of
        Err e \<Rightarrow> release w (Err e) out
      | Ok _ \<Rightarrow>
          let w1 = w\<lparr>wr_started := True\<rparr> in
          Some (if wr_idle_timeout w1 \<noteq> None then w1\<lparr>wr_last_activity := now\<rparr> else w1, PGo, out))"
| "start_internal w now pub _ = None"

section \<open>Methods\<close>

fun start_step :: "writer \<Rightarrow> instant \<Rightarrow> publish_result \<Rightarrow> wpc \<Rightarrow> step_result option" where
  "start_step w now pub PLock = acquire w PStarted"
| "start_step w now pub PGo = release w (Ok ()) []"
| "start_step w now pub pc = start_internal w now pub pc"

fun write_step :: "string \<Rightarrow> writer \<Rightarrow> instant \<Rightarrow> publish_result \<Rightarrow> wpc \<Rightarrow> step_result option" where
  "write_step data w now pub PLock = acquire w PStarted"
| "write_step data w now pub PGo =
     (if \<not> wr_active w then release w (Ok ()) []
      else Some (w, PMint (OsChunk (wr_chunk_index w) data), []))"
| "write_step data w now pub (PMint f) = next_progress w f"
| "write_step data w now pub (PPublish progress f) =
     (let out = [EFrame progress f (is_ok pub)] in
      case pub of
        Err e \<Rightarrow> release w (Err e) out
      | Ok _ \<Rightarrow> release (w\<lparr>wr_chunk_index := wr_chunk_index w + 1\<rparr>) (Ok ()) out)"
| "write_step data w now pub pc = start_internal w now pub pc"

fun ping_step :: "writer \<Rightarrow> instant \<Rightarrow> publish_result \<Rightarrow> wpc \<Rightarrow> step_result option" where
  "ping_step w now pub PLock = acquire w PGo"
| "ping_step w now pub PGo =
     (if \<not> wr_active w then release w (Ok ()) [] else Some (w, PNonce, []))"
| "ping_step w now pub PNonce = (let (w', nonce) = control_nonce w in Some (w', PMint (OsPing nonce), []))"
| "ping_step w now pub (PMint f) = next_progress w f"
| "ping_step w now pub (PPublish progress f) = release w pub [EFrame progress f (is_ok pub)]"
| "ping_step w now pub _ = None"

fun pong_step :: "string \<Rightarrow> writer \<Rightarrow> instant \<Rightarrow> publish_result \<Rightarrow> wpc \<Rightarrow> step_result option" where
  "pong_step nonce w now pub PLock = acquire w PGo"
| "pong_step nonce w now pub PGo =
     (if \<not> wr_active w then release w (Ok ()) [] else Some (w, PTouch, []))"
| "pong_step nonce w now pub PTouch =
     Some (if wr_idle_timeout w \<noteq> None then w\<lparr>wr_last_activity := now\<rparr> else w,
           PMint (OsPong nonce), [])"
| "pong_step nonce w now pub (PMint f) = next_progress w f"
| "pong_step nonce w now pub (PPublish progress f) = release w pub [EFrame progress f (is_ok pub)]"
| "pong_step nonce w now pub _ = None"

fun close_step :: "writer \<Rightarrow> instant \<Rightarrow> publish_result \<Rightarrow> wpc \<Rightarrow> step_result option" where
  "close_step w now pub PLock = acquire w PStarted"
| "close_step w now pub PGo =
     (if \<not> wr_active w then release w (Ok ()) []
      else
        let last_chunk_index =
              (if wr_chunk_index w > 0 then Some (wr_chunk_index w - 1) else None) in
        Some (w\<lparr>wr_active := False\<rparr>, PMint (OsClose last_chunk_index), []))"
| "close_step w now pub (PMint f) = next_progress w f"
| "close_step w now pub (PPublish progress f) =
     Some (w, PHook pub, [EFrame progress f (is_ok pub)])"
| "close_step w now pub (PHook r) =
     release w r (case wr_on_close w of Some k \<Rightarrow> [EHook (CloseHook k)] | None \<Rightarrow> [])"
| "close_step w now pub pc = start_internal w now pub pc"

fun abort_step ::
  "string option \<Rightarrow> writer \<Rightarrow> instant \<Rightarrow> publish_result \<Rightarrow> wpc \<Rightarrow> step_result option" where
  "abort_step reason w now pub PGo =
     (if \<not> wr_active w then Some (w, PDone (Ok ()), [])
      else Some (w\<lparr>wr_active := False\<rparr>, PMint (OsAbort reason), []))"
| "abort_step reason w now pub (PMint f) = next_progress w f"
| "abort_step reason w now pub (PPublish progress f) =
     Some (w, PHook pub, [EFrame progress f (is_ok pub)])"
| "abort_step reason w now pub (PHook r) =
     Some (w, PDone r, (case wr_on_abort w of Some k \<Rightarrow> [EHook (AbortHook k reason)] | None \<Rightarrow> []))"
| "abort_step reason w now pub _ = None"

fun send_probe_step ::
  "string \<Rightarrow> writer \<Rightarrow> instant \<Rightarrow> publish_result \<Rightarrow> wpc \<Rightarrow> step_result option" where
  "send_probe_step nonce w now pub PGo =
     (if \<not> wr_active w then Some (w, PDone (Ok ()), []) else Some (w, PMint (OsPing nonce), []))"
| "send_probe_step nonce w now pub (PMint f) = next_progress w f"
| "send_probe_step nonce w now pub (PPublish progress f) =
     Some (w, PDone pub, [EFrame progress f (is_ok pub)])"
| "send_probe_step nonce w now pub _ = None"

definition writer_tick :: "writer \<Rightarrow> instant \<Rightarrow> writer \<times> keepalive_action" where
  "writer_tick w now =
     (case wr_idle_timeout w of
        None \<Rightarrow> (w, KaNone)
      | Some idle_timeout \<Rightarrow>
          if \<not> wr_active w \<or> \<not> wr_started w then (w, KaNone)
          else if (case wr_probe_deadline w of
                     Some deadline \<Rightarrow> wr_pending_probe_nonce w \<noteq> None \<and> now \<ge> deadline
                   | None \<Rightarrow> False) then (w, KaAbort ''Probe timeout'')
          else if wr_pending_probe_nonce w = None \<and>
                  duration_since now (wr_last_activity w) \<ge> idle_timeout then
            (let (w', nonce) = control_nonce w in
             (w'\<lparr>wr_pending_probe_nonce := Some nonce,
                 wr_probe_deadline := Some (now + wr_probe_timeout w')\<rparr>, SendPing nonce))
          else (w, KaNone))"

definition ack_probe :: "writer \<Rightarrow> instant \<Rightarrow> string \<Rightarrow> writer" where
  "ack_probe w now nonce =
     (if wr_active w \<and> wr_pending_probe_nonce w = Some nonce
      then w\<lparr>wr_pending_probe_nonce := None, wr_probe_deadline := None, wr_last_activity := now\<rparr>
      else w)"

definition writer_dispose :: "writer \<Rightarrow> writer" where
  "writer_dispose w = w\<lparr>wr_active := False\<rparr>"

section \<open>Concurrent methods\<close>

fun takes_lock :: "writer_op \<Rightarrow> bool" where
  "takes_lock (WAbort reason) = False"
| "takes_lock (WProbe nonce) = False"
| "takes_lock _ = True"

definition op_start :: "writer_op \<Rightarrow> wpc" where
  "op_start op = (if takes_lock op then PLock else PGo)"

fun op_step :: "writer_op \<Rightarrow> writer \<Rightarrow> instant \<Rightarrow> publish_result \<Rightarrow> wpc \<Rightarrow> step_result option" where
  "op_step WStart = start_step"
| "op_step (WWrite data) = write_step data"
| "op_step WPing = ping_step"
| "op_step (WPong nonce) = pong_step nonce"
| "op_step WClose = close_step"
| "op_step (WAbort reason) = abort_step reason"
| "op_step (WProbe nonce) = send_probe_step nonce"

text \<open>The writer, the methods called so far with their program counters, and what was emitted.\<close>

type_synonym writer_system = "writer \<times> (writer_op \<times> wpc) list \<times> emission list"

datatype writer_event =
    ECall writer_op
  | ESched nat instant publish_result
  | ETick instant
  | EAck instant string
  | EDispose

fun writer_system_step :: "writer_system \<Rightarrow> writer_event \<Rightarrow> writer_system \<times> emission list" where
  "writer_system_step (w, ts, log) (ECall op) = ((w, ts @ [(op, op_start op)], log), [])"
| "writer_system_step (w, ts, log) (ESched i now pub) =
     (if i < length ts then
        (case op_step (fst (ts ! i)) w now pub (snd (ts ! i)) of
           None \<Rightarrow> ((w, ts, log), [])
         | Some (w', pc', out) \<Rightarrow> ((w', ts[i := (fst (ts ! i), pc')], log @ out), out))
      else ((w, ts, log), []))"
| "writer_system_step (w, ts, log) (ETick now) = ((fst (writer_tick w now), ts, log), [])"
| "writer_system_step (w, ts, log) (EAck now nonce) = ((ack_probe w now nonce, ts, log), [])"
| "writer_system_step (w, ts, log) EDispose = ((writer_dispose w, ts, log), [])"

text \<open>One method on its own, with the publisher's answers in order.\<close>

fun run_op ::
  "nat \<Rightarrow> writer_op \<Rightarrow> writer \<Rightarrow> instant \<Rightarrow> (u64 \<Rightarrow> publish_result) \<Rightarrow> wpc \<Rightarrow>
   (writer \<times> publish_result \<times> emission list) option" where
  "run_op 0 op w now pub pc = None"
| "run_op (Suc fuel) op w now pub pc =
     (case pc of
        PDone r \<Rightarrow> Some (w, r, [])
      | _ \<Rightarrow>
          (case op_step op w now
                  (pub (case pc of PPublish p f \<Rightarrow> p | PStartPublish p \<Rightarrow> p | _ \<Rightarrow> 0)) pc of
             None \<Rightarrow> None
           | Some (w', pc', out) \<Rightarrow>
               (case run_op fuel op w' now pub pc' of
                  None \<Rightarrow> None
                | Some (w'', r, outs) \<Rightarrow> Some (w'', r, out @ outs))))"

section \<open>Lists of methods\<close>

lemma filter_update_count:
  "i < length ts \<Longrightarrow>
   length (filter P (ts[i := x])) + (if P (ts ! i) then 1 else 0) =
   length (filter P ts) + (if P x then 1 else 0)"
proof (induction ts arbitrary: i)
  case (Cons a ts)
  show ?case
  proof (cases i)
    case (Suc j)
    with Cons.IH [of j] Cons.prems show ?thesis by simp
  qed simp
qed simp

lemma mset_concat_update:
  "i < length ts \<Longrightarrow>
   mset (concat (map g (ts[i := x]))) + mset (g (ts ! i)) = mset (concat (map g ts)) + mset (g x)"
proof (induction ts arbitrary: i)
  case (Cons a ts)
  show ?case
  proof (cases i)
    case (Suc j)
    with Cons.IH [of j] Cons.prems show ?thesis by (simp add: ac_simps)
  qed (simp add: ac_simps)
qed simp

lemma unique_holder:
  assumes "length (filter P ts) \<le> 1" "i < length ts" "j < length ts" "P (ts ! i)" "P (ts ! j)"
  shows "i = j"
proof (rule ccontr)
  assume "i \<noteq> j"
  with assms have "{i, j} \<subseteq> {k. k < length ts \<and> P (ts ! k)}" by auto
  then have "card {i, j} \<le> card {k. k < length ts \<and> P (ts ! k)}" by (intro card_mono) auto
  with \<open>i \<noteq> j\<close> assms(1) show False by (simp add: length_filter_conv_card)
qed

section \<open>Invariant\<close>

fun pc_progress :: "wpc \<Rightarrow> u64 list" where
  "pc_progress (PStartPublish p) = [p]"
| "pc_progress (PPublish p f) = [p]"
| "pc_progress _ = []"

fun pc_frame :: "wpc \<Rightarrow> open_stream_frame list" where
  "pc_frame (PMint f) = [f]"
| "pc_frame (PPublish p f) = [f]"
| "pc_frame _ = []"

fun pc_idle :: "wpc \<Rightarrow> bool" where
  "pc_idle PLock = True"
| "pc_idle (PDone r) = True"
| "pc_idle _ = False"

definition holds_lock :: "writer_op \<times> wpc \<Rightarrow> bool" where
  "holds_lock t \<longleftrightarrow> takes_lock (fst t) \<and> \<not> pc_idle (snd t)"

fun emitted_progress :: "emission \<Rightarrow> u64 list" where
  "emitted_progress (EFrame p f ok) = [p]"
| "emitted_progress (EHook h) = []"

fun is_terminal :: "open_stream_frame \<Rightarrow> bool" where
  "is_terminal (OsClose l) = True"
| "is_terminal (OsAbort r) = True"
| "is_terminal _ = False"

fun emitted_terminal :: "emission \<Rightarrow> bool" where
  "emitted_terminal (EFrame p f ok) = is_terminal f"
| "emitted_terminal (EHook h) = False"

definition pending_terminal :: "writer_op \<times> wpc \<Rightarrow> bool" where
  "pending_terminal t = list_ex is_terminal (pc_frame (snd t))"

text \<open>The frames only methods with the lock publish.\<close>

fun is_locked_frame :: "open_stream_frame \<Rightarrow> bool" where
  "is_locked_frame (OsStart ct) = True"
| "is_locked_frame (OsChunk i d) = True"
| "is_locked_frame (OsPong n) = True"
| "is_locked_frame (OsClose l) = True"
| "is_locked_frame _ = False"

fun emitted_locked :: "emission \<Rightarrow> u64 list" where
  "emitted_locked (EFrame p f ok) = (if is_locked_frame f then [p] else [])"
| "emitted_locked (EHook h) = []"

text \<open>The chunks the publisher accepted.\<close>

fun emitted_chunk :: "emission \<Rightarrow> (u64 \<times> string) list" where
  "emitted_chunk (EFrame p (OsChunk i d) True) = [(i, d)]"
| "emitted_chunk _ = []"

fun emitted_close :: "emission \<Rightarrow> u64 option list" where
  "emitted_close (EFrame p (OsClose l) ok) = [l]"
| "emitted_close _ = []"

fun frame_chunk_index :: "open_stream_frame \<Rightarrow> u64 list" where
  "frame_chunk_index (OsChunk i d) = [i]"
| "frame_chunk_index _ = []"

fun frame_close :: "open_stream_frame \<Rightarrow> u64 option list" where
  "frame_close (OsClose l) = [l]"
| "frame_close _ = []"

definition pending_chunk :: "writer_op \<times> wpc \<Rightarrow> u64 list" where
  "pending_chunk t = concat (map frame_chunk_index (pc_frame (snd t)))"

definition pending_close :: "writer_op \<times> wpc \<Rightarrow> u64 option list" where
  "pending_close t = concat (map frame_close (pc_frame (snd t)))"

fun op_frame :: "writer_op \<Rightarrow> open_stream_frame \<Rightarrow> bool" where
  "op_frame (WWrite d) (OsChunk i d') = (d = d')"
| "op_frame WPing (OsPing n) = True"
| "op_frame (WPong n) (OsPong n') = (n = n')"
| "op_frame WClose (OsClose l) = True"
| "op_frame (WAbort r) (OsAbort r') = (r = r')"
| "op_frame (WProbe n) (OsPing n') = (n = n')"
| "op_frame _ _ = False"

definition task_typed :: "writer_op \<times> wpc \<Rightarrow> bool" where
  "task_typed t \<longleftrightarrow>
     list_all (op_frame (fst t)) (pc_frame (snd t)) \<and>
     (\<not> takes_lock (fst t) \<longrightarrow> pc_progress (snd t) \<noteq> [] \<longrightarrow> pc_frame (snd t) \<noteq> [])"

definition close_index :: "u64 \<Rightarrow> u64 option" where
  "close_index n = (if n > 0 then Some (n - 1) else None)"

section \<open>What one step of a method does\<close>

lemmas op_step_defs = acquire_def release_def next_progress_def control_nonce_def Let_def

lemma op_step_typed:
  "op_step op w now pub pc = Some (w', pc', out) \<Longrightarrow> task_typed (op, pc) \<Longrightarrow> task_typed (op, pc')"
  by (induction op; induction pc;
      auto simp: task_typed_def op_step_defs split: if_splits sum.splits)

lemma op_step_lock:
  "op_step op w now pub pc = Some (w', pc', out) \<Longrightarrow> holds_lock (op, pc) \<longrightarrow> wr_locked w \<Longrightarrow>
   (if takes_lock op
    then (holds_lock (op, pc) \<or> \<not> wr_locked w) \<and> wr_locked w' = holds_lock (op, pc')
    else wr_locked w' = wr_locked w)"
  by (induction op; induction pc;
      auto simp: holds_lock_def op_step_defs split: if_splits sum.splits)

lemma op_step_progress:
  "op_step op w now pub pc = Some (w', pc', out) \<Longrightarrow>
   wr_progress w' = wr_progress w + 1 \<and> pc_progress pc = [] \<and> out = [] \<and>
     pc_progress pc' = [wr_progress w + 1] \<or>
   wr_progress w' = wr_progress w \<and> pc_progress pc' = [] \<and>
     pc_progress pc = concat (map emitted_progress out)"
  by (induction op; induction pc;
      auto simp: op_step_defs split: if_splits sum.splits option.splits)

text \<open>Only a method with the lock publishes a locked frame.\<close>

lemma op_step_locked_frames:
  "op_step op w now pub pc = Some (w', pc', out) \<Longrightarrow> task_typed (op, pc) \<Longrightarrow>
   concat (map emitted_locked out) \<noteq> [] \<Longrightarrow>
   holds_lock (op, pc) \<and> concat (map emitted_locked out) = pc_progress pc"
  by (induction op; induction pc;
      auto simp: holds_lock_def task_typed_def op_step_defs is_locked_frame.simps
        split: if_splits sum.splits option.splits elim: op_frame.elims)

text \<open>Chunks: the index is taken under the lock and advanced when the publisher accepts it.\<close>

lemma op_step_chunks:
  "op_step op w now pub pc = Some (w', pc', out) \<Longrightarrow> task_typed (op, pc) \<Longrightarrow>
   set (pending_chunk (op, pc)) \<subseteq> {wr_chunk_index w} \<Longrightarrow>
   (concat (map emitted_chunk out) = [] \<and> wr_chunk_index w' = wr_chunk_index w \<or>
    (\<exists>d. concat (map emitted_chunk out) = [(wr_chunk_index w, d)] \<and> holds_lock (op, pc) \<and>
       pending_chunk (op, pc) \<noteq> [] \<and> wr_chunk_index w' = wr_chunk_index w + 1)) \<and>
   set (pending_chunk (op, pc')) \<subseteq> {wr_chunk_index w'} \<and>
   (pending_chunk (op, pc') \<noteq> [] \<longrightarrow> holds_lock (op, pc') \<and> (wr_active w \<or> pending_chunk (op, pc) \<noteq> []))"
  by (induction op; induction pc;
      auto simp: holds_lock_def task_typed_def pending_chunk_def op_step_defs
        split: if_splits sum.splits option.splits elim: op_frame.elims)

text \<open>Termination: the flag is claimed once, and only the claimant publishes a terminal frame.\<close>

lemma op_step_terminal:
  "op_step op w now pub pc = Some (w', pc', out) \<Longrightarrow> task_typed (op, pc) \<Longrightarrow>
   wr_active w' = wr_active w \<and>
     length (filter emitted_terminal out) + (if pending_terminal (op, pc') then 1 else 0) =
     (if pending_terminal (op, pc) then 1 else 0) \<or>
   wr_active w \<and> \<not> wr_active w' \<and> filter emitted_terminal out = [] \<and> \<not> pending_terminal (op, pc) \<and>
     pending_terminal (op, pc')"
  by (induction op; induction pc;
      auto simp: pending_terminal_def task_typed_def op_step_defs
        split: if_splits sum.splits option.splits elim: op_frame.elims)

lemma op_step_close:
  "op_step op w now pub pc = Some (w', pc', out) \<Longrightarrow> task_typed (op, pc) \<Longrightarrow>
   concat (map emitted_close out) @ pending_close (op, pc') = pending_close (op, pc) \<or>
   concat (map emitted_close out) = [] \<and> pending_close (op, pc) = [] \<and> holds_lock (op, pc) \<and>
     pending_close (op, pc') = [close_index (wr_chunk_index w)] \<and> \<not> wr_active w' \<and>
     wr_chunk_index w' = wr_chunk_index w \<and> pending_chunk (op, pc') = []"
  by (induction op; induction pc;
      auto simp: pending_close_def pending_chunk_def holds_lock_def close_index_def task_typed_def
        op_step_defs split: if_splits sum.splits option.splits elim: op_frame.elims)

section \<open>The invariant of the concurrent methods\<close>

definition minted :: "(writer_op \<times> wpc) list \<Rightarrow> emission list \<Rightarrow> u64 list" where
  "minted ts log = concat (map emitted_progress log) @ concat (map (\<lambda>t. pc_progress (snd t)) ts)"

definition locked_progress :: "emission list \<Rightarrow> u64 list" where
  "locked_progress log = concat (map emitted_locked log)"

definition accepted_chunks :: "emission list \<Rightarrow> (u64 \<times> string) list" where
  "accepted_chunks log = concat (map emitted_chunk log)"

definition closes :: "(writer_op \<times> wpc) list \<Rightarrow> emission list \<Rightarrow> u64 option list" where
  "closes ts log = concat (map emitted_close log) @ concat (map pending_close ts)"

definition lock_inv :: "writer \<Rightarrow> (writer_op \<times> wpc) list \<Rightarrow> bool" where
  "lock_inv w ts \<longleftrightarrow>
     list_all task_typed ts \<and> length (filter holds_lock ts) = (if wr_locked w then 1 else 0)"

definition progress_inv :: "writer \<Rightarrow> (writer_op \<times> wpc) list \<Rightarrow> emission list \<Rightarrow> bool" where
  "progress_inv w ts log \<longleftrightarrow>
     wr_progress w = of_nat (length (minted ts log)) \<and>
     mset (minted ts log) = mset (map of_nat [1..<Suc (length (minted ts log))])"

definition order_inv :: "writer \<Rightarrow> (writer_op \<times> wpc) list \<Rightarrow> emission list \<Rightarrow> bool" where
  "order_inv w ts log \<longleftrightarrow>
     (length (minted ts log) < 2 ^ 64 \<longrightarrow>
        sorted_wrt (<) (locked_progress log) \<and>
        (\<forall>q\<in>set (locked_progress log). q \<le> wr_progress w \<and>
           (\<forall>j<length ts. holds_lock (ts ! j) \<longrightarrow> (\<forall>p\<in>set (pc_progress (snd (ts ! j))). q < p))))"

definition chunk_inv :: "writer \<Rightarrow> (writer_op \<times> wpc) list \<Rightarrow> emission list \<Rightarrow> bool" where
  "chunk_inv w ts log \<longleftrightarrow>
     map fst (accepted_chunks log) = map of_nat [0..<length (accepted_chunks log)] \<and>
     wr_chunk_index w = of_nat (length (accepted_chunks log)) \<and>
     (\<forall>j<length ts. set (pending_chunk (ts ! j)) \<subseteq> {wr_chunk_index w} \<and>
        (pending_chunk (ts ! j) \<noteq> [] \<longrightarrow> holds_lock (ts ! j)))"

definition terminal_inv :: "writer \<Rightarrow> (writer_op \<times> wpc) list \<Rightarrow> emission list \<Rightarrow> bool" where
  "terminal_inv w ts log \<longleftrightarrow>
     length (filter emitted_terminal log) + length (filter pending_terminal ts) \<le>
     (if wr_active w then 0 else 1)"

definition close_inv :: "writer \<Rightarrow> (writer_op \<times> wpc) list \<Rightarrow> emission list \<Rightarrow> bool" where
  "close_inv w ts log \<longleftrightarrow>
     (\<forall>l\<in>set (closes ts log). l = close_index (wr_chunk_index w) \<and> \<not> wr_active w \<and>
        (\<forall>j<length ts. pending_chunk (ts ! j) = []))"

definition writer_inv :: "writer_system \<Rightarrow> bool" where
  "writer_inv x = (case x of (w, ts, log) \<Rightarrow>
     lock_inv w ts \<and> progress_inv w ts log \<and> order_inv w ts log \<and> chunk_inv w ts log \<and>
     terminal_inv w ts log \<and> close_inv w ts log)"

section \<open>The invariant is kept\<close>

lemma lock_inv_holder:
  "lock_inv w ts \<Longrightarrow> i < length ts \<Longrightarrow> j < length ts \<Longrightarrow> holds_lock (ts ! i) \<Longrightarrow> holds_lock (ts ! j) \<Longrightarrow>
   i = j"
  by (rule unique_holder [of holds_lock ts]) (simp_all add: lock_inv_def)

lemma lock_inv_locked:
  assumes "lock_inv w ts" "i < length ts" "holds_lock (ts ! i)"
  shows "wr_locked w"
proof (rule ccontr)
  assume "\<not> wr_locked w"
  with assms(1) have "filter holds_lock ts = []" by (simp add: lock_inv_def)
  with assms(2,3) show False by (auto simp: filter_empty_conv)
qed

lemma lock_inv_typed: "lock_inv w ts \<Longrightarrow> i < length ts \<Longrightarrow> task_typed (ts ! i)"
  by (simp add: lock_inv_def list_all_length)

text \<open>Method \<open>i\<close> moves from \<open>pc\<close> to \<open>pc'\<close>.\<close>

definition moves ::
  "writer \<Rightarrow> (writer_op \<times> wpc) list \<Rightarrow> nat \<Rightarrow> writer_op \<Rightarrow> wpc \<Rightarrow> writer \<Rightarrow> wpc \<Rightarrow> emission list \<Rightarrow> bool"
where
  "moves w ts i op pc w' pc' out \<longleftrightarrow>
     i < length ts \<and> ts ! i = (op, pc) \<and> lock_inv w ts \<and>
     (\<exists>now pub. op_step op w now pub pc = Some (w', pc', out))"

lemma movesE:
  assumes "moves w ts i op pc w' pc' out"
  obtains now pub where "i < length ts" "ts ! i = (op, pc)" "lock_inv w ts" "task_typed (op, pc)"
    "op_step op w now pub pc = Some (w', pc', out)"
  using assms lock_inv_typed [of w ts i] by (auto simp: moves_def)

lemma moves_lock:
  assumes "moves w ts i op pc w' pc' out"
  shows "if takes_lock op
    then (holds_lock (op, pc) \<or> \<not> wr_locked w) \<and> wr_locked w' = holds_lock (op, pc')
    else wr_locked w' = wr_locked w"
proof -
  from assms obtain now pub where m: "i < length ts" "ts ! i = (op, pc)" "lock_inv w ts"
    "op_step op w now pub pc = Some (w', pc', out)" by (rule movesE)
  show ?thesis using op_step_lock [OF m(4)] lock_inv_locked [OF m(3,1)] m(2) by simp
qed

lemma moves_alone:
  assumes "moves w ts i op pc w' pc' out" "holds_lock (op, pc)" "j < length ts" "j \<noteq> i"
  shows "\<not> holds_lock (ts ! j)"
  using assms lock_inv_holder [of w ts i j] by (auto simp: moves_def)

lemma keeps_lock:
  assumes "moves w ts i op pc w' pc' out"
  shows "lock_inv w' (ts[i := (op, pc')])"
proof -
  from assms obtain now pub where i: "i < length ts" and task: "ts ! i = (op, pc)"
    and lock: "lock_inv w ts" and typed: "task_typed (op, pc)"
    and step: "op_step op w now pub pc = Some (w', pc', out)" by (rule movesE)
  have "length (filter holds_lock (ts[i := (op, pc')])) + (if holds_lock (op, pc) then 1 else 0) =
      length (filter holds_lock ts) + (if holds_lock (op, pc') then 1 else 0)"
    using filter_update_count [OF i, of holds_lock "(op, pc')"] by (simp add: task)
  moreover have "\<not> takes_lock op \<Longrightarrow> \<not> holds_lock (op, pc) \<and> \<not> holds_lock (op, pc')"
    by (simp add: holds_lock_def)
  moreover have "list_all task_typed (ts[i := (op, pc')])"
    using lock op_step_typed [OF step typed] i
    by (intro list_all_nth_update) (simp_all add: lock_inv_def)
  ultimately show ?thesis
    using moves_lock [OF assms] lock lock_inv_locked [OF lock i]
    by (auto simp: lock_inv_def task split: if_splits)
qed

lemma moves_minted:
  assumes "moves w ts i op pc w' pc' out"
  shows "wr_progress w' = wr_progress w + 1 \<and> pc_progress pc = [] \<and> out = [] \<and>
     pc_progress pc' = [wr_progress w + 1] \<and>
     mset (minted (ts[i := (op, pc')]) (log @ out)) =
       add_mset (wr_progress w + 1) (mset (minted ts log)) \<or>
   wr_progress w' = wr_progress w \<and> pc_progress pc' = [] \<and>
     mset (minted (ts[i := (op, pc')]) (log @ out)) = mset (minted ts log)"
proof -
  from assms obtain now pub where i: "i < length ts" and task: "ts ! i = (op, pc)"
    and step: "op_step op w now pub pc = Some (w', pc', out)" by (rule movesE)
  have "mset (minted (ts[i := (op, pc')]) (log @ out)) + mset (pc_progress pc) =
     mset (minted ts log) + mset (concat (map emitted_progress out)) + mset (pc_progress pc')"
    using mset_concat_update [OF i, of "\<lambda>t. pc_progress (snd t)" "(op, pc')"]
    by (simp add: minted_def task ac_simps)
  then show ?thesis using op_step_progress [OF step] by auto
qed

lemma keeps_progress:
  assumes "moves w ts i op pc w' pc' out" "progress_inv w ts log"
  shows "progress_inv w' (ts[i := (op, pc')]) (log @ out)"
proof -
  let ?m = "minted ts log" and ?m' = "minted (ts[i := (op, pc')]) (log @ out)"
  consider "wr_progress w' = wr_progress w + 1" "mset ?m' = add_mset (wr_progress w + 1) (mset ?m)"
    | "wr_progress w' = wr_progress w" "mset ?m' = mset ?m"
    using moves_minted [OF assms(1), of log] by blast
  then show ?thesis
  proof cases
    case 1
    then have "length ?m' = Suc (length ?m)" by (metis size_add_mset size_mset)
    with 1 assms show ?thesis by (simp add: progress_inv_def)
  next
    case 2
    then have "length ?m' = length ?m" by (metis size_mset)
    with 2 assms show ?thesis by (simp add: progress_inv_def)
  qed
qed

text \<open>While fewer than \<open>2 ^ 64\<close> values have been minted, all of them are at most the counter.\<close>

lemma minted_le:
  assumes "progress_inv w ts log" "length (minted ts log) < 2 ^ 64" "p \<in> set (minted ts log)"
  shows "p \<le> wr_progress w"
proof -
  have "set (minted ts log) = of_nat ` {1..<Suc (length (minted ts log))}"
    using assms(1) unfolding progress_inv_def by (metis mset_eq_setD set_map set_upt)
  with assms(3) obtain k where "p = of_nat k" "k \<le> length (minted ts log)" by auto
  with assms(1,2) show ?thesis by (simp add: progress_inv_def of_nat_u64_le)
qed

lemma minted_distinct:
  assumes "progress_inv w ts log" "length (minted ts log) < 2 ^ 64"
  shows "distinct (minted ts log)"
proof -
  have "distinct (map (of_nat :: nat \<Rightarrow> u64) [1..<Suc (length (minted ts log))])"
    using assms(2) by (auto simp: distinct_map inj_on_def of_nat_u64_eq)
  with assms(1) show ?thesis unfolding progress_inv_def by (metis mset_eq_imp_distinct_iff)
qed

lemma keeps_order:
  assumes mv: "moves w ts i op pc w' pc' out" and pr: "progress_inv w ts log"
    and ord: "order_inv w ts log"
  shows "order_inv w' (ts[i := (op, pc')]) (log @ out)"
  unfolding order_inv_def
proof (intro impI)
  let ?ts = "ts[i := (op, pc')]" and ?log = "log @ out"
  assume small: "length (minted ?ts ?log) < 2 ^ 64"
  from mv obtain now pub where i: "i < length ts" and task: "ts ! i = (op, pc)"
    and typed: "task_typed (op, pc)"
    and step: "op_step op w now pub pc = Some (w', pc', out)" by (rule movesE)
  show "sorted_wrt (<) (locked_progress ?log) \<and>
    (\<forall>q\<in>set (locked_progress ?log). q \<le> wr_progress w' \<and>
      (\<forall>j<length ?ts. holds_lock (?ts ! j) \<longrightarrow> (\<forall>p\<in>set (pc_progress (snd (?ts ! j))). q < p)))"
    using moves_minted [OF mv, of log]
  proof (elim disjE conjE)
    assume mint: "wr_progress w' = wr_progress w + 1" "pc_progress pc = []" "out = []"
      "pc_progress pc' = [wr_progress w + 1]"
      "mset (minted ?ts ?log) = add_mset (wr_progress w + 1) (mset (minted ts log))"
    have "length (minted ?ts ?log) = Suc (length (minted ts log))"
      using mint(5) by (metis size_add_mset size_mset)
    with small have n: "Suc (length (minted ts log)) < 2 ^ 64" by simp
    then have lt: "q < wr_progress w + 1" if "q \<le> wr_progress w" for q
      using that pr
      by (simp add: progress_inv_def word_le_nat_alt word_less_nat_alt unat_of_nat_u64
          unat_Suc_no_wrap)
    show ?thesis
      using ord n mint(1,3,4) lt i
      by (auto simp: order_inv_def nth_list_update less_imp_le)
  next
    assume same: "wr_progress w' = wr_progress w" "pc_progress pc' = []"
      "mset (minted ?ts ?log) = mset (minted ts log)"
    have n: "length (minted ts log) < 2 ^ 64" using small same(3) by (metis size_mset)
    note o = ord [unfolded order_inv_def, rule_format, OF n]
    show ?thesis
    proof (cases "locked_progress out = []")
      case True
      then have "locked_progress ?log = locked_progress log" by (simp add: locked_progress_def)
      then show ?thesis using o same(1,2) i by (auto simp: nth_list_update)
    next
      case False
      then have hold: "holds_lock (op, pc)" "locked_progress out = pc_progress pc"
        using op_step_locked_frames [OF step typed] by (simp_all add: locked_progress_def)
      obtain p where p: "pc_progress pc = [p]"
        using hold(2) False by (cases pc) auto
      have "p \<in> set (minted ts log)" using i task p by (force simp: minted_def in_set_conv_nth)
      then have le: "p \<le> wr_progress w" by (rule minted_le [OF pr n])
      have none: "\<not> holds_lock (?ts ! j)" if "j < length ts" "j \<noteq> i" for j
        using moves_alone [OF mv hold(1) that] that by simp
      have lp: "locked_progress ?log = locked_progress log @ [p]"
        using hold(2) p by (simp add: locked_progress_def)
      have "\<forall>q\<in>set (locked_progress log). q < p" using o i task hold(1) p by force
      moreover have "\<forall>p'\<in>set (pc_progress (snd (?ts ! j))). q < p'"
        if "j < length ?ts" "holds_lock (?ts ! j)" for j q
        using that none [of j] same(2) by (cases "j = i") simp_all
      ultimately show ?thesis
        using o le same(1) unfolding lp by (auto simp: sorted_wrt_append)
    qed
  qed
qed

lemma chunk_invD:
  "chunk_inv w ts log \<Longrightarrow> i < length ts \<Longrightarrow>
     set (pending_chunk (ts ! i)) \<subseteq> {wr_chunk_index w} \<and>
     (pending_chunk (ts ! i) \<noteq> [] \<longrightarrow> holds_lock (ts ! i))"
  unfolding chunk_inv_def by blast

lemma keeps_chunk:
  assumes mv: "moves w ts i op pc w' pc' out" and inv: "chunk_inv w ts log"
  shows "chunk_inv w' (ts[i := (op, pc')]) (log @ out)"
proof -
  from mv obtain now pub where i: "i < length ts" and task: "ts ! i = (op, pc)"
    and typed: "task_typed (op, pc)"
    and step: "op_step op w now pub pc = Some (w', pc', out)" by (rule movesE)
  have mine: "set (pending_chunk (op, pc)) \<subseteq> {wr_chunk_index w}"
    using chunk_invD [OF inv i] task by simp
  note st = op_step_chunks [OF step typed mine]
  have app: "accepted_chunks (log @ out) = accepted_chunks log @ concat (map emitted_chunk out)"
    by (simp add: accepted_chunks_def)
  consider (same) "concat (map emitted_chunk out) = []" "wr_chunk_index w' = wr_chunk_index w"
    | (next_chunk) d where "concat (map emitted_chunk out) = [(wr_chunk_index w, d)]"
      "holds_lock (op, pc)" "wr_chunk_index w' = wr_chunk_index w + 1"
    using st by blast
  then show ?thesis
  proof cases
    case same
    with inv st i app show ?thesis by (auto simp: chunk_inv_def nth_list_update)
  next
    case next_chunk
    have "pending_chunk (ts ! j) = []" if "j < length ts" "j \<noteq> i" for j
      using moves_alone [OF mv next_chunk(2) that] inv that(1) by (auto simp: chunk_inv_def)
    with inv st i app next_chunk(1,3) show ?thesis by (auto simp: chunk_inv_def nth_list_update)
  qed
qed

lemma keeps_terminal:
  assumes mv: "moves w ts i op pc w' pc' out" and inv: "terminal_inv w ts log"
  shows "terminal_inv w' (ts[i := (op, pc')]) (log @ out)"
proof -
  from mv obtain now pub where i: "i < length ts" and task: "ts ! i = (op, pc)"
    and typed: "task_typed (op, pc)"
    and step: "op_step op w now pub pc = Some (w', pc', out)" by (rule movesE)
  define n where "n = length (filter pending_terminal (ts[i := (op, pc')]))"
  have "n + (if pending_terminal (op, pc) then 1 else 0) =
      length (filter pending_terminal ts) + (if pending_terminal (op, pc') then 1 else 0)"
    using filter_update_count [OF i, of pending_terminal "(op, pc')"] by (simp add: task n_def)
  then show ?thesis
    using op_step_terminal [OF step typed] inv
    unfolding terminal_inv_def n_def [symmetric] filter_append length_append
    by (elim disjE conjE; simp split: if_splits)
qed

lemma keeps_close:
  assumes mv: "moves w ts i op pc w' pc' out" and chunk: "chunk_inv w ts log"
    and inv: "close_inv w ts log"
  shows "close_inv w' (ts[i := (op, pc')]) (log @ out)"
proof -
  from mv obtain now pub where i: "i < length ts" and task: "ts ! i = (op, pc)"
    and typed: "task_typed (op, pc)"
    and step: "op_step op w now pub pc = Some (w', pc', out)" by (rule movesE)
  let ?ts = "ts[i := (op, pc')]"
  have mine: "set (pending_chunk (op, pc)) \<subseteq> {wr_chunk_index w}"
    using chunk_invD [OF chunk i] task by simp
  note ch = op_step_chunks [OF step typed mine]
  have "mset (closes ?ts (log @ out)) + mset (pending_close (op, pc)) =
      mset (closes ts log) + mset (concat (map emitted_close out) @ pending_close (op, pc'))"
    using mset_concat_update [OF i, of pending_close "(op, pc')"]
    by (simp add: closes_def task ac_simps)
  then consider (same) "mset (closes ?ts (log @ out)) = mset (closes ts log)"
    | (claim) "mset (closes ?ts (log @ out)) = add_mset (close_index (wr_chunk_index w)) (mset (closes ts log))"
      "holds_lock (op, pc)" "\<not> wr_active w'" "wr_chunk_index w' = wr_chunk_index w"
      "pending_chunk (op, pc') = []"
    using op_step_close [OF step typed] by fastforce
  then show ?thesis
  proof cases
    case same
    then have eq: "set (closes ?ts (log @ out)) = set (closes ts log)" by (rule mset_eq_setD)
    have "pending_chunk (op, pc) = []" "\<not> wr_active w" if "l \<in> set (closes ts log)" for l
      using inv that i task unfolding close_inv_def by metis+
    moreover have "\<not> wr_active w \<Longrightarrow> \<not> wr_active w'"
      using op_step_terminal [OF step typed] by auto
    ultimately show ?thesis
      using inv ch i unfolding close_inv_def eq by (auto simp: nth_list_update)
  next
    case claim
    have "set (closes ?ts (log @ out)) = insert (close_index (wr_chunk_index w)) (set (closes ts log))"
      using claim(1) by (metis set_mset_add_mset_insert set_mset_mset)
    moreover have "pending_chunk (ts ! j) = []" if "j < length ts" "j \<noteq> i" for j
      using moves_alone [OF mv claim(2) that] chunk that(1) by (auto simp: chunk_inv_def)
    ultimately show ?thesis
      using inv claim(3-5) i by (auto simp: close_inv_def nth_list_update)
  qed
qed

text \<open>The steps that are not a method's.\<close>

lemma new_task [simp]:
  "holds_lock (op, op_start op) = False" "task_typed (op, op_start op)"
  "pc_progress (op_start op) = []" "pending_chunk (op, op_start op) = []"
  "pending_close (op, op_start op) = []" "pending_terminal (op, op_start op) = False"
  by (simp_all add: holds_lock_def task_typed_def op_start_def pending_chunk_def pending_close_def
      pending_terminal_def)

lemma writer_inv_cong:
  assumes "wr_locked w' = wr_locked w" "wr_progress w' = wr_progress w"
    "wr_chunk_index w' = wr_chunk_index w" "wr_active w' \<longrightarrow> wr_active w"
    and "writer_inv (w, ts, log)"
  shows "writer_inv (w', ts, log)"
  using assms
  by (auto simp: writer_inv_def lock_inv_def progress_inv_def order_inv_def chunk_inv_def
      terminal_inv_def close_inv_def split: if_splits)

lemma writer_inv_call:
  assumes "writer_inv (w, ts, log)"
  shows "writer_inv (w, ts @ [(op, op_start op)], log)"
proof -
  have "minted (ts @ [(op, op_start op)]) log = minted ts log"
    "closes (ts @ [(op, op_start op)]) log = closes ts log"
    by (simp_all add: minted_def closes_def)
  with assms show ?thesis
    by (auto simp: writer_inv_def lock_inv_def progress_inv_def order_inv_def chunk_inv_def
        terminal_inv_def close_inv_def nth_append less_Suc_eq)
qed

lemma writer_system_step_inv:
  assumes "writer_inv x"
  shows "writer_inv (fst (writer_system_step x e))"
proof -
  obtain w ts log where x: "x = (w, ts, log)" by (cases x)
  show ?thesis
  proof (cases e)
    case (ECall op)
    with assms x writer_inv_call show ?thesis by simp
  next
    case (ESched i now pub)
    show ?thesis
    proof (cases "i < length ts \<and> op_step (fst (ts ! i)) w now pub (snd (ts ! i)) \<noteq> None")
      case True
      then obtain w' pc' out where st: "op_step (fst (ts ! i)) w now pub (snd (ts ! i)) = Some (w', pc', out)"
        by auto
      then have mv: "moves w ts i (fst (ts ! i)) (snd (ts ! i)) w' pc' out"
        using True assms x by (auto simp: moves_def writer_inv_def)
      have "writer_inv (w', ts[i := (fst (ts ! i), pc')], log @ out)"
        using assms x keeps_lock [OF mv] keeps_progress [OF mv] keeps_order [OF mv]
          keeps_chunk [OF mv] keeps_terminal [OF mv] keeps_close [OF mv]
        by (simp add: writer_inv_def)
      then show ?thesis using True st by (simp add: ESched x)
    next
      case False
      then show ?thesis using assms by (auto simp: ESched x split: option.splits)
    qed
  next
    case (ETick now)
    show ?thesis
      unfolding x ETick writer_system_step.simps fst_conv
      by (rule writer_inv_cong [where w = w])
         (use assms in \<open>simp_all add: x writer_tick_def control_nonce_def Let_def split: option.splits\<close>)
  next
    case (EAck now nonce)
    show ?thesis
      unfolding x EAck writer_system_step.simps fst_conv
      by (rule writer_inv_cong [where w = w]) (use assms in \<open>simp_all add: x ack_probe_def\<close>)
  next
    case EDispose
    show ?thesis
      unfolding x EDispose writer_system_step.simps fst_conv
      by (rule writer_inv_cong [where w = w]) (use assms in \<open>simp_all add: x writer_dispose_def\<close>)
  qed
qed

interpretation writer_m: machine writer_system_step writer_inv
  by unfold_locales (rule writer_system_step_inv)

lemma writer_new_inv: "writer_inv (writer_new opts now, [], [])"
  by (simp add: writer_inv_def writer_new_def lock_inv_def progress_inv_def order_inv_def
      chunk_inv_def terminal_inv_def close_inv_def minted_def closes_def locked_progress_def
      accepted_chunks_def)

lemma minted_step_le:
  assumes "writer_inv (w, ts, log)" "fst (writer_system_step (w, ts, log) e) = (w', ts', log')"
  shows "length (minted ts' log') \<le> Suc (length (minted ts log))"
proof (cases e)
  case (ESched i now pub)
  show ?thesis
  proof (cases "i < length ts \<and> op_step (fst (ts ! i)) w now pub (snd (ts ! i)) \<noteq> None")
    case True
    then obtain v pc' out where st: "op_step (fst (ts ! i)) w now pub (snd (ts ! i)) = Some (v, pc', out)"
      by auto
    then have "moves w ts i (fst (ts ! i)) (snd (ts ! i)) v pc' out"
      using True assms by (auto simp: moves_def writer_inv_def)
    from moves_minted [OF this, of log] True st assms(2) show ?thesis
      by (auto simp: ESched) (metis Suc_n_not_le_n eq_refl nat_le_linear size_add_mset size_mset)+
  qed (use assms(2) in \<open>auto simp: ESched split: option.splits if_splits\<close>)
qed (use assms(2) in \<open>auto simp: minted_def\<close>)

lemma minted_run_le:
  "writer_inv (w, ts, log) \<Longrightarrow>
   fst (run_steps writer_system_step (w, ts, log) es) = (w', ts', log') \<Longrightarrow>
   length (minted ts' log') \<le> length (minted ts log) + length es"
proof (induction es arbitrary: w ts log)
  case (Cons e es)
  obtain v us lg where st: "fst (writer_system_step (w, ts, log) e) = (v, us, lg)"
    by (metis prod_cases3)
  have "writer_inv (v, us, lg)" using writer_system_step_inv [OF Cons.prems(1), of e] st by simp
  moreover have "fst (run_steps writer_system_step (v, us, lg) es) = (w', ts', log')"
    using Cons.prems(2) st by (simp add: split_beta Let_def)
  ultimately have "length (minted ts' log') \<le> length (minted us lg) + length es"
    by (rule Cons.IH)
  with minted_step_le [OF Cons.prems(1) st] show ?case by simp
qed simp

section \<open>A method returns\<close>

fun pc_rank :: "wpc \<Rightarrow> nat" where
  "pc_rank PLock = 10"
| "pc_rank PStarted = 9"
| "pc_rank PStartActive = 8"
| "pc_rank PStartMint = 7"
| "pc_rank (PStartPublish p) = 6"
| "pc_rank PGo = 5"
| "pc_rank PNonce = 4"
| "pc_rank PTouch = 4"
| "pc_rank (PMint f) = 3"
| "pc_rank (PPublish p f) = 2"
| "pc_rank (PHook r) = 1"
| "pc_rank (PDone r) = 0"

fun pc_valid :: "writer_op \<Rightarrow> wpc \<Rightarrow> bool" where
  "pc_valid op (PDone r) = True"
| "pc_valid op PGo = True"
| "pc_valid op PLock = takes_lock op"
| "pc_valid op PNonce = (op = WPing)"
| "pc_valid op PTouch = (\<exists>n. op = WPong n)"
| "pc_valid op (PMint f) = (op \<noteq> WStart)"
| "pc_valid op (PPublish p f) = (op \<noteq> WStart)"
| "pc_valid op (PHook r) = (op = WClose \<or> (\<exists>reason. op = WAbort reason))"
| "pc_valid op _ = (op = WStart \<or> op = WClose \<or> (\<exists>d. op = WWrite d))"

lemma op_step_advances:
  "pc_valid op pc \<Longrightarrow> \<forall>r. pc \<noteq> PDone r \<Longrightarrow> pc = PLock \<longrightarrow> \<not> wr_locked w \<Longrightarrow>
   holds_lock (op, pc) \<longrightarrow> wr_locked w \<Longrightarrow>
   \<exists>w' pc' out. op_step op w now pub pc = Some (w', pc', out) \<and> pc_rank pc' < pc_rank pc \<and>
     pc_valid op pc' \<and> pc' \<noteq> PLock \<and>
     wr_locked w' = (if takes_lock op then holds_lock (op, pc') else wr_locked w)"
  by (induction op; induction pc;
      auto simp: holds_lock_def op_step_defs split: sum.splits)

lemma run_op_returns:
  "pc_rank pc < fuel \<Longrightarrow> pc_valid op pc \<Longrightarrow> pc = PLock \<longrightarrow> \<not> wr_locked w \<Longrightarrow>
   pc \<noteq> PLock \<longrightarrow> wr_locked w = holds_lock (op, pc) \<Longrightarrow>
   \<exists>w' r out. run_op fuel op w now pub pc = Some (w', r, out) \<and> \<not> wr_locked w'"
proof (induction fuel arbitrary: w pc)
  case (Suc fuel)
  show ?case
  proof (cases "\<exists>r. pc = PDone r")
    case True
    with Suc.prems show ?thesis by (auto simp: holds_lock_def)
  next
    case False
    let ?pub = "pub (case pc of PPublish p f \<Rightarrow> p | PStartPublish p \<Rightarrow> p | _ \<Rightarrow> 0)"
    from op_step_advances [of op pc w now ?pub] False Suc.prems obtain w' pc' out where
      st: "op_step op w now ?pub pc = Some (w', pc', out)" "pc_rank pc' < pc_rank pc"
        "pc_valid op pc'" "pc' \<noteq> PLock"
        "wr_locked w' = (if takes_lock op then holds_lock (op, pc') else wr_locked w)"
      by (auto simp: holds_lock_def)
    have "wr_locked w' = holds_lock (op, pc')"
      using st(5) Suc.prems(2-4) by (cases "pc = PLock") (auto simp: holds_lock_def)
    with Suc.IH [of pc' w'] st(2-4) Suc.prems(1) obtain w'' r outs where
      "run_op fuel op w' now pub pc' = Some (w'', r, outs)" "\<not> wr_locked w''" by auto
    then have "run_op (Suc fuel) op w now pub pc = Some (w'', r, out @ outs)"
      using st(1) False by (cases pc) simp_all
    with \<open>\<not> wr_locked w''\<close> show ?thesis by blast
  qed
qed simp

end
