(* ===== verification/Open_Stream_Delivery.thy ===== *)
theory Open_Stream_Delivery
  imports Open_Stream_Writer
begin

text \<open>
  Writer and reader together: what any interleaving of the writer's methods puts on the wire, that
  every method returns, and that a stream written, published in order and fed to a registry is read
  back chunk by chunk. The last section has the two interleavings and nonces in which writer
  and reader disagree.
\<close>

section \<open>Methods one after the other\<close>

fun run_ops ::
  "writer \<Rightarrow> instant \<Rightarrow> (u64 \<Rightarrow> publish_result) \<Rightarrow> writer_op list \<Rightarrow> (writer \<times> emission list) option"
where
  "run_ops w now pub [] = Some (w, [])"
| "run_ops w now pub (op # ops) =
     (case run_op 11 op w now pub (op_start op) of
        None \<Rightarrow> None
      | Some (w', r, out) \<Rightarrow>
          (case run_ops w' now pub ops of
             None \<Rightarrow> None
           | Some (w'', outs) \<Rightarrow> Some (w'', out @ outs)))"

text \<open>The frames of a log as events of the reader's registry.\<close>

fun emission_events :: "string \<Rightarrow> instant \<Rightarrow> emission \<Rightarrow> registry_event list" where
  "emission_events token now (EFrame p f ok) =
     (if ok then [RgFrame now (os_into_progress_notification f token p None)] else [])"
| "emission_events token now (EHook h) = []"

definition wire_events :: "string \<Rightarrow> instant \<Rightarrow> emission list \<Rightarrow> registry_event list" where
  "wire_events token now log = concat (map (emission_events token now) log)"

lemma wire_events_simps [simp]:
  "wire_events token now [] = []"
  "wire_events token now (e # log) = emission_events token now e @ wire_events token now log"
  "wire_events token now (log @ log') = wire_events token now log @ wire_events token now log'"
  by (simp_all add: wire_events_def)

definition live :: "writer \<Rightarrow> bool" where
  "live w \<longleftrightarrow> wr_started w \<and> wr_active w \<and> \<not> wr_locked w"

definition all_ok :: "u64 \<Rightarrow> publish_result" where
  "all_ok p = Ok ()"

lemmas run_op_eval = eval_nat_numeral op_start_def op_step_defs all_ok_def

lemma run_start:
  assumes "wr_active w" "\<not> wr_locked w" "\<not> wr_started w"
  shows "\<exists>w'. run_op 11 WStart w now all_ok (op_start WStart) =
      Some (w', Ok (), [EFrame (wr_progress w + 1) (OsStart (wr_content_type w)) True]) \<and>
    live w' \<and> wr_progress w' = wr_progress w + 1 \<and> wr_chunk_index w' = wr_chunk_index w \<and>
    wr_progress_token w' = wr_progress_token w"
  using assms by (auto simp: run_op_eval live_def)

lemma run_write:
  assumes "live w"
  shows "\<exists>w'. run_op 11 (WWrite d) w now all_ok (op_start (WWrite d)) =
      Some (w', Ok (), [EFrame (wr_progress w + 1) (OsChunk (wr_chunk_index w) d) True]) \<and>
    live w' \<and> wr_progress w' = wr_progress w + 1 \<and> wr_chunk_index w' = wr_chunk_index w + 1 \<and>
    wr_progress_token w' = wr_progress_token w"
  using assms by (auto simp: run_op_eval live_def)

lemma run_close_op:
  assumes "live w"
  shows "\<exists>w' hooks. run_op 11 WClose w now all_ok (op_start WClose) =
      Some (w', Ok (), EFrame (wr_progress w + 1) (OsClose (close_index (wr_chunk_index w))) True # hooks) \<and>
    wire_events token t hooks = []"
  using assms by (auto simp: run_op_eval live_def close_index_def split: option.splits)

fun stream_frames :: "u64 \<Rightarrow> u64 \<Rightarrow> string list \<Rightarrow> emission list" where
  "stream_frames p i [] = []"
| "stream_frames p i (d # ds) = EFrame (p + 1) (OsChunk i d) True # stream_frames (p + 1) (i + 1) ds"

lemma run_writes:
  assumes "live w"
  shows "\<exists>w' hooks. run_ops w now all_ok (map WWrite ds @ [WClose]) =
      Some (w', stream_frames (wr_progress w) (wr_chunk_index w) ds @
        EFrame (wr_progress w + of_nat (length ds) + 1)
          (OsClose (close_index (wr_chunk_index w + of_nat (length ds)))) True # hooks) \<and>
    wire_events token t hooks = []"
  using assms
proof (induction ds arbitrary: w)
  case Nil
  from run_close_op [OF Nil, of now token t] show ?case by auto
next
  case (Cons d ds)
  from run_write [OF Cons.prems, of d now] obtain w' where
    w': "run_op 11 (WWrite d) w now all_ok (op_start (WWrite d)) =
      Some (w', Ok (), [EFrame (wr_progress w + 1) (OsChunk (wr_chunk_index w) d) True])"
    "live w'" "wr_progress w' = wr_progress w + 1" "wr_chunk_index w' = wr_chunk_index w + 1" by blast
  from Cons.IH [OF w'(2)] w' show ?case by (auto simp: add.assoc add.left_commute)
qed

section \<open>In-order frames on a session\<close>

text \<open>A live session that has received the chunks \<open>ds\<close> in order and handed out none.\<close>

definition has_received :: "session \<Rightarrow> nat \<Rightarrow> u64 \<Rightarrow> string list \<Rightarrow> bool" where
  "has_received s max_chunks max_bytes ds \<longleftrightarrow>
     ss_active s \<and> ss_started s \<and> \<not> ss_closed_remotely s \<and> ss_buffered s = [] \<and> ss_queue s = ds \<and>
     ss_next_expected_chunk s = of_nat (length ds) \<and> ss_buffered_bytes s = 0 \<and>
     ss_queued_bytes s = of_nat (payload_bytes ds) \<and> ss_last_progress s = int (length ds) + 1 \<and>
     ss_terminal s = None \<and>
     ss_max_buffered_chunks s = max_chunks \<and> ss_max_buffered_bytes s = max_bytes"

lemma start_received:
  "\<exists>s'. session_process_frame (session_new opts t) now 1 (OsStart ct) = (s', Ok OutNone) \<and>
     has_received s' (sop_max_buffered_chunks opts) (sop_max_buffered_bytes opts) []"
  by (simp add: session_process_frame_def assert_active_def assert_progress_def session_new_def
      has_received_def)

lemma chunk_received:
  assumes s: "has_received s mc mb ds" and "length ds < mc"
    and bytes: "payload_bytes ds + length d \<le> unat mb" and q: "q = int (length ds) + 2"
  shows "\<exists>s'. session_process_frame s now q (OsChunk (of_nat (length ds)) d) =
      (s', Ok OutNone) \<and> has_received s' mc mb (ds @ [d])"
proof -
  let ?n = "of_nat (length ds) :: u64"
  let ?s = "s\<lparr>ss_last_progress := q, ss_last_activity := now\<rparr>"
  let ?c = "with_chunk ?s ?n d"
  have "unat mb < 2 ^ 64" by (rule unat_u64_lt)
  with bytes have lt: "payload_bytes ds + length d < 2 ^ 64" by linarith
  have "buffer_chunk ?s ?n d = (?c, Ok ())"
    using s assms(2) bytes lt
    by (simp add: buffer_chunk_def has_received_def with_chunk_def contains_key_def not_less
        word_le_nat_alt unat_of_nat_u64 flip: of_nat_add)
  moreover have "flush_loop ?c = flush_one ?c d"
    using s by (simp add: flush_loop.simps [of ?c] flush_loop.simps [of "flush_one ?c d"]
        has_received_def)
  moreover have "\<not> ss_closed_remotely (flush_one ?c d)" "ss_last_progress s < q" "ss_active s" "ss_started s"
    using s q by (simp_all add: has_received_def)
  ultimately have "session_process_frame s now q (OsChunk ?n d) = (flush_one ?c d, Ok OutNone)"
    by (simp add: session_process_frame_def assert_active_def assert_progress_def
        assert_started_def flush_contiguous_chunks_def Let_def)
  moreover have "has_received (flush_one ?c d) mc mb (ds @ [d])"
    using s lt q by (simp add: has_received_def saturating_sub_u64_def) (simp add: with_chunk_def)
  ultimately show ?thesis by blast
qed

lemma close_received:
  assumes s: "has_received s mc mb ds" and q: "q = int (length ds) + 2"
  shows "\<exists>s'. session_process_frame s now q
      (OsClose (close_index (of_nat (length ds)))) = (s', Ok OutClosed) \<and>
    ss_queue s' = ds \<and> \<not> ss_active s' \<and> ss_terminal s' = None"
proof -
  let ?s = "s\<lparr>ss_last_progress := q, ss_last_activity := now,
    ss_closed_remotely := True, ss_expected_last_chunk_index := close_index (of_nat (length ds))\<rparr>"
  have "flush_loop ?s = ?s" using s by (simp add: flush_loop.simps [of ?s] has_received_def)
  then have "flush_contiguous_chunks ?s = (finalize None ?s, Ok True)"
    using s by (auto simp: flush_contiguous_chunks_def maybe_finish_gracefully_def has_received_def
        close_index_def)
  moreover have "ss_last_progress s < q" using s q by (simp add: has_received_def)
  ultimately show ?thesis
    using s by (simp add: session_process_frame_def assert_active_def assert_progress_def
        assert_started_def has_received_def finalize_terminal)
qed

section \<open>In-order frames on a registry\<close>

text \<open>A registry whose only stream is \<open>token\<close>, with the session \<open>s\<close>.\<close>

definition only_stream :: "registry \<Rightarrow> string \<Rightarrow> session \<Rightarrow> bool" where
  "only_stream rg token s \<longleftrightarrow>
     rg_sessions rg = [(token, \<lparr>re_session = 0, re_on_close = None, re_on_abort = None\<rparr>)] \<and>
     rg_heap rg = [s]"

lemma only_stream_frame:
  assumes "only_stream rg token s" and "token \<noteq> []" and "unat p < 2 ^ 63"
    and "session_process_frame s now (int (unat p)) f = (s', Ok OutNone)"
  shows "\<exists>rg'. registry_step X rg (RgFrame now (os_into_progress_notification f token p None)) = (rg', []) \<and>
    only_stream rg' token s'"
  using assms
  by (simp add: registry_process_frame_def admit_frame_def route_frame_def contains_key_def
      only_stream_def)

lemma only_stream_closed:
  assumes "only_stream rg token s" and "token \<noteq> []" and "unat p < 2 ^ 63"
    and "session_process_frame s now (int (unat p)) f = (s', Ok OutClosed)"
  shows "\<exists>rg'. registry_step X rg (RgFrame now (os_into_progress_notification f token p None)) = (rg', []) \<and>
    rg_sessions rg' = [] \<and> rg_heap rg' = [s']"
  using assms
  by (simp add: registry_process_frame_def admit_frame_def route_frame_def contains_key_def
      only_stream_def Open_Stream_Registry.run_close_def)

lemma unat_of_nat_plus_2: "n + 2 < 2 ^ 64 \<Longrightarrow> unat (of_nat n + 2 :: u64) = n + 2"
  using unat_of_nat_u64 [of "n + 2"] by (simp add: add.commute)

lemma deliver_chunks:
  assumes "only_stream rg token s" "token \<noteq> []" "has_received s mc mb ds"
    and "length (ds @ ds') \<le> mc" "payload_bytes (ds @ ds') \<le> unat mb"
    and "length (ds @ ds') + 2 < 2 ^ 63"
  shows "\<exists>rg' s'. fst (run_steps (registry_step X) rg (wire_events token now
      (stream_frames (of_nat (length ds) + 1) (of_nat (length ds)) ds'))) = rg' \<and>
    only_stream rg' token s' \<and> has_received s' mc mb (ds @ ds')"
  using assms
proof (induction ds' arbitrary: rg s ds)
  case Nil
  then show ?case by auto
next
  case (Cons d ds')
  let ?p = "of_nat (length ds) + 2 :: u64"
  have p: "unat ?p = length ds + 2"
    using Cons.prems(6) by (intro unat_of_nat_plus_2) simp
  from chunk_received [OF Cons.prems(3), of d "int (unat ?p)" now] Cons.prems(4,5) p obtain s1 where
    s1: "session_process_frame s now (int (unat ?p)) (OsChunk (of_nat (length ds)) d) = (s1, Ok OutNone)"
    "has_received s1 mc mb (ds @ [d])" by auto
  have "unat ?p < 2 ^ 63" using Cons.prems(6) p by simp
  from only_stream_frame [OF Cons.prems(1,2) this s1(1)] obtain rg1 where
    rg1: "registry_step X rg (RgFrame now (os_into_progress_notification
        (OsChunk (of_nat (length ds)) d) token ?p None)) = (rg1, [])" "only_stream rg1 token s1"
    by blast
  have ev: "wire_events token now
      (stream_frames (of_nat (length ds) + 1) (of_nat (length ds)) (d # ds')) =
      RgFrame now (os_into_progress_notification (OsChunk (of_nat (length ds)) d) token ?p None) #
      wire_events token now
        (stream_frames (of_nat (length (ds @ [d])) + 1) (of_nat (length (ds @ [d]))) ds')"
    by (simp add: ac_simps)
  from Cons.IH [OF rg1(2) Cons.prems(2) s1(2)] Cons.prems(4-6) show ?case
    unfolding ev by (simp add: rg1(1) split_beta Let_def del: registry_step.simps)
qed

lemma deliver_stream:
  assumes token: "token \<noteq> []" and lim: "0 < rp_max_concurrent_streams policy"
    "length ds \<le> rp_max_buffered_chunks_per_stream policy"
    "payload_bytes ds \<le> rp_max_buffered_bytes_per_stream policy"
    "rp_max_buffered_bytes_per_stream policy < 2 ^ 64" "length ds + 2 < 2 ^ 63"
    and hooks: "wire_events token now hooks = []"
  shows "\<exists>rg s. fst (run_steps (registry_step X) (registry_with_policy policy) (wire_events token now
      (EFrame 1 (OsStart ct) True # stream_frames 1 0 ds @
       EFrame (of_nat (length ds) + 2) (OsClose (close_index (of_nat (length ds)))) True # hooks))) = rg \<and>
    rg_sessions rg = [] \<and> rg_heap rg = [s] \<and>
    ss_queue s = ds \<and> \<not> ss_active s \<and> ss_terminal s = None"
proof -
  let ?step = "registry_step X" and ?rg = "registry_with_policy policy"
  let ?mc = "rp_max_buffered_chunks_per_stream policy"
    and ?mb = "of_nat (rp_max_buffered_bytes_per_stream policy) :: u64"
  have mb: "unat ?mb = rp_max_buffered_bytes_per_stream policy"
    using lim(4) by (simp add: unat_of_nat_u64)
  obtain rg0 where "\<exists>s. ?step ?rg (RgFrame now (os_into_progress_notification (OsStart ct) token 1 None)) = (rg0, []) \<and>
      only_stream rg0 token s \<and> has_received s ?mc ?mb []"
    using token lim(1)
    by (simp add: registry_process_frame_def admit_frame_def route_frame_def contains_key_def
        create_session_with_def registry_with_policy_def default_session_init_def only_stream_def
        session_process_frame_def assert_active_def assert_progress_def session_new_def
        has_received_def)
  then obtain s0 where rg0: "?step ?rg (RgFrame now (os_into_progress_notification (OsStart ct) token 1 None)) = (rg0, [])"
    "only_stream rg0 token s0" "has_received s0 ?mc ?mb []" by blast
  from deliver_chunks [OF rg0(2) token rg0(3), of ds X now] lim mb obtain rg1 s1 where
    rg1: "fst (run_steps ?step rg0 (wire_events token now (stream_frames 1 0 ds))) = rg1"
    "only_stream rg1 token s1" "has_received s1 ?mc ?mb ds" by auto
  let ?p = "of_nat (length ds) + 2 :: u64"
  have p: "unat ?p = length ds + 2"
    using lim(5) by (intro unat_of_nat_plus_2) simp
  from close_received [OF rg1(3), of "int (unat ?p)" now] p obtain s2 where
    s2: "session_process_frame s1 now (int (unat ?p)) (OsClose (close_index (of_nat (length ds)))) =
      (s2, Ok OutClosed)" "ss_queue s2 = ds" "\<not> ss_active s2" "ss_terminal s2 = None" by auto
  have "unat ?p < 2 ^ 63" using lim(5) p by simp
  from only_stream_closed [OF rg1(2) token this s2(1)] obtain rg2 where
    rg2: "?step rg1 (RgFrame now (os_into_progress_notification
      (OsClose (close_index (of_nat (length ds)))) token ?p None)) = (rg2, [])"
    "rg_sessions rg2 = []" "rg_heap rg2 = [s2]" by blast
  have "fst (run_steps ?step ?rg (wire_events token now (EFrame 1 (OsStart ct) True # stream_frames 1 0 ds @
      EFrame ?p (OsClose (close_index (of_nat (length ds)))) True # hooks))) = rg2"
    using rg0(1) rg1(1) rg2(1) hooks
    by (simp add: run_steps_append split_beta Let_def del: registry_step.simps)
  with rg2 s2 show ?thesis by blast
qed

section \<open>Properties\<close>

text \<open>C5. What the writer puts on the wire, whatever the interleaving. After any schedule of fewer than
  \<open>2 ^ 64\<close> steps of any number of concurrent calls, ticks, acknowledgements and disposals, with any
  answers of the publisher: no two frames carry the same progress; the frames published under the
  lock (start, chunk, pong, close) go out in strictly increasing progress; the chunks the publisher
  accepted are numbered from 0 without a gap; at most one terminal frame is published; and a close
  frame declares exactly the chunks accepted.\<close>

theorem writer_wire_discipline:
  assumes "fst (run_steps writer_system_step (writer_new opts t0, [], []) es) = (w, ts, log)"
    and "length es < 2 ^ 64"
  shows "distinct (concat (map emitted_progress log)) \<and>
    sorted_wrt (<) (locked_progress log) \<and>
    map fst (accepted_chunks log) = map of_nat [0..<length (accepted_chunks log)] \<and>
    length (filter emitted_terminal log) \<le> 1 \<and>
    (\<forall>p l ok. EFrame p (OsClose l) ok \<in> set log \<longrightarrow>
       l = close_index (of_nat (length (accepted_chunks log))))"
proof -
  have inv: "writer_inv (w, ts, log)"
    using writer_m.run_inv [OF writer_new_inv, of opts t0 es] assms(1) by simp
  have small: "length (minted ts log) < 2 ^ 64"
    using minted_run_le [OF writer_new_inv assms(1)] assms(2) by (simp add: minted_def)
  have "distinct (minted ts log)"
    by (rule minted_distinct [OF _ small, of w]) (use inv in \<open>simp add: writer_inv_def\<close>)
  moreover have "l \<in> set (closes ts log)" if "EFrame p (OsClose l) ok \<in> set log" for p l ok
    using that by (force simp: closes_def)
  ultimately show ?thesis
    using inv small
    by (auto simp: writer_inv_def minted_def order_inv_def chunk_inv_def terminal_inv_def
        close_inv_def split: if_splits)
qed

definition sample_writer_options :: writer_options where
  "sample_writer_options = \<lparr>wo_progress_token = ''t'', wo_content_type = None, wo_on_close = None,
     wo_on_abort = None, wo_idle_timeout = Some 10, wo_probe_timeout = 10\<rparr>"

definition sample_schedule :: "writer_event list" where
  "sample_schedule = ECall WStart # replicate 6 (ESched 0 0 (Ok ())) @
     [ECall (WProbe ''n''), ESched 1 0 (Ok ()), ESched 1 0 (Ok ()), ECall (WWrite ''x'')] @
     replicate 5 (ESched 2 0 (Ok ())) @ [ESched 1 0 (Ok ())]"

lemma sample_schedule_log:
  "snd (snd (fst (run_steps writer_system_step (writer_new sample_writer_options 0, [], [])
     sample_schedule))) =
   [EFrame 1 (OsStart None) True, EFrame 3 (OsChunk 0 ''x'') True, EFrame 2 (OsPing ''n'') True]"
  by (simp add: sample_schedule_def eval_nat_numeral op_step_defs op_start_def writer_new_def
      sample_writer_options_def)

theorem writer_wire_discipline_witness:
  "\<exists>w ts log. fst (run_steps writer_system_step (writer_new sample_writer_options 0, [], [])
       sample_schedule) = (w, ts, log) \<and>
     distinct (concat (map emitted_progress log)) \<and> sorted_wrt (<) (locked_progress log)"
proof -
  obtain w ts log where r: "fst (run_steps writer_system_step (writer_new sample_writer_options 0, [], [])
      sample_schedule) = (w, ts, log)" by (metis prod_cases3)
  have "length sample_schedule < 2 ^ 64" by (simp add: sample_schedule_def)
  from writer_wire_discipline [OF r this] r show ?thesis by blast
qed

text \<open>C27. Every method returns. Called when no other method holds the lock, each of the writer's
  methods finishes within ten steps, whatever the publisher answers, and the lock is free
  afterwards.\<close>

theorem writer_method_returns:
  assumes "\<not> wr_locked w"
  shows "\<exists>w' r out. run_op 11 op w now pub (op_start op) = Some (w', r, out) \<and> \<not> wr_locked w'"
  using assms by (intro run_op_returns) (auto simp: op_start_def holds_lock_def)

theorem writer_method_returns_witness:
  "\<exists>w' r out. run_op 11 WClose (writer_new sample_writer_options 0) 0 (\<lambda>p. Err ''down'')
     (op_start WClose) = Some (w', r, out) \<and> \<not> wr_locked w'"
  using writer_method_returns [of "writer_new sample_writer_options 0" WClose 0 "\<lambda>p. Err ''down''"]
  by (simp add: writer_new_def)

text \<open>C3. A stream is read back as it was written. A writer that starts, writes the chunks \<open>ds\<close> and
  closes, with a publisher that accepts every frame, publishes frames that, fed in that order to a
  new registry whose limits admit them, leave no stream registered and one finished session, from
  which the consumer reads exactly \<open>ds\<close> and then the end of the stream.\<close>

theorem open_stream_roundtrip:
  assumes "wo_progress_token opts \<noteq> []" and "0 < rp_max_concurrent_streams policy"
    and "length ds \<le> rp_max_buffered_chunks_per_stream policy"
    and "sum_list (map length ds) \<le> rp_max_buffered_bytes_per_stream policy"
    and "rp_max_buffered_bytes_per_stream policy < 2 ^ 64" and "length ds + 2 < 2 ^ 63"
  shows "\<exists>w log rg s. run_ops (writer_new opts t0) t1 all_ok (WStart # map WWrite ds @ [WClose]) = Some (w, log) \<and>
    fst (run_steps (registry_step X) (registry_with_policy policy)
      (wire_events (wo_progress_token opts) t2 log)) = rg \<and>
    registry_size rg = 0 \<and> rg_heap rg = [s] \<and>
    snd (run_steps session_step s (replicate (length ds + 2) SPoll)) =
      map item ds @ [end_of_stream, end_of_stream]"
proof -
  let ?w = "writer_new opts t0"
  have w: "wr_active ?w" "\<not> wr_locked ?w" "\<not> wr_started ?w" "wr_progress ?w = 0" "wr_chunk_index ?w = 0"
    by (simp_all add: writer_new_def)
  from run_start [OF w(1-3), of t1] w(4,5) obtain w1 where
    w1: "run_op 11 WStart ?w t1 all_ok (op_start WStart) =
      Some (w1, Ok (), [EFrame 1 (OsStart (wr_content_type ?w)) True])"
    "live w1" "wr_progress w1 = 1" "wr_chunk_index w1 = 0" by auto
  from run_writes [OF w1(2), of t1 ds "wo_progress_token opts" t2] w1(3,4) obtain w2 hooks where
    w2: "run_ops w1 t1 all_ok (map WWrite ds @ [WClose]) =
      Some (w2, stream_frames 1 0 ds @ EFrame (of_nat (length ds) + 2)
        (OsClose (close_index (of_nat (length ds)))) True # hooks)"
    "wire_events (wo_progress_token opts) t2 hooks = []" by (auto simp: add.commute)
  let ?log = "EFrame 1 (OsStart (wr_content_type ?w)) True # stream_frames 1 0 ds @
    EFrame (of_nat (length ds) + 2) (OsClose (close_index (of_nat (length ds)))) True # hooks"
  have run: "run_ops ?w t1 all_ok (WStart # map WWrite ds @ [WClose]) = Some (w2, ?log)"
    using w1(1) w2(1) by simp
  from deliver_stream [OF assms(1-3) _ assms(5,6) w2(2), of X "wr_content_type ?w"] assms(4)
  obtain rg s where rg: "fst (run_steps (registry_step X) (registry_with_policy policy)
      (wire_events (wo_progress_token opts) t2 ?log)) = rg"
    "rg_sessions rg = []" "rg_heap rg = [s]" "ss_queue s = ds" "\<not> ss_active s" "ss_terminal s = None"
    unfolding payload_bytes_def by blast
  have "snd (run_steps session_step s (replicate (length ds + 2) SPoll)) =
      map item ds @ [end_of_stream, end_of_stream]"
    using drain_finished [OF rg(5)] rg(4,6) by simp
  with run rg show ?thesis by (auto simp: registry_size_def)
qed

theorem open_stream_roundtrip_witness:
  "\<exists>w log rg s. run_ops (writer_new sample_writer_options 0) 0 all_ok
      (WStart # map WWrite [''x'', ''y''] @ [WClose]) = Some (w, log) \<and>
    fst (run_steps (registry_step plain_ext) (registry_with_policy default_registry_policy)
      (wire_events (wo_progress_token sample_writer_options) 0 log)) = rg \<and>
    registry_size rg = 0 \<and> rg_heap rg = [s] \<and>
    snd (run_steps session_step s (replicate (length [''x'', ''y''] + 2) SPoll)) =
      map item [''x'', ''y''] @ [end_of_stream, end_of_stream]"
  by (rule open_stream_roundtrip)
     (simp_all add: sample_writer_options_def default_registry_policy_def
       DEFAULT_MAX_CONCURRENT_OPEN_STREAMS_def DEFAULT_MAX_BUFFERED_CHUNKS_PER_STREAM_def
       DEFAULT_MAX_BUFFERED_BYTES_PER_STREAM_def)

text \<open>A keepalive probe can end a healthy stream. The probe takes its progress outside the lock:
  there is a schedule, with a publisher that accepts everything, in which a chunk with a later
  progress is published before the probe; a reader that gets the frames in the order of
  publication rejects the probe and fails the stream.\<close>

theorem probe_overtaken_fails_stream:
  "\<exists>es log. snd (snd (fst (run_steps writer_system_step (writer_new sample_writer_options 0, [], []) es))) = log \<and>
     log = [EFrame 1 (OsStart None) True, EFrame 3 (OsChunk 0 ''x'') True, EFrame 2 (OsPing ''n'') True] \<and>
     snd (snd (registry_process_frame plain_ext
       (fst (run_steps (registry_step plain_ext) (registry_with_policy default_registry_policy)
         (wire_events ''t'' 0 (butlast log)))) 0
       (os_into_progress_notification (OsPing ''n'') ''t'' 2 None))) =
     Err (OsSequence ''Non-increasing progress for stream t'')"
  by (rule exI [of _ sample_schedule]) (simp add: sample_schedule_log registry_eval stream_eval)

text \<open>A minted nonce is the token and a counter, so for a token of 63 bytes or more the reader
  rejects every ping of the writer.\<close>

lemma minted_nonce_over_cap:
  assumes "63 \<le> length (wr_progress_token w)" and "control_nonce w = (w', nonce)"
  shows "\<exists>e. snd (session_dispatch s now (OsPing nonce)) = Err e"
proof -
  have "1 \<le> length (dec_u64 (wr_control_nonce w + 1))" by (simp add: dec_u64_def Suc_le_eq)
  with assms have "64 < length nonce" by (auto simp: control_nonce_def Let_def)
  then show ?thesis
    by (simp add: assert_started_def MAX_OPEN_STREAM_PING_NONCE_BYTES_def)
qed

end
