(* ===== verification/Lru.thy ===== *)
theory Lru
  imports Json
begin

text \<open>
  The interface of the \<open>lru\<close> crate's \<open>LruCache<String, V>\<close>, on which the correlation and session
  stores are built. The cache is a parameter: a record of the operations the code calls. The locale
  states what the crate documents of them, in terms of \<open>iter\<close>, which lists the entries from the most
  to the least recently used: \<open>push\<close> makes its key the most recent and returns the old entry of that
  key or the least recent entry it evicted, \<open>get_mut\<close> promotes, \<open>peek\<close>, \<open>peek_mut\<close> and \<open>contains\<close> do not,
  \<open>pop\<close> removes. The bounded most-recent-first list at the end implements it.
\<close>

section \<open>Operations\<close>

record ('c, 'v) lru_ops =
  lru_new :: "nat \<Rightarrow> 'c"
  lru_push :: "'c \<Rightarrow> string \<Rightarrow> 'v \<Rightarrow> 'c \<times> (string \<times> 'v) option"
  lru_pop :: "'c \<Rightarrow> string \<Rightarrow> 'c \<times> 'v option"
  lru_modify :: "'c \<Rightarrow> string \<Rightarrow> ('v \<Rightarrow> 'v) \<Rightarrow> 'c"
  lru_peek_mut :: "'c \<Rightarrow> string \<Rightarrow> ('v \<Rightarrow> 'v) \<Rightarrow> 'c"
  lru_clear :: "'c \<Rightarrow> 'c"
  lru_iter :: "'c \<Rightarrow> (string \<times> 'v) list"
  lru_cap :: "'c \<Rightarrow> nat"

text \<open>\<open>peek\<close>, \<open>contains\<close> and \<open>len\<close> are read off the entries. \<open>lru_modify\<close> is \<open>get_mut\<close> and
  \<open>lru_peek_mut\<close> is \<open>peek_mut\<close>, followed by the caller's change of the value it borrowed.\<close>

definition lru_peek :: "('c, 'v) lru_ops \<Rightarrow> 'c \<Rightarrow> string \<Rightarrow> 'v option" where
  "lru_peek L c k = map_of (lru_iter L c) k"

lemma lru_peek_fun: "lru_peek L c = map_of (lru_iter L c)"
  by (rule ext) (simp add: lru_peek_def)

definition lru_contains :: "('c, 'v) lru_ops \<Rightarrow> 'c \<Rightarrow> string \<Rightarrow> bool" where
  "lru_contains L c k \<longleftrightarrow> lru_peek L c k \<noteq> None"

definition lru_len :: "('c, 'v) lru_ops \<Rightarrow> 'c \<Rightarrow> nat" where
  "lru_len L c = length (lru_iter L c)"

text \<open>\<open>put\<close> is \<open>push\<close> without the returned entry, and \<open>get\<close> reads and promotes.\<close>

definition lru_put :: "('c, 'v) lru_ops \<Rightarrow> 'c \<Rightarrow> string \<Rightarrow> 'v \<Rightarrow> 'c" where
  "lru_put L c k v = fst (lru_push L c k v)"

definition lru_get :: "('c, 'v) lru_ops \<Rightarrow> 'c \<Rightarrow> string \<Rightarrow> 'c \<times> 'v option" where
  "lru_get L c k = (lru_modify L c k (\<lambda>v. v), lru_peek L c k)"

text \<open>The loops that pop every key of a list.\<close>

primrec pop_all :: "('c, 'v) lru_ops \<Rightarrow> string list \<Rightarrow> 'c \<Rightarrow> 'c" where
  "pop_all L [] c = c"
| "pop_all L (key # keys) c = pop_all L keys (fst (lru_pop L c key))"

text \<open>\<open>NonZeroUsize::new(n).unwrap_or(1)\<close>.\<close>

definition non_zero :: "nat \<Rightarrow> nat" where
  "non_zero n = (if n = 0 then 1 else n)"

section \<open>Laws\<close>

locale lru =
  fixes L :: "('c, 'v) lru_ops"
    and valid :: "'c \<Rightarrow> bool"
  assumes valid_keys: "valid c \<Longrightarrow> keys_ok (lru_iter L c)"
    and valid_len: "valid c \<Longrightarrow> length (lru_iter L c) \<le> lru_cap L c"
    and valid_cap: "valid c \<Longrightarrow> 0 < lru_cap L c"
    and new_valid: "0 < n \<Longrightarrow> valid (lru_new L n)"
    and new_iter: "lru_iter L (lru_new L n) = []"
    and new_cap: "lru_cap L (lru_new L n) = n"
    and push_valid: "valid c \<Longrightarrow> valid (fst (lru_push L c k v))"
    and push_cap: "lru_cap L (fst (lru_push L c k v)) = lru_cap L c"
    and push_old: "valid c \<Longrightarrow> map_of (lru_iter L c) k = Some w \<Longrightarrow>
      lru_iter L (fst (lru_push L c k v)) = (k, v) # AList.delete k (lru_iter L c) \<and>
      snd (lru_push L c k v) = Some (k, w)"
    and push_new: "valid c \<Longrightarrow> map_of (lru_iter L c) k = None \<Longrightarrow>
      length (lru_iter L c) < lru_cap L c \<Longrightarrow>
      lru_iter L (fst (lru_push L c k v)) = (k, v) # lru_iter L c \<and> snd (lru_push L c k v) = None"
    and push_evict: "valid c \<Longrightarrow> map_of (lru_iter L c) k = None \<Longrightarrow>
      length (lru_iter L c) = lru_cap L c \<Longrightarrow>
      lru_iter L (fst (lru_push L c k v)) = (k, v) # butlast (lru_iter L c) \<and>
      snd (lru_push L c k v) = Some (last (lru_iter L c))"
    and pop_valid: "valid c \<Longrightarrow> valid (fst (lru_pop L c k))"
    and pop_cap: "lru_cap L (fst (lru_pop L c k)) = lru_cap L c"
    and pop_iter: "valid c \<Longrightarrow> lru_iter L (fst (lru_pop L c k)) = AList.delete k (lru_iter L c)"
    and pop_res: "valid c \<Longrightarrow> snd (lru_pop L c k) = map_of (lru_iter L c) k"
    and modify_valid: "valid c \<Longrightarrow> valid (lru_modify L c k f)"
    and modify_cap: "lru_cap L (lru_modify L c k f) = lru_cap L c"
    and modify_iter: "valid c \<Longrightarrow>
      lru_iter L (lru_modify L c k f) =
        (case map_of (lru_iter L c) k of
           None \<Rightarrow> lru_iter L c
         | Some v \<Rightarrow> (k, f v) # AList.delete k (lru_iter L c))"
    and peek_mut_valid: "valid c \<Longrightarrow> valid (lru_peek_mut L c k f)"
    and peek_mut_cap: "lru_cap L (lru_peek_mut L c k f) = lru_cap L c"
    and peek_mut_iter: "valid c \<Longrightarrow>
      lru_iter L (lru_peek_mut L c k f) = map (\<lambda>(k', v). (k', if k' = k then f v else v)) (lru_iter L c)"
    and clear_valid: "valid c \<Longrightarrow> valid (lru_clear L c)"
    and clear_cap: "lru_cap L (lru_clear L c) = lru_cap L c"
    and clear_iter: "lru_iter L (lru_clear L c) = []"
begin

lemmas lru_valid = push_valid pop_valid modify_valid clear_valid
lemmas lru_caps = new_cap push_cap pop_cap modify_cap clear_cap

text \<open>The effect of a push on the lookups, in all three cases.\<close>

lemma push_result:
  assumes "valid c"
  shows "(\<exists>w. snd (lru_push L c k v) = Some (k, w) \<and> lru_peek L c k = Some w \<and>
      lru_peek L (fst (lru_push L c k v)) = (lru_peek L c)(k \<mapsto> v)) \<or>
    snd (lru_push L c k v) = None \<and> lru_peek L c k = None \<and>
      lru_peek L (fst (lru_push L c k v)) = (lru_peek L c)(k \<mapsto> v) \<or>
    (\<exists>e w. e \<noteq> k \<and> snd (lru_push L c k v) = Some (e, w) \<and> lru_peek L c k = None \<and>
      lru_peek L c e = Some w \<and>
      lru_peek L (fst (lru_push L c k v)) = (lru_peek L c)(e := None, k \<mapsto> v))"
proof (cases "map_of (lru_iter L c) k")
  case (Some w)
  then show ?thesis
    using push_old [OF assms Some, of v] by (auto simp: lru_peek_fun fun_eq_iff)
next
  case None
  show ?thesis
  proof (cases "length (lru_iter L c) < lru_cap L c")
    case True
    then show ?thesis using push_new [OF assms None True, of v] None by (simp add: lru_peek_fun)
  next
    case False
    then have full: "length (lru_iter L c) = lru_cap L c" using valid_len [OF assms] by simp
    then have ne: "lru_iter L c \<noteq> []" using valid_cap [OF assms] by auto
    obtain e w where e: "last (lru_iter L c) = (e, w)" by fastforce
    have split: "lru_iter L c = butlast (lru_iter L c) @ [(e, w)]" using ne e by (metis append_butlast_last_id)
    have fresh: "map_of (butlast (lru_iter L c)) e = None"
      using valid_keys [OF assms] split
      by (metis (no_types, lifting) distinct_append distinct_map keys_ok_def list.simps(8,9) map_append
          map_of_eq_None_iff not_distinct_conv_prefix disjoint_insert(2) fst_conv list.set(2) set_map)
    have peek: "map_of (lru_iter L c) = map_of [(e, w)] ++ map_of (butlast (lru_iter L c))"
      by (subst split) simp
    have "e \<noteq> k" using None peek by (auto simp: map_add_def split: option.splits)
    moreover have "map_of (lru_iter L c) e = Some w" using peek fresh by (simp add: map_add_def)
    moreover have "map_of (butlast (lru_iter L c)) = (map_of (lru_iter L c))(e := None)"
      using peek fresh by (auto simp: fun_eq_iff map_add_def split: option.splits)
    ultimately show ?thesis
      using push_evict [OF assms None full, of v] None e
      by (auto simp: lru_peek_fun)
  qed
qed

lemma pop_peek: "valid c \<Longrightarrow> lru_peek L (fst (lru_pop L c k)) = (lru_peek L c)(k := None)"
  "valid c \<Longrightarrow> snd (lru_pop L c k) = lru_peek L c k"
  by (simp_all add: lru_peek_fun pop_iter pop_res)

lemma modify_peek:
  "valid c \<Longrightarrow> lru_peek L (lru_modify L c k f) = (lru_peek L c)(k := map_option f (lru_peek L c k))"
  by (auto simp: lru_peek_fun modify_iter fun_eq_iff split: option.splits)

lemma peek_mut_peek:
  "valid c \<Longrightarrow> lru_peek L (lru_peek_mut L c k f) = (lru_peek L c)(k := map_option f (lru_peek L c k))"
proof -
  have "map_of (map (\<lambda>(k', v). (k', if k' = k then f v else v)) es) =
      (map_of es)(k := map_option f (map_of es k))" for es :: "(string \<times> 'v) list"
    by (induction es) (auto simp: fun_eq_iff)
  then show "valid c \<Longrightarrow> ?thesis" by (simp add: lru_peek_fun peek_mut_iter)
qed

lemma new_peek: "lru_peek L (lru_new L n) k = None"
  by (simp add: lru_peek_fun new_iter)

lemma clear_peek: "lru_peek L (lru_clear L c) k = None"
  by (simp add: lru_peek_fun clear_iter)

lemma len_card: "valid c \<Longrightarrow> lru_len L c = card (dom (lru_peek L c))"
  using valid_keys [of c] distinct_card [of "map fst (lru_iter L c)"]
  by (simp add: lru_len_def lru_peek_fun dom_map_of_conv_image_fst keys_ok_def)

lemma get_simps:
  "snd (lru_get L c k) = lru_peek L c k"
  "valid c \<Longrightarrow> valid (fst (lru_get L c k))"
  "valid c \<Longrightarrow> lru_peek L (fst (lru_get L c k)) = lru_peek L c"
  "lru_cap L (fst (lru_get L c k)) = lru_cap L c"
  by (simp_all add: lru_get_def modify_valid modify_peek modify_cap option.map_ident)

lemma put_valid: "valid c \<Longrightarrow> valid (lru_put L c k v)"
  and put_cap: "lru_cap L (lru_put L c k v) = lru_cap L c"
  by (simp_all add: lru_put_def push_valid push_cap)

lemma pop_all_valid: "valid c \<Longrightarrow> valid (pop_all L keys c)"
  by (induction keys arbitrary: c) (simp_all add: pop_valid)

lemma pop_all_peek: "valid c \<Longrightarrow> lru_peek L (pop_all L keys c) = lru_peek L c |` (- set keys)"
proof (induction keys arbitrary: c)
  case (Cons key keys)
  then have "lru_peek L (pop_all L (key # keys) c) = (lru_peek L c)(key := None) |` (- set keys)"
    by (simp add: pop_valid pop_peek del: fun_upd_apply restrict_fun_upd)
  then show ?case by (auto simp: restrict_map_def fun_eq_iff)
qed (simp add: restrict_map_def)

lemma pop_all_cap: "lru_cap L (pop_all L keys c) = lru_cap L c"
  by (induction keys arbitrary: c) (simp_all add: pop_cap)

text \<open>A \<open>put\<close> may lose other entries to eviction, and loses none while the keys in use fit.\<close>

lemma put_peek_le: "valid c \<Longrightarrow> lru_peek L (lru_put L c k v) \<subseteq>\<^sub>m (lru_peek L c)(k \<mapsto> v)"
  using push_result [of c k v] by (auto simp: lru_put_def map_le_def split: if_splits)

lemma put_peek_key: "valid c \<Longrightarrow> lru_peek L (lru_put L c k v) k = Some v"
  using push_result [of c k v] by (auto simp: lru_put_def)

lemma put_peek_room:
  assumes "valid c" "lru_len L c < lru_cap L c \<or> lru_peek L c k \<noteq> None"
  shows "lru_peek L (lru_put L c k v) = (lru_peek L c)(k \<mapsto> v)"
proof (cases "map_of (lru_iter L c) k")
  case None
  then show ?thesis
    using push_new [OF assms(1) None, of v] assms(2)
    by (simp add: lru_put_def lru_peek_fun lru_len_def)
next
  case (Some w)
  then show ?thesis
    using push_old [OF assms(1) Some, of v] by (auto simp: lru_put_def lru_peek_fun fun_eq_iff)
qed

lemma put_peek_within:
  assumes "valid c" "dom (lru_peek L c) \<subseteq> K" "k \<in> K" "finite K" "card K \<le> lru_cap L c"
  shows "lru_peek L (lru_put L c k v) = (lru_peek L c)(k \<mapsto> v)"
proof (rule put_peek_room [OF assms(1)])
  show "lru_len L c < lru_cap L c \<or> lru_peek L c k \<noteq> None"
  proof (cases "lru_peek L c k")
    case None
    then have "dom (lru_peek L c) \<subset> K" using assms(2,3) by auto
    then have "card (dom (lru_peek L c)) < card K" using assms(4) by (rule psubset_card_mono [rotated])
    then show ?thesis using assms(1,5) by (simp add: len_card)
  qed simp
qed

end

section \<open>A bounded list\<close>

type_synonym 'v lru_list = "nat \<times> (string \<times> 'v) list"

definition list_push :: "'v lru_list \<Rightarrow> string \<Rightarrow> 'v \<Rightarrow> 'v lru_list \<times> (string \<times> 'v) option" where
  "list_push c k v =
     (case c of (cap, es) \<Rightarrow>
        (case map_of es k of
           Some w \<Rightarrow> ((cap, (k, v) # AList.delete k es), Some (k, w))
         | None \<Rightarrow>
             if length es < cap then ((cap, (k, v) # es), None)
             else ((cap, (k, v) # butlast es), Some (last es))))"

definition list_lru :: "('v lru_list, 'v) lru_ops" where
  "list_lru =
     \<lparr>lru_new = (\<lambda>n. (n, [])),
      lru_push = list_push,
      lru_pop = (\<lambda>(cap, es) k. ((cap, AList.delete k es), map_of es k)),
      lru_modify = (\<lambda>(cap, es) k f.
        (cap, case map_of es k of None \<Rightarrow> es | Some v \<Rightarrow> (k, f v) # AList.delete k es)),
      lru_peek_mut = (\<lambda>(cap, es) k f. (cap, map (\<lambda>(k', v). (k', if k' = k then f v else v)) es)),
      lru_clear = (\<lambda>(cap, es). (cap, [])),
      lru_iter = snd,
      lru_cap = fst\<rparr>"

definition list_lru_valid :: "'v lru_list \<Rightarrow> bool" where
  "list_lru_valid c \<longleftrightarrow> keys_ok (snd c) \<and> length (snd c) \<le> fst c \<and> 0 < fst c"

lemma keys_ok_front:
  "keys_ok m \<Longrightarrow> keys_ok ((k, v) # AList.delete k m)"
  by (simp add: keys_ok_def delete_keys distinct_removeAll)

lemma keys_ok_butlast: "keys_ok m \<Longrightarrow> keys_ok (butlast m)"
  by (simp add: keys_ok_def map_butlast distinct_butlast)

lemma list_push_valid:
  assumes "list_lru_valid c"
  shows "list_lru_valid (fst (list_push c k v))"
proof -
  obtain cap es where c: "c = (cap, es)" by (cases c)
  have es: "keys_ok es" "length es \<le> cap" "0 < cap"
    using assms by (simp_all add: list_lru_valid_def c)
  show ?thesis
  proof (cases "map_of es k")
    case None
    then have "k \<notin> fst ` set es" "k \<notin> fst ` set (butlast es)"
      by (auto simp: map_of_eq_None_iff dest: in_set_butlastD)
    then show ?thesis
      using None es keys_ok_butlast [OF es(1)]
      by (auto simp: list_push_def list_lru_valid_def c keys_ok_def)
  next
    case (Some w)
    then have "length (AList.delete k es) < length es"
      by (simp add: contains_key_def length_delete_present)
    then show ?thesis
      using Some es keys_ok_front [OF es(1), of k v]
      by (simp add: list_push_def list_lru_valid_def c)
  qed
qed

lemma list_modify_valid:
  assumes "keys_ok es" "length es \<le> cap" "map_of es k = Some w"
  shows "keys_ok ((k, v) # AList.delete k es)" "Suc (length (AList.delete k es)) \<le> cap"
proof -
  show "keys_ok ((k, v) # AList.delete k es)" using assms(1) by (rule keys_ok_front)
  have "length (AList.delete k es) < length es"
    using assms(3) by (simp add: contains_key_def length_delete_present)
  with assms(2) show "Suc (length (AList.delete k es)) \<le> cap" by simp
qed

lemmas list_lru_ops = list_lru_def list_lru_valid_def

interpretation list_lru: lru list_lru list_lru_valid
proof
  fix c :: "'a lru_list" and k v n f
  show "list_lru_valid c \<Longrightarrow> list_lru_valid (fst (lru_push list_lru c k v))"
    using list_push_valid [of c k v] by (simp add: list_lru_def)
  show "lru_cap list_lru (fst (lru_push list_lru c k v)) = lru_cap list_lru c"
    by (simp add: list_lru_def list_push_def split: prod.splits option.splits)
  show "list_lru_valid c \<Longrightarrow> list_lru_valid (fst (lru_pop list_lru c k))"
    using length_delete_le [of k "snd c"] by (cases c) (simp add: list_lru_ops)
  show "list_lru_valid c \<Longrightarrow> list_lru_valid (lru_modify list_lru c k f)"
    using list_modify_valid [of "snd c" "fst c" k]
    by (cases c) (auto simp: list_lru_ops split: option.splits)
  show "list_lru_valid c \<Longrightarrow> list_lru_valid (lru_peek_mut list_lru c k f)"
    by (cases c) (simp add: list_lru_ops keys_ok_def comp_def case_prod_unfold)
qed (auto simp: list_lru_ops list_push_def split: option.splits prod.splits)

end
