(* ===== verification/Authorization.thy ===== *)
theory Authorization
  imports Lru Json_Rpc
begin

text \<open>
  The authorization of priced invocations in explicit-gating sessions: the canonical invocation
  identity (\<open>src/payments/canonical.rs\<close>) and the store of pending and granted payments
  (\<open>src/payments/authorization_store.rs\<close>). Each store operation is one critical section on two
  LRU caches, so it is one step on the state; the instant it reads is an argument.
\<close>

section \<open>Canonical identity\<close>

definition MAX_SAFE_INTEGER :: int where "MAX_SAFE_INTEGER = 9007199254740991"

fun contains_unsafe_json_integer :: "json \<Rightarrow> bool" where
  "contains_unsafe_json_integer (JNumber n) =
     (case number_as_i64 n of
        Some i \<Rightarrow> \<not> (- MAX_SAFE_INTEGER \<le> i \<and> i \<le> MAX_SAFE_INTEGER)
      | None \<Rightarrow>
          (case number_as_u64 n of
             Some u \<Rightarrow> MAX_SAFE_INTEGER < int (unat u)
           | None \<Rightarrow> False))"
| "contains_unsafe_json_integer (JArray items) = list_ex contains_unsafe_json_integer items"
| "contains_unsafe_json_integer (JObject m) = list_ex (\<lambda>(k, v). contains_unsafe_json_integer v) m"
| "contains_unsafe_json_integer _ = False"

datatype payment_error =
    Processor_Error string
  | Handler_Error string
  | Canonicalize string
  | Serialization_Error string

definition canonical_payload :: "string \<Rightarrow> json option \<Rightarrow> json" where
  "canonical_payload method params =
     (let semantic = map_option (\<lambda>p. case p of
            JObject m \<Rightarrow> if contains_key m ''_meta'' then JObject (AList.delete ''_meta'' m) else p
          | _ \<Rightarrow> p) params in
      JObject ([(''method'', JString method)] @
        (case semantic of Some sp \<Rightarrow> [(''params'', sp)] | None \<Rightarrow> [])))"

definition canonical_payload_string :: "ext \<Rightarrow> string \<Rightarrow> json option \<Rightarrow> (payment_error, string) result" where
  "canonical_payload_string X method params =
     (let payload = canonical_payload method params in
      if contains_unsafe_json_integer payload then Err (Canonicalize method)
      else (case json_canon X payload of
              Some s \<Rightarrow> Ok s
            | None \<Rightarrow> Err (Canonicalize method)))"

definition compute_canonical_invocation_hash ::
  "ext \<Rightarrow> string \<Rightarrow> json option \<Rightarrow> (payment_error, string) result" where
  "compute_canonical_invocation_hash X method params =
     (case canonical_payload_string X method params of
        Err e \<Rightarrow> Err e
      | Ok canonical \<Rightarrow> Ok (sha256_hex X canonical))"

record canonical_invocation_identity =
  ci_client_pubkey :: string
  ci_invocation_hash :: string

definition compute_canonical_invocation_identity ::
  "ext \<Rightarrow> string \<Rightarrow> string \<Rightarrow> json option \<Rightarrow> (payment_error, canonical_invocation_identity) result"
where
  "compute_canonical_invocation_identity X client_pubkey method params =
     (case compute_canonical_invocation_hash X method params of
        Err e \<Rightarrow> Err e
      | Ok h \<Rightarrow> Ok \<lparr>ci_client_pubkey = client_pubkey, ci_invocation_hash = h\<rparr>)"

section \<open>The store\<close>

definition AUTH_STORE_MAX_ENTRIES :: nat where "AUTH_STORE_MAX_ENTRIES = 5000"

record 'c auth_store =
  as_authorizations :: 'c
  as_pending :: 'c

type_synonym 'c auth_lru = "('c, instant) lru_ops"

datatype claim_or_pending =
    Claimed
  | Pending_Set
  | Already_Pending u64

definition with_max_entries :: "'c auth_lru \<Rightarrow> nat \<Rightarrow> 'c auth_store" where
  "with_max_entries L max_entries =
     \<lparr>as_authorizations = lru_new L (non_zero max_entries), as_pending = lru_new L (non_zero max_entries)\<rparr>"

definition auth_key :: "canonical_invocation_identity \<Rightarrow> string" where
  "auth_key i = ci_client_pubkey i @ '':'' @ ci_invocation_hash i"

definition grant :: "'c auth_lru \<Rightarrow> 'c auth_store \<Rightarrow> instant \<Rightarrow> canonical_invocation_identity \<Rightarrow> u64 \<Rightarrow> 'c auth_store" where
  "grant L s now i ttl_ms =
     (let expires_at = now + from_millis ttl_ms; key = auth_key i in
      s\<lparr>as_pending := fst (lru_pop L (as_pending s) key),
        as_authorizations := lru_put L (as_authorizations s) key expires_at\<rparr>)"

definition claim :: "'c auth_lru \<Rightarrow> 'c auth_store \<Rightarrow> instant \<Rightarrow> canonical_invocation_identity \<Rightarrow> 'c auth_store \<times> bool" where
  "claim L s now i =
     (let (c, popped) = lru_pop L (as_authorizations s) (auth_key i) in
      (s\<lparr>as_authorizations := c\<rparr>,
       case popped of None \<Rightarrow> False | Some expires_at \<Rightarrow> now \<le> expires_at))"

definition try_set_pending ::
  "'c auth_lru \<Rightarrow> 'c auth_store \<Rightarrow> instant \<Rightarrow> canonical_invocation_identity \<Rightarrow> u64 \<Rightarrow> 'c auth_store \<times> bool" where
  "try_set_pending L s now i ttl_ms =
     (let expires_at = now + from_millis ttl_ms; key = auth_key i;
          (c, existing) = lru_get L (as_pending s) key in
      case existing of
        Some e \<Rightarrow>
          if now \<le> e then (s\<lparr>as_pending := c\<rparr>, False)
          else (s\<lparr>as_pending := lru_put L c key expires_at\<rparr>, True)
      | None \<Rightarrow> (s\<lparr>as_pending := lru_put L c key expires_at\<rparr>, True))"

definition update_pending_ttl ::
  "'c auth_lru \<Rightarrow> 'c auth_store \<Rightarrow> instant \<Rightarrow> canonical_invocation_identity \<Rightarrow> u64 \<Rightarrow> 'c auth_store" where
  "update_pending_ttl L s now i ttl_ms =
     (let expires_at = now + from_millis ttl_ms; key = auth_key i;
          (c, existing) = lru_get L (as_pending s) key in
      case existing of
        Some e \<Rightarrow>
          if now \<le> e then s\<lparr>as_pending := lru_put L c key expires_at\<rparr> else s\<lparr>as_pending := c\<rparr>
      | None \<Rightarrow> s\<lparr>as_pending := c\<rparr>)"

definition remaining_ms_at :: "instant \<Rightarrow> instant \<Rightarrow> u64" where
  "remaining_ms_at now expires_at = of_nat (as_millis (duration_since expires_at now))"

definition get_pending_remaining_ms ::
  "'c auth_lru \<Rightarrow> 'c auth_store \<Rightarrow> instant \<Rightarrow> canonical_invocation_identity \<Rightarrow> 'c auth_store \<times> u64" where
  "get_pending_remaining_ms L s now i =
     (let (c, existing) = lru_get L (as_pending s) (auth_key i) in
      (s\<lparr>as_pending := c\<rparr>,
       case existing of Some expires_at \<Rightarrow> remaining_ms_at now expires_at | None \<Rightarrow> 0))"

definition clear_pending_auth :: "'c auth_lru \<Rightarrow> 'c auth_store \<Rightarrow> canonical_invocation_identity \<Rightarrow> 'c auth_store" where
  "clear_pending_auth L s i = s\<lparr>as_pending := fst (lru_pop L (as_pending s) (auth_key i))\<rparr>"

definition claim_or_set_pending ::
  "'c auth_lru \<Rightarrow> 'c auth_store \<Rightarrow> instant \<Rightarrow> canonical_invocation_identity \<Rightarrow> u64 \<Rightarrow>
   'c auth_store \<times> claim_or_pending" where
  "claim_or_set_pending L s now i ttl_ms =
     (let expires_at = now + from_millis ttl_ms; key = auth_key i;
          (a, popped) = lru_pop L (as_authorizations s) key;
          s1 = s\<lparr>as_authorizations := a\<rparr> in
      if (case popped of Some grant_expires \<Rightarrow> now \<le> grant_expires | None \<Rightarrow> False) then (s1, Claimed)
      else
        let (c, existing) = lru_get L (as_pending s1) key in
        case existing of
          Some e \<Rightarrow>
            if now \<le> e then (s1\<lparr>as_pending := c\<rparr>, Already_Pending (remaining_ms_at now e))
            else (s1\<lparr>as_pending := lru_put L c key expires_at\<rparr>, Pending_Set)
        | None \<Rightarrow> (s1\<lparr>as_pending := lru_put L c key expires_at\<rparr>, Pending_Set))"

section \<open>The store as a machine\<close>

datatype auth_op =
    Grant_Op instant canonical_invocation_identity u64
  | Claim_Op instant canonical_invocation_identity
  | Try_Pending_Op instant canonical_invocation_identity u64
  | Update_Ttl_Op instant canonical_invocation_identity u64
  | Remaining_Op instant canonical_invocation_identity
  | Clear_Op canonical_invocation_identity
  | Claim_Or_Pending_Op instant canonical_invocation_identity u64

datatype auth_out =
    Auth_Done
  | Auth_Bool bool
  | Auth_Ms u64
  | Auth_Outcome claim_or_pending

fun auth_step :: "'c auth_lru \<Rightarrow> 'c auth_store \<Rightarrow> auth_op \<Rightarrow> 'c auth_store \<times> auth_out" where
  "auth_step L s (Grant_Op now i ttl) = (grant L s now i ttl, Auth_Done)"
| "auth_step L s (Claim_Op now i) = map_prod id Auth_Bool (claim L s now i)"
| "auth_step L s (Try_Pending_Op now i ttl) = map_prod id Auth_Bool (try_set_pending L s now i ttl)"
| "auth_step L s (Update_Ttl_Op now i ttl) = (update_pending_ttl L s now i ttl, Auth_Done)"
| "auth_step L s (Remaining_Op now i) = map_prod id Auth_Ms (get_pending_remaining_ms L s now i)"
| "auth_step L s (Clear_Op i) = (clear_pending_auth L s i, Auth_Done)"
| "auth_step L s (Claim_Or_Pending_Op now i ttl) =
     map_prod id Auth_Outcome (claim_or_set_pending L s now i ttl)"

fun op_identity :: "auth_op \<Rightarrow> canonical_invocation_identity" where
  "op_identity (Grant_Op now i ttl) = i"
| "op_identity (Claim_Op now i) = i"
| "op_identity (Try_Pending_Op now i ttl) = i"
| "op_identity (Update_Ttl_Op now i ttl) = i"
| "op_identity (Remaining_Op now i) = i"
| "op_identity (Clear_Op i) = i"
| "op_identity (Claim_Or_Pending_Op now i ttl) = i"

text \<open>
  The specification: two maps from keys to expiry instants, with no bound on their size. An entry
  is live up to and including its expiry.
\<close>

record auth_maps =
  am_grants :: "string \<rightharpoonup> instant"
  am_pending :: "string \<rightharpoonup> instant"

definition live_at :: "instant \<Rightarrow> instant option \<Rightarrow> bool" where
  "live_at now e = (case e of Some x \<Rightarrow> now \<le> x | None \<Rightarrow> False)"

fun spec_step :: "auth_maps \<Rightarrow> auth_op \<Rightarrow> auth_maps \<times> auth_out" where
  "spec_step m (Grant_Op now i ttl) =
     (m\<lparr>am_grants := (am_grants m)(auth_key i \<mapsto> now + from_millis ttl),
        am_pending := (am_pending m)(auth_key i := None)\<rparr>, Auth_Done)"
| "spec_step m (Claim_Op now i) =
     (m\<lparr>am_grants := (am_grants m)(auth_key i := None)\<rparr>,
      Auth_Bool (live_at now (am_grants m (auth_key i))))"
| "spec_step m (Try_Pending_Op now i ttl) =
     (if live_at now (am_pending m (auth_key i)) then (m, Auth_Bool False)
      else (m\<lparr>am_pending := (am_pending m)(auth_key i \<mapsto> now + from_millis ttl)\<rparr>, Auth_Bool True))"
| "spec_step m (Update_Ttl_Op now i ttl) =
     (if live_at now (am_pending m (auth_key i))
      then (m\<lparr>am_pending := (am_pending m)(auth_key i \<mapsto> now + from_millis ttl)\<rparr>, Auth_Done)
      else (m, Auth_Done))"
| "spec_step m (Remaining_Op now i) =
     (m, Auth_Ms (case am_pending m (auth_key i) of Some e \<Rightarrow> remaining_ms_at now e | None \<Rightarrow> 0))"
| "spec_step m (Clear_Op i) = (m\<lparr>am_pending := (am_pending m)(auth_key i := None)\<rparr>, Auth_Done)"
| "spec_step m (Claim_Or_Pending_Op now i ttl) =
     (let k = auth_key i; m1 = m\<lparr>am_grants := (am_grants m)(k := None)\<rparr> in
      if live_at now (am_grants m k) then (m1, Auth_Outcome Claimed)
      else (case am_pending m k of
              Some e \<Rightarrow>
                if now \<le> e then (m1, Auth_Outcome (Already_Pending (remaining_ms_at now e)))
                else (m1\<lparr>am_pending := (am_pending m)(k \<mapsto> now + from_millis ttl)\<rparr>,
                      Auth_Outcome Pending_Set)
            | None \<Rightarrow> (m1\<lparr>am_pending := (am_pending m)(k \<mapsto> now + from_millis ttl)\<rparr>,
                       Auth_Outcome Pending_Set)))"

definition auth_abs :: "'c auth_lru \<Rightarrow> 'c auth_store \<Rightarrow> auth_maps" where
  "auth_abs L s = \<lparr>am_grants = lru_peek L (as_authorizations s), am_pending = lru_peek L (as_pending s)\<rparr>"

section \<open>Refinement\<close>

definition auth_valid :: "('c \<Rightarrow> bool) \<Rightarrow> 'c auth_store \<Rightarrow> bool" where
  "auth_valid valid s \<longleftrightarrow> valid (as_authorizations s) \<and> valid (as_pending s)"

definition auth_fits :: "'c auth_lru \<Rightarrow> string set \<Rightarrow> 'c auth_store \<Rightarrow> bool" where
  "auth_fits L K s \<longleftrightarrow>
     dom (lru_peek L (as_authorizations s)) \<subseteq> K \<and> dom (lru_peek L (as_pending s)) \<subseteq> K \<and>
     card K \<le> lru_cap L (as_authorizations s) \<and> card K \<le> lru_cap L (as_pending s)"

lemmas auth_op_defs = grant_def claim_def try_set_pending_def update_pending_ttl_def
  get_pending_remaining_ms_def clear_pending_auth_def claim_or_set_pending_def

locale auth_lru = lru L valid for L :: "('c, instant) lru_ops" and valid
begin

lemmas store_simps = pop_peek pop_valid pop_cap put_valid put_cap get_simps

lemma auth_step_valid: "auth_valid valid s \<Longrightarrow> auth_valid valid (fst (auth_step L s op))"
  by (cases op) (simp_all add: auth_valid_def auth_op_defs Let_def split_beta store_simps split: option.split)

lemma with_max_entries_valid: "auth_valid valid (with_max_entries L n)"
  by (simp add: auth_valid_def with_max_entries_def new_valid non_zero_def)

lemma auth_step_abs:
  assumes v: "auth_valid valid s" and fits: "auth_fits L K s" "finite K"
    and key: "auth_key (op_identity op) \<in> K"
  shows "auth_abs L (fst (auth_step L s op)) = fst (spec_step (auth_abs L s) op) \<and>
    snd (auth_step L s op) = snd (spec_step (auth_abs L s) op)"
proof -
  let ?P = "as_pending s" and ?A = "as_authorizations s"
  have valid: "valid ?P" "valid ?A" using v by (simp_all add: auth_valid_def)
  have put: "lru_peek L (lru_put L ?A (auth_key (op_identity op)) x) =
        (lru_peek L ?A)(auth_key (op_identity op) \<mapsto> x)"
      "lru_peek L (lru_put L (fst (lru_get L ?P k)) (auth_key (op_identity op)) x) =
        (lru_peek L ?P)(auth_key (op_identity op) \<mapsto> x)" for x k
    using fits key valid put_peek_within [of ?A K] put_peek_within [of "fst (lru_get L ?P k)" K]
    by (simp_all add: auth_fits_def get_simps)
  show ?thesis
    using valid put
    by (cases op) (simp_all add: auth_abs_def auth_op_defs Let_def split_beta store_simps live_at_def
        split: option.split)
qed

lemma auth_step_fits:
  assumes v: "auth_valid valid s" and fits: "auth_fits L K s" "finite K"
    and key: "auth_key (op_identity op) \<in> K"
  shows "auth_fits L K (fst (auth_step L s op))"
proof -
  have abs: "auth_abs L (fst (auth_step L s op)) = fst (spec_step (auth_abs L s) op)"
    using auth_step_abs [OF assms] by simp
  have "dom (am_grants (fst (spec_step m op))) \<subseteq> K \<and> dom (am_pending (fst (spec_step m op))) \<subseteq> K"
    if "dom (am_grants m) \<subseteq> K" "dom (am_pending m) \<subseteq> K" for m
    using that key by (cases op) (auto simp: Let_def split: option.split if_splits)
  then have "dom (am_grants (auth_abs L (fst (auth_step L s op)))) \<subseteq> K"
    "dom (am_pending (auth_abs L (fst (auth_step L s op)))) \<subseteq> K"
    using fits unfolding abs by (simp_all add: auth_fits_def auth_abs_def)
  moreover have "lru_cap L (as_authorizations (fst (auth_step L s op))) = lru_cap L (as_authorizations s)"
    "lru_cap L (as_pending (fst (auth_step L s op))) = lru_cap L (as_pending s)"
    by (cases op; simp add: auth_op_defs Let_def split_beta store_simps split: option.split)+
  ultimately show ?thesis using fits by (simp add: auth_fits_def auth_abs_def)
qed

lemma auth_run_abs:
  assumes "auth_valid valid s" "auth_fits L K s" "finite K"
    and "(auth_key \<circ> op_identity) ` set ops \<subseteq> K"
  shows "auth_abs L (fst (run_steps (auth_step L) s ops)) = fst (run_steps spec_step (auth_abs L s) ops) \<and>
    snd (run_steps (auth_step L) s ops) = snd (run_steps spec_step (auth_abs L s) ops)"
  using assms
proof (induction ops arbitrary: s)
  case (Cons op ops)
  have key: "auth_key (op_identity op) \<in> K" using Cons.prems(4) by simp
  have "auth_abs L (fst (auth_step L s op)) = fst (spec_step (auth_abs L s) op)"
    and "snd (auth_step L s op) = snd (spec_step (auth_abs L s) op)"
    using auth_step_abs [OF Cons.prems(1-3) key] by simp_all
  then show ?case
    using Cons.IH [OF auth_step_valid [OF Cons.prems(1)] auth_step_fits [OF Cons.prems(1-3) key]]
      Cons.prems(3,4)
    by (simp add: split_beta Let_def)
qed simp

text \<open>Whatever the cache evicts, a grant it still holds is one that was made and not yet taken.\<close>

lemma auth_step_grants_le:
  assumes "auth_valid valid s" "am_grants (auth_abs L s) \<subseteq>\<^sub>m am_grants m"
  shows "am_grants (auth_abs L (fst (auth_step L s op))) \<subseteq>\<^sub>m am_grants (fst (spec_step m op))"
proof (cases op)
  case (Grant_Op now i ttl)
  have "lru_peek L (lru_put L (as_authorizations s) k x) \<subseteq>\<^sub>m (am_grants m)(k \<mapsto> x)" for k x
    using assms by (intro map_le_trans [OF put_peek_le map_le_upd]) (simp_all add: auth_valid_def auth_abs_def)
  then show ?thesis using Grant_Op by (simp add: auth_abs_def grant_def Let_def)
next
  case (Try_Pending_Op now i ttl)
  then show ?thesis
    using assms by (simp add: auth_abs_def try_set_pending_def split_beta Let_def split: option.split)
next
  case (Update_Ttl_Op now i ttl)
  then show ?thesis
    using assms by (simp add: auth_abs_def update_pending_ttl_def split_beta Let_def split: option.split)
next
  case (Claim_Or_Pending_Op now i ttl)
  then show ?thesis
    using assms by (auto simp: auth_abs_def claim_or_set_pending_def auth_valid_def split_beta Let_def
        store_simps map_le_def split: option.split if_splits)
qed (use assms in \<open>auto simp: auth_abs_def auth_op_defs auth_valid_def split_beta Let_def store_simps
       map_le_def split: if_splits\<close>)

lemma auth_claim_live:
  assumes "auth_valid valid s" "am_grants (auth_abs L s) \<subseteq>\<^sub>m g"
  shows "snd (auth_step L s (Claim_Op now i)) = Auth_Bool True \<Longrightarrow> live_at now (g (auth_key i))"
    and "snd (auth_step L s (Claim_Or_Pending_Op now i ttl)) = Auth_Outcome Claimed \<Longrightarrow>
      live_at now (g (auth_key i))"
proof -
  have *: "lru_peek L (as_authorizations s) (auth_key i) = Some e \<Longrightarrow> g (auth_key i) = Some e" for e
    using assms(2) by (force simp: auth_abs_def map_le_def)
  show "live_at now (g (auth_key i))" if "snd (auth_step L s (Claim_Op now i)) = Auth_Bool True"
    using that assms(1) *
    by (auto simp: claim_def auth_valid_def live_at_def split_beta Let_def store_simps split: option.splits)
  show "live_at now (g (auth_key i))"
    if "snd (auth_step L s (Claim_Or_Pending_Op now i ttl)) = Auth_Outcome Claimed"
    using that assms(1) *
    by (auto simp: claim_or_set_pending_def auth_valid_def live_at_def split_beta Let_def store_simps
        split: option.splits if_splits)
qed

end

interpretation auth_list: auth_lru list_lru list_lru_valid
  by unfold_locales

section \<open>Properties\<close>

text \<open>
  \<open>spends_ok g h\<close> reads a history of operations with their results, where \<open>g\<close> holds the expiry of
  the grant each key has available: a grant makes one available, a claim that succeeds needs one that
  has not expired, and every claim takes what there is away.
\<close>

fun spends_ok :: "(string \<rightharpoonup> instant) \<Rightarrow> (auth_op \<times> auth_out) list \<Rightarrow> bool" where
  "spends_ok g [] \<longleftrightarrow> True"
| "spends_ok g ((Grant_Op now i ttl, out) # h) \<longleftrightarrow>
     spends_ok (g(auth_key i \<mapsto> now + from_millis ttl)) h"
| "spends_ok g ((Claim_Op now i, out) # h) \<longleftrightarrow>
     (out = Auth_Bool True \<longrightarrow> live_at now (g (auth_key i))) \<and> spends_ok (g(auth_key i := None)) h"
| "spends_ok g ((Claim_Or_Pending_Op now i ttl, out) # h) \<longleftrightarrow>
     (out = Auth_Outcome Claimed \<longrightarrow> live_at now (g (auth_key i))) \<and> spends_ok (g(auth_key i := None)) h"
| "spends_ok g (_ # h) \<longleftrightarrow> spends_ok g h"

context auth_lru
begin

lemma auth_run_spends:
  assumes "auth_valid valid s" "am_grants (auth_abs L s) \<subseteq>\<^sub>m g"
  shows "spends_ok g (zip ops (snd (run_steps (auth_step L) s ops)))"
  using assms
proof (induction ops arbitrary: s g)
  case (Cons op ops)
  let ?m = "\<lparr>am_grants = g, am_pending = Map.empty\<rparr>"
  have "am_grants (auth_abs L (fst (auth_step L s op))) \<subseteq>\<^sub>m am_grants (fst (spec_step ?m op))"
    using auth_step_grants_le [of s ?m op] Cons.prems by simp
  then have IH: "spends_ok (am_grants (fst (spec_step ?m op)))
      (zip ops (snd (run_steps (auth_step L) (fst (auth_step L s op)) ops)))"
    using Cons.IH auth_step_valid Cons.prems(1) by blast
  have zip: "zip (op # ops) (snd (run_steps (auth_step L) s (op # ops))) =
      (op, snd (auth_step L s op)) # zip ops (snd (run_steps (auth_step L) (fst (auth_step L s op)) ops))"
    by (simp add: split_beta Let_def)
  show ?case
    unfolding zip using IH auth_claim_live [OF Cons.prems]
    by (cases op) (simp_all add: Let_def split: option.splits if_splits del: auth_step.simps)
qed simp

end

text \<open>
  C17. A payment authorizes one execution: in every history of operations on a store of any capacity,
  a claim succeeds only while the grant of its identity that was made last has not expired and no
  earlier claim took it. Eviction can only lose grants.
\<close>
theorem authorization_single_use:
  assumes L: "auth_lru L valid"
    and run: "run_steps (auth_step L) (with_max_entries L n) ops = (s, outs)"
  shows "spends_ok Map.empty (zip ops outs)"
proof -
  have "lru_peek L (lru_new L (non_zero n)) = Map.empty"
    by (rule ext) (rule lru.new_peek [OF auth_lru.axioms [OF L]])
  then have "am_grants (auth_abs L (with_max_entries L n)) \<subseteq>\<^sub>m Map.empty"
    by (simp add: auth_abs_def with_max_entries_def)
  from auth_lru.auth_run_spends [OF L auth_lru.with_max_entries_valid [OF L] this, of ops]
  show ?thesis by (simp add: run)
qed

definition demo_identity :: canonical_invocation_identity where
  "demo_identity = \<lparr>ci_client_pubkey = ''ab'', ci_invocation_hash = ''cd''\<rparr>"

definition demo_auth_ops :: "auth_op list" where
  "demo_auth_ops =
     [Claim_Or_Pending_Op 0 demo_identity 5, Claim_Or_Pending_Op 1 demo_identity 5,
      Grant_Op 2 demo_identity 5, Claim_Or_Pending_Op 3 demo_identity 5, Claim_Op 4 demo_identity]"

theorem authorization_single_use_witness:
  "spends_ok Map.empty
     (zip demo_auth_ops (snd (run_steps (auth_step list_lru) (with_max_entries list_lru 2) demo_auth_ops))) \<and>
   snd (run_steps (auth_step list_lru) (with_max_entries list_lru 2) demo_auth_ops) =
     [Auth_Outcome Pending_Set, Auth_Outcome (Already_Pending 4), Auth_Done, Auth_Outcome Claimed,
      Auth_Bool False]"
proof -
  have "snd (run_steps (auth_step list_lru) (with_max_entries list_lru 2) demo_auth_ops) =
     [Auth_Outcome Pending_Set, Auth_Outcome (Already_Pending 4), Auth_Done, Auth_Outcome Claimed,
      Auth_Bool False]"
    by (simp add: demo_auth_ops_def demo_identity_def with_max_entries_def non_zero_def list_lru_def
        list_push_def auth_op_defs auth_key_def lru_get_def lru_put_def lru_peek_def from_millis_def
        remaining_ms_at_def as_millis_def duration_since_def)
  then show ?thesis
    using authorization_single_use [OF auth_list.auth_lru_axioms prod.collapse [symmetric]] by blast
qed

text \<open>
  C19. As long as the identities in use fit into the configured capacity, the two LRU caches are the
  two maps of the specification: every operation, in every history, returns what \<open>spec_step\<close>
  returns, so in particular at most one caller owns the offer of an identity while its payment is
  pending.
\<close>
theorem authorization_refines_maps:
  assumes L: "auth_lru L valid"
    and keys: "card (auth_key ` op_identity ` set ops) \<le> n"
  shows "auth_abs L (fst (run_steps (auth_step L) (with_max_entries L n) ops)) =
      fst (run_steps spec_step \<lparr>am_grants = Map.empty, am_pending = Map.empty\<rparr> ops) \<and>
    snd (run_steps (auth_step L) (with_max_entries L n) ops) =
      snd (run_steps spec_step \<lparr>am_grants = Map.empty, am_pending = Map.empty\<rparr> ops)"
proof -
  let ?s = "with_max_entries L n" and ?K = "auth_key ` op_identity ` set ops"
  have new: "lru_peek L (lru_new L (non_zero n)) = Map.empty"
    by (rule ext) (rule lru.new_peek [OF auth_lru.axioms [OF L]])
  then have abs: "auth_abs L ?s = \<lparr>am_grants = Map.empty, am_pending = Map.empty\<rparr>"
    by (simp add: auth_abs_def with_max_entries_def)
  have "auth_fits L ?K ?s"
    using keys new lru.new_cap [OF auth_lru.axioms [OF L]]
    by (simp add: auth_fits_def with_max_entries_def non_zero_def)
  from auth_lru.auth_run_abs [OF L auth_lru.with_max_entries_valid [OF L] this]
  show ?thesis by (simp add: abs image_comp)
qed

theorem authorization_refines_maps_witness:
  "card (auth_key ` op_identity ` set demo_auth_ops) \<le> 2 \<and>
   snd (run_steps (auth_step list_lru) (with_max_entries list_lru 2) demo_auth_ops) =
     snd (run_steps spec_step \<lparr>am_grants = Map.empty, am_pending = Map.empty\<rparr> demo_auth_ops)"
proof -
  have "card (auth_key ` op_identity ` set demo_auth_ops) \<le> 2"
    by (simp add: demo_auth_ops_def demo_identity_def auth_key_def)
  then show ?thesis
    using authorization_refines_maps [OF auth_list.auth_lru_axioms] by blast
qed

text \<open>
  What RFC 8785 promises of the canonical text: a string is read back from its text, and two objects
  have the same text exactly when they have the same keys with the same texts.
\<close>

definition canon_by_members :: "ext \<Rightarrow> bool" where
  "canon_by_members X \<longleftrightarrow>
     (\<forall>a b. json_canon X (JString a) = json_canon X (JString b) \<longrightarrow> a = b) \<and>
     (\<forall>m m'. distinct (map fst m) \<and> distinct (map fst m') \<longrightarrow>
        (\<forall>t. json_canon X (JObject m) = Some t \<and> json_canon X (JObject m') = Some t \<longrightarrow>
           (\<forall>k. map_option (json_canon X) (map_of m k) = map_option (json_canon X) (map_of m' k))) \<and>
        ((\<forall>k. map_option (json_canon X) (map_of m k) = map_option (json_canon X) (map_of m' k)) \<longrightarrow>
           json_canon X (JObject m) = json_canon X (JObject m')))"

text \<open>The parameters an invocation is identified by: all but the top-level \<open>_meta\<close>.\<close>

definition semantic_params :: "json option \<Rightarrow> json option" where
  "semantic_params params =
     (case params of Some (JObject m) \<Rightarrow> Some (JObject (AList.delete ''_meta'' m)) | _ \<Rightarrow> params)"

definition payload_members :: "string \<Rightarrow> json option \<Rightarrow> (string \<times> json) list" where
  "payload_members method params =
     (''method'', JString method) # (case semantic_params params of Some p \<Rightarrow> [(''params'', p)] | None \<Rightarrow> [])"

lemma canonical_payload_members: "canonical_payload method params = JObject (payload_members method params)"
proof -
  have "AList.delete k m = m" if "\<not> contains_key m k" for k and m :: "(string \<times> json) list"
    using that by (simp add: contains_key_def delete_id map_of_eq_None_iff)
  then show ?thesis
    by (auto simp: canonical_payload_def payload_members_def semantic_params_def split: option.split json.split)
qed

lemma payload_lookup:
  "distinct (map fst (payload_members method params))"
  "map_of (payload_members method params) =
     (\<lambda>k. if k = ''method'' then Some (JString method) else if k = ''params'' then semantic_params params else None)"
  by (auto simp: payload_members_def fun_eq_iff split: option.split)

lemma canonical_text_eq:
  assumes "canon_by_members X" "json_canon X (canonical_payload method params) = Some t"
    "json_canon X (canonical_payload method' params') = Some t'"
  shows "t = t' \<longleftrightarrow> method = method' \<and>
    map_option (json_canon X) (semantic_params params) = map_option (json_canon X) (semantic_params params')"
proof
  assume "t = t'"
  then have eq: "map_option (json_canon X) (map_of (payload_members method params) k) =
      map_option (json_canon X) (map_of (payload_members method' params') k)" for k
    using assms payload_lookup(1) unfolding canon_by_members_def canonical_payload_members by blast
  show "method = method' \<and>
    map_option (json_canon X) (semantic_params params) = map_option (json_canon X) (semantic_params params')"
    using eq [of "''method''"] eq [of "''params''"] assms(1) by (simp add: payload_lookup(2) canon_by_members_def)
next
  assume same: "method = method' \<and>
    map_option (json_canon X) (semantic_params params) = map_option (json_canon X) (semantic_params params')"
  then have "\<forall>k. map_option (json_canon X) (map_of (payload_members method params) k) =
      map_option (json_canon X) (map_of (payload_members method' params') k)"
    by (simp add: payload_lookup(2))
  then have "json_canon X (JObject (payload_members method params)) =
      json_canon X (JObject (payload_members method' params'))"
    using assms(1) payload_lookup(1) unfolding canon_by_members_def by blast
  then show "t = t'" using assms(2,3) by (simp add: canonical_payload_members)
qed


definition member_text :: "(string \<times> json) list \<Rightarrow> string \<Rightarrow> string option" where
  "member_text m k =
     (case map_of m k of
        None \<Rightarrow> Some ''-''
      | Some (JString s) \<Rightarrow> Some (''s'' @ s)
      | Some JNull \<Rightarrow> Some ''n''
      | _ \<Rightarrow> None)"

definition small_canon :: "json \<Rightarrow> string option" where
  "small_canon v =
     (case v of
        JString s \<Rightarrow> Some (''s'' @ s)
      | JNull \<Rightarrow> Some ''n''
      | JObject m \<Rightarrow>
          if list_all (\<lambda>(k, v). k = ''method'' \<or> k = ''params'') m then
            (case (member_text m ''method'', member_text m ''params'') of
               (Some a, Some b) \<Rightarrow> Some (''o'' @ replicate (length a) CHR ''x'' @ ''y'' @ a @ b)
             | _ \<Rightarrow> None)
          else None
      | _ \<Rightarrow> None)"

definition small_ext :: ext where
  "small_ext = plain_ext\<lparr>json_canon := small_canon\<rparr>"

lemma prefixed_text_inj:
  assumes "replicate (length a) CHR ''x'' @ CHR ''y'' # a @ b = replicate (length a') CHR ''x'' @ CHR ''y'' # a' @ b'"
  shows "a = a' \<and> b = b'"
proof -
  have run: "takeWhile (\<lambda>c. c = CHR ''x'') (replicate n CHR ''x'' @ CHR ''y'' # r) = replicate n CHR ''x''" for n r
    by (induction n) simp_all
  have "length a = length a'"
    using arg_cong [OF assms, of "\<lambda>r. length (takeWhile (\<lambda>c. c = CHR ''x'') r)"] by (simp only: run length_replicate)
  then show ?thesis using assms by simp
qed

lemma member_text_of:
  "member_text m k =
     (case map_option small_canon (map_of m k) of
        None \<Rightarrow> Some ''-''
      | Some None \<Rightarrow> None
      | Some (Some a) \<Rightarrow> if a = ''n'' \<or> hd a = CHR ''s'' then Some a else None)"
  by (auto simp: member_text_def small_canon_def split: option.split json.split)

lemma member_text_read:
  "member_text m k = Some a \<Longrightarrow>
     map_option small_canon (map_of m k) = (if a = ''-'' then None else Some (Some a))"
  by (cases "map_of m k") (auto simp: member_text_def small_canon_def split: json.splits)

lemma only_keys: "list_all (\<lambda>(k, v). P k) m \<longleftrightarrow> (\<forall>k. \<not> P k \<longrightarrow> map_of m k = None)"
  by (force simp: list_all_iff map_of_eq_None_iff)

lemma small_canon_members: "canon_by_members small_ext"
proof -
  have canon: "json_canon small_ext = small_canon" by (simp add: small_ext_def)
  have "map_option small_canon (map_of m k) = map_option small_canon (map_of m' k)"
    if m: "small_canon (JObject m) = Some t" and m': "small_canon (JObject m') = Some t" for m m' t k
  proof -
    obtain a b where t: "t = CHR ''o'' # replicate (length a) CHR ''x'' @ CHR ''y'' # a @ b"
        "member_text m ''method'' = Some a" "member_text m ''params'' = Some b"
        "list_all (\<lambda>(k, v). k = ''method'' \<or> k = ''params'') m"
      using m by (auto simp: small_canon_def split: if_splits option.splits)
    obtain a' b' where t': "t = CHR ''o'' # replicate (length a') CHR ''x'' @ CHR ''y'' # a' @ b'"
        "member_text m' ''method'' = Some a'" "member_text m' ''params'' = Some b'"
        "list_all (\<lambda>(k, v). k = ''method'' \<or> k = ''params'') m'"
      using m' by (auto simp: small_canon_def split: if_splits option.splits)
    have "a = a' \<and> b = b'"
      by (rule prefixed_text_inj) (rule list.inject [THEN iffD1, THEN conjunct2, OF trans [OF t(1) [symmetric] t'(1)]])
    then show ?thesis
      using t(4) t'(4) member_text_read [OF t(2)] member_text_read [OF t(3)]
        member_text_read [OF t'(2)] member_text_read [OF t'(3)]
      unfolding only_keys by (cases "k = ''method''"; cases "k = ''params''") simp_all
  qed
  moreover have "small_canon (JObject m) = small_canon (JObject m')"
    if same: "\<forall>k. map_option small_canon (map_of m k) = map_option small_canon (map_of m' k)" for m m'
  proof -
    have "member_text m = member_text m'" using same by (simp add: member_text_of fun_eq_iff)
    moreover have "map_of m k = None \<longleftrightarrow> map_of m' k = None" for k
      using same by (metis option.map_disc_iff)
    then have "list_all (\<lambda>(k, v). k = ''method'' \<or> k = ''params'') m =
        list_all (\<lambda>(k, v). k = ''method'' \<or> k = ''params'') m'"
      by (simp only: only_keys)
    ultimately show ?thesis by (simp add: small_canon_def)
  qed
  moreover have "a = b" if "small_canon (JString a) = small_canon (JString b)" for a b
    using that by (simp add: small_canon_def)
  ultimately show ?thesis unfolding canon_by_members_def canon by blast
qed


definition canon_ext :: ext where
  "canon_ext = plain_ext\<lparr>json_canon := (\<lambda>v. case v of JObject m \<Rightarrow> Some (concat (map fst m)) | _ \<Rightarrow> None)\<rparr>"

end
