(* ===== verification/Payments.thy ===== *)
theory Payments
  imports Authorization
begin

text \<open>
  The payment types and their wire form (\<open>src/payments/types.rs\<close>, \<open>tags.rs\<close>, \<open>constants.rs\<close>) and
  the steps both server lifecycles share (\<open>src/payments/server_payments_utils.rs\<close>): matching a priced
  capability, choosing a processor and turning a priced request into a rejection, a waiver or a
  payment request.

  A payment processor and a pricing callback are the application's code. A processor is known by its
  PMI and its identity; what it and the callback answer is the argument \<open>env\<close>, so that it may differ
  from call to call, and an answer may be a panic.
\<close>

section \<open>Constants\<close>

definition PAYMENT_REQUIRED_METHOD :: string where
  "PAYMENT_REQUIRED_METHOD = ''notifications/payment_required''"
definition PAYMENT_ACCEPTED_METHOD :: string where
  "PAYMENT_ACCEPTED_METHOD = ''notifications/payment_accepted''"
definition PAYMENT_REJECTED_METHOD :: string where
  "PAYMENT_REJECTED_METHOD = ''notifications/payment_rejected''"
definition PAYMENT_REQUIRED_ERROR_CODE :: int where "PAYMENT_REQUIRED_ERROR_CODE = - 32042"
definition PAYMENT_PENDING_ERROR_CODE :: int where "PAYMENT_PENDING_ERROR_CODE = - 32043"
definition UNSUPPORTED_PAYMENT_INTERACTION_ERROR_CODE :: int where
  "UNSUPPORTED_PAYMENT_INTERACTION_ERROR_CODE = - 32602"
definition DEFAULT_PAYMENT_TTL_MS :: u64 where "DEFAULT_PAYMENT_TTL_MS = 300000"
definition DEFAULT_MAX_PENDING_PAYMENTS :: nat where "DEFAULT_MAX_PENDING_PAYMENTS = 1000"
definition DEFAULT_SYNTHETIC_PROGRESS_INTERVAL_MS :: u64 where
  "DEFAULT_SYNTHETIC_PROGRESS_INTERVAL_MS = 30000"

section \<open>Types\<close>

type_synonym meta = "(string \<times> json) list"

datatype payment_interaction_mode = Transparent | Explicit_Gating

datatype payment_interaction_policy = Policy_Optional | Policy_Transparent

record priced_capability =
  pc_method :: string
  pc_name :: "string option"
  pc_amount :: int
  pc_max_amount :: "int option"
  pc_currency_unit :: string
  pc_description :: "string option"

record payment_required_params =
  prq_amount :: int
  prq_pay_req :: string
  prq_pmi :: string
  prq_description :: "string option"
  prq_ttl :: "u64 option"
  prq_meta :: "meta option"

record payment_accepted_params =
  pac_amount :: int
  pac_pmi :: string
  pac_meta :: "meta option"

record payment_rejected_params =
  prj_pmi :: string
  prj_amount :: "int option"
  prj_message :: "string option"

record payment_option =
  po_amount :: int
  po_pmi :: string
  po_pay_req :: string
  po_description :: "string option"
  po_ttl :: "u64 option"
  po_meta :: "meta option"

record payment_required_error_data =
  pre_instructions :: "string option"
  pre_payment_options :: "payment_option list"

record payment_pending_error_data =
  ppe_instructions :: "string option"
  ppe_retry_after :: "u64 option"

record unsupported_payment_interaction_data =
  upi_requested :: payment_interaction_mode
  upi_supported :: "payment_interaction_mode list"

definition unsupported_payment_interaction_data_new ::
  "payment_interaction_mode \<Rightarrow> unsupported_payment_interaction_data" where
  "unsupported_payment_interaction_data_new requested =
     \<lparr>upi_requested = requested, upi_supported = [Transparent]\<rparr>"

section \<open>Wire form\<close>

text \<open>
  The derived \<open>Serialize\<close> writes the fields that are present. The derived \<open>Deserialize\<close> reads a
  struct from an object by name or from an array by position; an array may leave out trailing fields
  that have a default and must have no further elements.
\<close>

definition struct_field :: "json \<Rightarrow> nat \<Rightarrow> string \<Rightarrow> json option" where
  "struct_field v i k =
     (case v of
        JObject m \<Rightarrow> map_of m k
      | JArray xs \<Rightarrow> if i < length xs then Some (xs ! i) else None
      | _ \<Rightarrow> None)"

definition is_struct :: "nat \<Rightarrow> json \<Rightarrow> bool" where
  "is_struct n v = (case v of JObject m \<Rightarrow> True | JArray xs \<Rightarrow> length xs \<le> n | _ \<Rightarrow> False)"

definition req_at :: "(json \<Rightarrow> 'a option) \<Rightarrow> json \<Rightarrow> nat \<Rightarrow> string \<Rightarrow> 'a option" where
  "req_at rd v i k = Option.bind (struct_field v i k) rd"

definition opt_at :: "(json \<Rightarrow> 'a option) \<Rightarrow> json \<Rightarrow> nat \<Rightarrow> string \<Rightarrow> 'a option option" where
  "opt_at rd v i k =
     (case struct_field v i k of
        None \<Rightarrow> Some None
      | Some JNull \<Rightarrow> Some None
      | Some w \<Rightarrow> map_option Some (rd w))"

fun json_as_object :: "json \<Rightarrow> meta option" where
  "json_as_object (JObject m) = Some m"
| "json_as_object _ = None"

definition json_of_u64 :: "u64 \<Rightarrow> json" where
  "json_of_u64 n = JNumber (PosInt n)"

definition payment_required_params_to_value :: "payment_required_params \<Rightarrow> json" where
  "payment_required_params_to_value p = JObject
     ([(''amount'', json_of_i64 (prq_amount p)), (''pay_req'', JString (prq_pay_req p)),
       (''pmi'', JString (prq_pmi p))] @
      opt_entry ''description'' JString (prq_description p) @
      opt_entry ''ttl'' json_of_u64 (prq_ttl p) @
      opt_entry ''_meta'' JObject (prq_meta p))"

definition payment_required_params_of_value :: "json \<Rightarrow> payment_required_params option" where
  "payment_required_params_of_value v =
     (if \<not> is_struct 6 v then None
      else Option.bind (req_at json_as_i64 v 0 ''amount'') (\<lambda>amount.
           Option.bind (req_at json_as_str v 1 ''pay_req'') (\<lambda>pay_req.
           Option.bind (req_at json_as_str v 2 ''pmi'') (\<lambda>pmi.
           Option.bind (opt_at json_as_str v 3 ''description'') (\<lambda>description.
           Option.bind (opt_at json_as_u64 v 4 ''ttl'') (\<lambda>ttl.
           Option.bind (opt_at json_as_object v 5 ''_meta'') (\<lambda>m.
             Some \<lparr>prq_amount = amount, prq_pay_req = pay_req, prq_pmi = pmi,
                   prq_description = description, prq_ttl = ttl, prq_meta = m\<rparr>)))))))"

definition payment_accepted_params_to_value :: "payment_accepted_params \<Rightarrow> json" where
  "payment_accepted_params_to_value p = JObject
     ([(''amount'', json_of_i64 (pac_amount p)), (''pmi'', JString (pac_pmi p))] @
      opt_entry ''_meta'' JObject (pac_meta p))"

definition payment_rejected_params_to_value :: "payment_rejected_params \<Rightarrow> json" where
  "payment_rejected_params_to_value p = JObject
     ([(''pmi'', JString (prj_pmi p))] @
      opt_entry ''amount'' json_of_i64 (prj_amount p) @
      opt_entry ''message'' JString (prj_message p))"

definition payment_rejected_params_of_value :: "json \<Rightarrow> payment_rejected_params option" where
  "payment_rejected_params_of_value v =
     (if \<not> is_struct 3 v then None
      else Option.bind (req_at json_as_str v 0 ''pmi'') (\<lambda>pmi.
           Option.bind (opt_at json_as_i64 v 1 ''amount'') (\<lambda>amount.
           Option.bind (opt_at json_as_str v 2 ''message'') (\<lambda>message.
             Some \<lparr>prj_pmi = pmi, prj_amount = amount, prj_message = message\<rparr>))))"

definition payment_option_to_value :: "payment_option \<Rightarrow> json" where
  "payment_option_to_value p = JObject
     ([(''amount'', json_of_i64 (po_amount p)), (''pmi'', JString (po_pmi p)),
       (''pay_req'', JString (po_pay_req p))] @
      opt_entry ''description'' JString (po_description p) @
      opt_entry ''ttl'' json_of_u64 (po_ttl p) @
      opt_entry ''_meta'' JObject (po_meta p))"

definition payment_option_of_value :: "json \<Rightarrow> payment_option option" where
  "payment_option_of_value v =
     (if \<not> is_struct 6 v then None
      else Option.bind (req_at json_as_i64 v 0 ''amount'') (\<lambda>amount.
           Option.bind (req_at json_as_str v 1 ''pmi'') (\<lambda>pmi.
           Option.bind (req_at json_as_str v 2 ''pay_req'') (\<lambda>pay_req.
           Option.bind (opt_at json_as_str v 3 ''description'') (\<lambda>description.
           Option.bind (opt_at json_as_u64 v 4 ''ttl'') (\<lambda>ttl.
           Option.bind (opt_at json_as_object v 5 ''_meta'') (\<lambda>m.
             Some \<lparr>po_amount = amount, po_pmi = pmi, po_pay_req = pay_req,
                   po_description = description, po_ttl = ttl, po_meta = m\<rparr>)))))))"

primrec read_all :: "(json \<Rightarrow> 'a option) \<Rightarrow> json list \<Rightarrow> 'a list option" where
  "read_all rd [] = Some []"
| "read_all rd (v # vs) = Option.bind (rd v) (\<lambda>x. map_option (\<lambda>xs. x # xs) (read_all rd vs))"

fun json_as_list :: "(json \<Rightarrow> 'a option) \<Rightarrow> json \<Rightarrow> 'a list option" where
  "json_as_list rd (JArray vs) = read_all rd vs"
| "json_as_list rd _ = None"

definition payment_required_error_data_to_value :: "payment_required_error_data \<Rightarrow> json" where
  "payment_required_error_data_to_value d = JObject
     (opt_entry ''instructions'' JString (pre_instructions d) @
      [(''payment_options'', JArray (map payment_option_to_value (pre_payment_options d)))])"

definition payment_required_error_data_of_value :: "json \<Rightarrow> payment_required_error_data option" where
  "payment_required_error_data_of_value v =
     (if \<not> is_struct 2 v then None
      else Option.bind (opt_at json_as_str v 0 ''instructions'') (\<lambda>instructions.
           Option.bind (req_at (json_as_list payment_option_of_value) v 1 ''payment_options'') (\<lambda>options.
             Some \<lparr>pre_instructions = instructions, pre_payment_options = options\<rparr>)))"

definition payment_pending_error_data_to_value :: "payment_pending_error_data \<Rightarrow> json" where
  "payment_pending_error_data_to_value d = JObject
     (opt_entry ''instructions'' JString (ppe_instructions d) @
      opt_entry ''retry_after'' json_of_u64 (ppe_retry_after d))"

definition payment_pending_error_data_of_value :: "json \<Rightarrow> payment_pending_error_data option" where
  "payment_pending_error_data_of_value v =
     (if \<not> is_struct 2 v then None
      else Option.bind (opt_at json_as_str v 0 ''instructions'') (\<lambda>instructions.
           Option.bind (opt_at json_as_u64 v 1 ''retry_after'') (\<lambda>retry_after.
             Some \<lparr>ppe_instructions = instructions, ppe_retry_after = retry_after\<rparr>)))"

fun mode_value :: "payment_interaction_mode \<Rightarrow> string" where
  "mode_value Transparent = ''transparent''"
| "mode_value Explicit_Gating = ''explicit_gating''"

definition unsupported_payment_interaction_data_to_value :: "unsupported_payment_interaction_data \<Rightarrow> json" where
  "unsupported_payment_interaction_data_to_value d = JObject
     [(''requested'', JString (mode_value (upi_requested d))),
      (''supported'', JArray (map (\<lambda>m. JString (mode_value m)) (upi_supported d)))]"

section \<open>Tags\<close>

definition CAPABILITY_TAG :: string where "CAPABILITY_TAG = ''cap''"
definition PMI_TAG :: string where "PMI_TAG = ''pmi''"
definition PAYMENT_INTERACTION_TAG :: string where "PAYMENT_INTERACTION_TAG = ''payment_interaction''"

definition cep8_capability_identifier :: "priced_capability \<Rightarrow> string option" where
  "cep8_capability_identifier cap =
     (case pc_name cap of
        None \<Rightarrow> None
      | Some name \<Rightarrow>
          if name = [] then None
          else if pc_method cap = ''tools/call'' then Some (''tool:'' @ name)
          else if pc_method cap = ''prompts/get'' then Some (''prompt:'' @ name)
          else if pc_method cap = ''resources/read'' then Some (''resource:'' @ name)
          else None)"

definition cap_tag :: "priced_capability \<Rightarrow> tag option" where
  "cap_tag cap =
     (case cep8_capability_identifier cap of
        None \<Rightarrow> None
      | Some identifier \<Rightarrow>
          let price = (case pc_max_amount cap of
                         Some m \<Rightarrow> dec_int (pc_amount cap) @ ''-'' @ dec_int m
                       | None \<Rightarrow> dec_int (pc_amount cap)) in
          Some [CAPABILITY_TAG, identifier, price, pc_currency_unit cap])"

definition cap_tags_from_priced_capabilities :: "priced_capability list \<Rightarrow> tag list" where
  "cap_tags_from_priced_capabilities caps = List.map_filter cap_tag caps"

definition pmi_tag :: "string \<Rightarrow> tag" where
  "pmi_tag pmi = [PMI_TAG, pmi]"

definition pmi_tags :: "string list \<Rightarrow> tag list" where
  "pmi_tags pmis = map pmi_tag pmis"

definition payment_interaction_tag :: "payment_interaction_mode \<Rightarrow> tag" where
  "payment_interaction_tag mode = [PAYMENT_INTERACTION_TAG, mode_value mode]"

fun parse_pmi_tag :: "tag \<Rightarrow> string option" where
  "parse_pmi_tag (name # v # _) = (if name = PMI_TAG then Some v else None)"
| "parse_pmi_tag _ = None"

definition parse_payment_interaction_value :: "string \<Rightarrow> payment_interaction_mode option" where
  "parse_payment_interaction_value v =
     (if v = ''transparent'' then Some Transparent
      else if v = ''explicit_gating'' then Some Explicit_Gating
      else None)"

fun parse_payment_interaction_tag :: "tag \<Rightarrow> payment_interaction_mode option" where
  "parse_payment_interaction_tag (name # v # _) =
     (if name \<noteq> PAYMENT_INTERACTION_TAG then None else parse_payment_interaction_value v)"
| "parse_payment_interaction_tag _ = None"

section \<open>Server configuration\<close>

record payment_processor =
  pp_pmi :: string
  pp_id :: nat

record server_payments_options =
  spo_processors :: "payment_processor list"
  spo_priced_capabilities :: "priced_capability list"
  spo_resolve_price :: "nat option"
  spo_payment_ttl :: duration
  spo_max_pending_payments :: nat
  spo_payment_interaction :: payment_interaction_policy

definition server_payments_options_new ::
  "payment_processor list \<Rightarrow> priced_capability list \<Rightarrow> server_payments_options" where
  "server_payments_options_new processors priced_capabilities =
     \<lparr>spo_processors = processors, spo_priced_capabilities = priced_capabilities,
      spo_resolve_price = None, spo_payment_ttl = from_millis DEFAULT_PAYMENT_TTL_MS,
      spo_max_pending_payments = DEFAULT_MAX_PENDING_PAYMENTS,
      spo_payment_interaction = Policy_Optional\<rparr>"

section \<open>Context of an inbound event\<close>

text \<open>\<open>InboundContext\<close> of \<open>src/transport/server/middleware.rs\<close>. Its cancellation token only decides
  how a verification ends, which is an input of the model.\<close>

record inbound_context =
  ic_client_pubkey :: string
  ic_request_event_id :: string
  ic_is_encrypted :: bool
  ic_mirrored_wrap_kind :: "u16 option"
  ic_client_pmis :: "string list option"
  ic_payment_interaction :: "payment_interaction_mode option"

section \<open>Initiation of a payment\<close>

datatype 'a call = Returned 'a | Panicked

record payment_processor_create_params =
  pcp_amount :: int
  pcp_description :: "string option"
  pcp_request_event_id :: string
  pcp_client_pubkey :: string

record resolve_price_params =
  rpp_capability :: priced_capability
  rpp_request :: json_rpc_request
  rpp_client_pubkey :: string
  rpp_request_event_id :: string

datatype resolve_price_result =
    Quote int "string option" "meta option"
  | Reject "string option"
  | Waive "meta option"

record payment_env =
  env_resolve_price :: "resolve_price_params \<Rightarrow> (payment_error, resolve_price_result) result call"
  env_create :: "payment_processor \<Rightarrow> payment_processor_create_params \<Rightarrow>
    (payment_error, payment_required_params) result call"

definition build_processors_by_pmi :: "payment_processor list \<Rightarrow> (string, payment_processor) hash_map" where
  "build_processors_by_pmi processors = fold (\<lambda>p m. AList.update (pp_pmi p) p m) processors []"

definition capability_name_for_pricing :: "json_rpc_request \<Rightarrow> string option" where
  "capability_name_for_pricing request =
     (case req_params request of
        None \<Rightarrow> None
      | Some params \<Rightarrow>
          if req_method request = ''tools/call'' \<or> req_method request = ''prompts/get''
          then Option.bind (json_get params ''name'') json_as_str
          else if req_method request = ''resources/read''
          then Option.bind (json_get params ''uri'') json_as_str
          else None)"

definition match_priced_capability :: "json_rpc_request \<Rightarrow> priced_capability list \<Rightarrow> priced_capability option" where
  "match_priced_capability request priced =
     (let capability_name = capability_name_for_pricing request in
      find (\<lambda>p. pc_method p = req_method request \<and>
        (case pc_name p of None \<Rightarrow> True | Some name \<Rightarrow> capability_name = Some name)) priced)"

definition DEFAULT_VERIFICATION_TIMEOUT :: duration where
  "DEFAULT_VERIFICATION_TIMEOUT = 5 * 60 * 1000000000"

definition verification_timeout :: "u64 option \<Rightarrow> duration" where
  "verification_timeout ttl_seconds =
     (case ttl_seconds of
        None \<Rightarrow> DEFAULT_VERIFICATION_TIMEOUT
      | Some ttl \<Rightarrow>
          if ttl = 0 then DEFAULT_VERIFICATION_TIMEOUT
          else (case checked_mul_u64 ttl 1000 of
                  Some ms \<Rightarrow> from_millis ms
                | None \<Rightarrow> DEFAULT_VERIFICATION_TIMEOUT))"

primrec first_supported :: "(string, payment_processor) hash_map \<Rightarrow> string list \<Rightarrow> payment_processor option" where
  "first_supported by_pmi [] = None"
| "first_supported by_pmi (pmi # pmis) =
     (case map_of by_pmi pmi of Some p \<Rightarrow> Some p | None \<Rightarrow> first_supported by_pmi pmis)"

definition resolve_payment_processor ::
  "string list option \<Rightarrow> (string, payment_processor) hash_map \<Rightarrow> payment_processor list \<Rightarrow>
   (payment_error, payment_processor) result" where
  "resolve_payment_processor client_pmis by_pmi processors =
     (case (case Option.bind client_pmis (first_supported by_pmi) of
              Some p \<Rightarrow> Some p
            | None \<Rightarrow> (case processors of [] \<Rightarrow> None | p # _ \<Rightarrow> Some p)) of
        Some p \<Rightarrow> Ok p
      | None \<Rightarrow> Err (Processor_Error ''no payment processors configured''))"

datatype initiation_outcome =
    Rejected string int "string option"
  | Waived
  | Payment_Required payment_processor payment_required_params "meta option" duration

definition merge_meta :: "meta option \<Rightarrow> meta option \<Rightarrow> meta option" where
  "merge_meta processor_meta quote_meta =
     (case (processor_meta, quote_meta) of
        (None, None) \<Rightarrow> None
      | _ \<Rightarrow>
          let merged = (case processor_meta of Some m \<Rightarrow> m | None \<Rightarrow> []) in
          Some (case quote_meta of
                  Some q \<Rightarrow> fold (\<lambda>(key, value) m. AList.update key value m) q merged
                | None \<Rightarrow> merged))"

definition resolve_and_initiate_payment ::
  "payment_env \<Rightarrow> json_rpc_request \<Rightarrow> priced_capability \<Rightarrow> string \<Rightarrow> string \<Rightarrow> string list option \<Rightarrow>
   server_payments_options \<Rightarrow> (string, payment_processor) hash_map \<Rightarrow>
   (payment_error, initiation_outcome) result call" where
  "resolve_and_initiate_payment env request priced request_event_id client_pubkey client_pmis options by_pmi =
     (case resolve_payment_processor client_pmis by_pmi (spo_processors options) of
        Err e \<Rightarrow> Returned (Err e)
      | Ok processor \<Rightarrow>
          (case (case spo_resolve_price options of
                   Some resolver \<Rightarrow> env_resolve_price env
                     \<lparr>rpp_capability = priced, rpp_request = request, rpp_client_pubkey = client_pubkey,
                      rpp_request_event_id = request_event_id\<rparr>
                 | None \<Rightarrow> Returned (Ok (Quote (pc_amount priced) (pc_description priced) None))) of
             Panicked \<Rightarrow> Panicked
           | Returned (Err e) \<Rightarrow> Returned (Err e)
           | Returned (Ok (Reject message)) \<Rightarrow>
               Returned (Ok (Rejected (pp_pmi processor) (pc_amount priced) message))
           | Returned (Ok (Waive m)) \<Rightarrow> Returned (Ok Waived)
           | Returned (Ok (Quote amount description quote_meta)) \<Rightarrow>
               (case env_create env processor
                       \<lparr>pcp_amount = amount, pcp_description = description,
                        pcp_request_event_id = request_event_id, pcp_client_pubkey = client_pubkey\<rparr> of
                  Panicked \<Rightarrow> Panicked
                | Returned (Err e) \<Rightarrow> Returned (Err e)
                | Returned (Ok payment_required) \<Rightarrow>
                    Returned (Ok (Payment_Required processor payment_required
                      (merge_meta (prq_meta payment_required) quote_meta)
                      (verification_timeout (prq_ttl payment_required)))))))"

section \<open>Lemmas\<close>

text \<open>
  What the pricing of a request answers, read off the environment alone: the callback's answer, or
  the capability's own price where no callback is configured.
\<close>

definition price_answer ::
  "payment_env \<Rightarrow> server_payments_options \<Rightarrow> json_rpc_request \<Rightarrow> priced_capability \<Rightarrow> string \<Rightarrow> string \<Rightarrow>
   (payment_error, resolve_price_result) result call" where
  "price_answer env options request priced request_event_id client_pubkey =
     (case spo_resolve_price options of
        Some resolver \<Rightarrow> env_resolve_price env
          \<lparr>rpp_capability = priced, rpp_request = request, rpp_client_pubkey = client_pubkey,
           rpp_request_event_id = request_event_id\<rparr>
      | None \<Rightarrow> Returned (Ok (Quote (pc_amount priced) (pc_description priced) None)))"

lemma initiation_waived:
  assumes "resolve_and_initiate_payment env request priced request_event_id client_pubkey client_pmis
    options by_pmi = Returned (Ok Waived)"
  obtains m where "price_answer env options request priced request_event_id client_pubkey =
    Returned (Ok (Waive m))"
  using assms unfolding resolve_and_initiate_payment_def price_answer_def
  by (auto split: sum.splits option.splits call.splits resolve_price_result.splits)

definition i64_ok :: "int \<Rightarrow> bool" where
  "i64_ok i \<longleftrightarrow> - (2 ^ 63) \<le> i \<and> i < 2 ^ 63"

lemma i64_read: "i64_ok i \<Longrightarrow> json_as_i64 (json_of_i64 i) = Some i"
  unfolding i64_ok_def by (intro json_as_i64_of_i64) simp_all

lemma json_of_i64_not_null: "json_of_i64 i \<noteq> JNull"
  by (simp add: json_of_i64_def)

lemmas struct_read_defs = is_struct_def req_at_def opt_at_def struct_field_def opt_entry_def
  json_of_u64_def

lemma payment_required_params_roundtrip:
  "i64_ok (prq_amount p) \<Longrightarrow>
     payment_required_params_of_value (payment_required_params_to_value p) = Some p"
  by (cases p; cases "prq_description p"; cases "prq_ttl p"; cases "prq_meta p")
    (simp_all add: payment_required_params_of_value_def payment_required_params_to_value_def
      struct_read_defs i64_read)

lemma payment_option_roundtrip:
  "i64_ok (po_amount p) \<Longrightarrow> payment_option_of_value (payment_option_to_value p) = Some p"
  by (cases p; cases "po_description p"; cases "po_ttl p"; cases "po_meta p")
    (simp_all add: payment_option_of_value_def payment_option_to_value_def struct_read_defs i64_read)

lemma read_all_map:
  "list_all (\<lambda>x. rd (wr x) = Some x) xs \<Longrightarrow> read_all rd (map wr xs) = Some xs"
  by (induction xs) simp_all

lemma payment_required_error_data_roundtrip:
  assumes "list_all (\<lambda>x. i64_ok (po_amount x)) (pre_payment_options d)"
  shows "payment_required_error_data_of_value (payment_required_error_data_to_value d) = Some d"
proof -
  have "read_all payment_option_of_value (map payment_option_to_value (pre_payment_options d)) =
      Some (pre_payment_options d)"
    using assms by (intro read_all_map) (simp add: list_all_iff payment_option_roundtrip)
  then show ?thesis
    by (cases d; cases "pre_instructions d")
      (simp_all add: payment_required_error_data_of_value_def payment_required_error_data_to_value_def
        struct_read_defs)
qed

lemma payment_pending_error_data_roundtrip:
  "payment_pending_error_data_of_value (payment_pending_error_data_to_value d) = Some d"
  by (cases d; cases "ppe_instructions d"; cases "ppe_retry_after d")
    (simp_all add: payment_pending_error_data_of_value_def payment_pending_error_data_to_value_def
      struct_read_defs)

lemma find_snoc:
  "find P (xs @ [y]) = (case find P xs of Some z \<Rightarrow> Some z | None \<Rightarrow> if P y then Some y else None)"
  by (induction xs) auto

lemma processors_by_pmi_of:
  "map_of (fold (\<lambda>p m. AList.update (pp_pmi p) p m) ps m0) pmi =
     (case find (\<lambda>p. pp_pmi p = pmi) (rev ps) of Some p \<Rightarrow> Some p | None \<Rightarrow> map_of m0 pmi)"
  by (induction ps arbitrary: m0) (auto simp: find_snoc split: option.splits)

lemma processors_by_pmi:
  "map_of (build_processors_by_pmi ps) = (\<lambda>pmi. find (\<lambda>p. pp_pmi p = pmi) (rev ps))"
  by (rule ext) (simp add: build_processors_by_pmi_def processors_by_pmi_of split: option.splits)

lemma first_supported_find:
  "first_supported m pmis = Option.bind (find (\<lambda>pmi. map_of m pmi \<noteq> None) pmis) (map_of m)"
  by (induction pmis) (auto split: option.splits)

section \<open>Properties\<close>

text \<open>
  The processor a priced request is charged through is a configured one: the last one registered
  for the first PMI in the client's order of preference that any processor serves, and the first
  configured processor when there is no such PMI. Without a processor the request fails.
\<close>
theorem processor_selection:
  "(ps = [] \<longrightarrow> resolve_payment_processor pmis (build_processors_by_pmi ps) ps =
      Err (Processor_Error ''no payment processors configured'')) \<and>
   (ps \<noteq> [] \<longrightarrow> (\<exists>p \<in> set ps. resolve_payment_processor pmis (build_processors_by_pmi ps) ps = Ok p \<and>
      (case find (\<lambda>pmi. pmi \<in> pp_pmi ` set ps) (case pmis of Some l \<Rightarrow> l | None \<Rightarrow> []) of
         Some pmi \<Rightarrow> Some p = find (\<lambda>q. pp_pmi q = pmi) (rev ps)
       | None \<Rightarrow> p = hd ps)))"
proof -
  let ?m = "build_processors_by_pmi ps" and ?l = "case pmis of Some l \<Rightarrow> l | None \<Rightarrow> []"
  have served: "(\<lambda>pmi. map_of ?m pmi \<noteq> None) = (\<lambda>pmi. pmi \<in> pp_pmi ` set ps)"
    by (rule ext) (auto simp: processors_by_pmi find_None_iff)
  have sel: "Option.bind pmis (first_supported ?m) =
      Option.bind (find (\<lambda>pmi. pmi \<in> pp_pmi ` set ps) ?l) (\<lambda>pmi. find (\<lambda>q. pp_pmi q = pmi) (rev ps))"
    unfolding served [symmetric] by (cases pmis) (simp_all add: first_supported_find processors_by_pmi)
  have found: "\<exists>p \<in> set ps. find (\<lambda>q. pp_pmi q = pmi) (rev ps) = Some p"
    if "find (\<lambda>pmi. pmi \<in> pp_pmi ` set ps) ?l = Some pmi" for pmi
  proof -
    have "pmi \<in> pp_pmi ` set ps" using that by (auto simp: find_Some_iff)
    then obtain p where "find (\<lambda>q. pp_pmi q = pmi) (rev ps) = Some p"
      by (cases "find (\<lambda>q. pp_pmi q = pmi) (rev ps)") (auto simp: find_None_iff)
    moreover from this have "p \<in> set ps" by (metis find_Some_iff nth_mem set_rev)
    ultimately show ?thesis by blast
  qed
  show ?thesis
  proof (cases "find (\<lambda>pmi. pmi \<in> pp_pmi ` set ps) ?l")
    case None
    then show ?thesis using sel by (cases ps) (simp_all add: resolve_payment_processor_def)
  next
    case (Some pmi)
    then obtain p where p: "p \<in> set ps" "find (\<lambda>q. pp_pmi q = pmi) (rev ps) = Some p"
      using found by blast
    then have "resolve_payment_processor pmis ?m ps = Ok p"
      using sel Some by (simp add: resolve_payment_processor_def)
    with p Some show ?thesis by auto
  qed
qed

definition demo_processors :: "payment_processor list" where
  "demo_processors = [\<lparr>pp_pmi = ''ln'', pp_id = 0\<rparr>, \<lparr>pp_pmi = ''card'', pp_id = 1\<rparr>, \<lparr>pp_pmi = ''card'', pp_id = 2\<rparr>]"

theorem processor_selection_witness:
  "\<exists>p \<in> set demo_processors.
     resolve_payment_processor (Some [''cash'', ''card'', ''ln''])
       (build_processors_by_pmi demo_processors) demo_processors = Ok p \<and> pp_id p = 2"
proof -
  have "find (\<lambda>pmi. pmi \<in> pp_pmi ` set demo_processors) [''cash'', ''card'', ''ln''] = Some ''card''"
    and "find (\<lambda>q. pp_pmi q = ''card'') (rev demo_processors) = Some \<lparr>pp_pmi = ''card'', pp_id = 2\<rparr>"
    and "demo_processors \<noteq> []"
    by (simp_all add: demo_processors_def)
  then show ?thesis
    using processor_selection [of demo_processors "Some [''cash'', ''card'', ''ln'']"] by auto
qed

text \<open>
  What one side writes the other reads back: the payment request of the transparent lifecycle
  and the data of the two explicit-gating errors survive encoding and decoding, for all amounts of an
  \<open>i64\<close>.
\<close>
theorem payment_wire_roundtrip:
  assumes "i64_ok (prq_amount p)" "list_all (\<lambda>x. i64_ok (po_amount x)) (pre_payment_options d)"
  shows "payment_required_params_of_value (payment_required_params_to_value p) = Some p \<and>
    payment_required_error_data_of_value (payment_required_error_data_to_value d) = Some d \<and>
    payment_pending_error_data_of_value (payment_pending_error_data_to_value e) = Some e"
  using assms payment_required_params_roundtrip payment_required_error_data_roundtrip
    payment_pending_error_data_roundtrip by blast

definition demo_params :: payment_required_params where
  "demo_params = \<lparr>prq_amount = 5, prq_pay_req = ''lnbc'', prq_pmi = ''ln'', prq_description = None,
     prq_ttl = Some 60, prq_meta = Some []\<rparr>"

definition demo_error_data :: payment_required_error_data where
  "demo_error_data = \<lparr>pre_instructions = Some ''pay'', pre_payment_options =
     [\<lparr>po_amount = - 1, po_pmi = ''ln'', po_pay_req = ''lnbc'', po_description = Some ''d'',
       po_ttl = None, po_meta = None\<rparr>]\<rparr>"

theorem payment_wire_roundtrip_witness:
  "payment_required_params_of_value (payment_required_params_to_value demo_params) = Some demo_params \<and>
   payment_required_error_data_of_value (payment_required_error_data_to_value demo_error_data) =
     Some demo_error_data \<and>
   payment_pending_error_data_of_value (payment_pending_error_data_to_value
     \<lparr>ppe_instructions = None, ppe_retry_after = Some 2\<rparr>) =
     Some \<lparr>ppe_instructions = None, ppe_retry_after = Some 2\<rparr>"
  by (rule payment_wire_roundtrip) (simp_all add: demo_params_def demo_error_data_def i64_ok_def)

end
