(* ===== verification/Explicit_Gating.thy ===== *)
theory Explicit_Gating
  imports Payments
begin

text \<open>
  The explicit-gating lifecycle of the server (\<open>src/payments/server_explicit_gating.rs\<close>). A delivery
  runs the middleware's \<open>handle\<close> on its own task, and a published offer spawns a task that verifies
  the payment; the tasks share the authorization store and interleave at every await. \<open>handle\<close> is
  cut at its awaits into the segments \<open>gate_enter\<close>, \<open>gate_initiated\<close> and \<open>gate_published\<close>, the
  verification task is \<open>verify_finished\<close>, and \<open>gate_step\<close> runs one segment of one task.

  What the awaited code answers is part of the event: the pricing callback and the processor through
  \<open>env\<close>, the publish as a boolean, the verification as one of its four ends. The log records
  what the tasks did and why a message was forwarded.
\<close>

section \<open>Error responses\<close>

definition PAYMENT_REQUIRED_INSTRUCTIONS :: string where
  "PAYMENT_REQUIRED_INSTRUCTIONS = ''Payment is required to process this request. Pay one of the offered options, then retry the same request with exactly the same method and params.''"

definition PAYMENT_PENDING_INSTRUCTIONS :: string where
  "PAYMENT_PENDING_INSTRUCTIONS = ''A payment is already pending for this invocation. Retry the same request later with exactly the same method and params.''"

definition PAYMENT_REJECTED_FALLBACK_MESSAGE :: string where
  "PAYMENT_REJECTED_FALLBACK_MESSAGE = ''Payment rejected by policy''"

definition build_payment_required_error :: "json \<Rightarrow> payment_option \<Rightarrow> json_rpc_error_response" where
  "build_payment_required_error i option =
     \<lparr>ers_jsonrpc = ''2.0'', ers_id = i,
      ers_error = \<lparr>err_code = PAYMENT_REQUIRED_ERROR_CODE, err_message = ''Payment Required'',
        err_data = Some (payment_required_error_data_to_value
          \<lparr>pre_instructions = Some PAYMENT_REQUIRED_INSTRUCTIONS, pre_payment_options = [option]\<rparr>)\<rparr>\<rparr>"

definition retry_after_secs :: "u64 \<Rightarrow> u64" where
  "retry_after_secs remaining_ms =
     of_nat (max 1 (min 2 ((unat remaining_ms + 999) div 1000)))"

definition build_payment_pending_error :: "json \<Rightarrow> u64 \<Rightarrow> json_rpc_error_response" where
  "build_payment_pending_error i remaining_ms =
     \<lparr>ers_jsonrpc = ''2.0'', ers_id = i,
      ers_error = \<lparr>err_code = PAYMENT_PENDING_ERROR_CODE, err_message = ''Payment Pending'',
        err_data = Some (payment_pending_error_data_to_value
          \<lparr>ppe_instructions = Some PAYMENT_PENDING_INSTRUCTIONS,
           ppe_retry_after = Some (retry_after_secs remaining_ms)\<rparr>)\<rparr>\<rparr>"

definition build_payment_rejected_error :: "json \<Rightarrow> string option \<Rightarrow> json_rpc_error_response" where
  "build_payment_rejected_error i message =
     \<lparr>ers_jsonrpc = ''2.0'', ers_id = i,
      ers_error = \<lparr>err_code = - 32000,
        err_message = (case message of Some m \<Rightarrow> m | None \<Rightarrow> PAYMENT_REJECTED_FALLBACK_MESSAGE),
        err_data = None\<rparr>\<rparr>"

section \<open>The segments of the middleware\<close>

record gate_offer =
  go_identity :: canonical_invocation_identity
  go_processor :: payment_processor
  go_payment_required :: payment_required_params
  go_grant_ttl_ms :: u64
  go_polling_timeout :: duration

datatype gate_pc =
    Gate_Initiating json_rpc_request priced_capability canonical_invocation_identity inbound_context
  | Gate_Answering
  | Gate_Offering gate_offer

datatype gate_action =
    Gate_Forward json_rpc_message inbound_context
  | Gate_Publish string string json_rpc_message

definition publish_error :: "inbound_context \<Rightarrow> json_rpc_error_response \<Rightarrow> gate_action" where
  "publish_error ctx response =
     Gate_Publish (ic_client_pubkey ctx) (ic_request_event_id ctx) (ErrorResponse response)"

definition payment_ttl_ms :: "server_payments_options \<Rightarrow> u64" where
  "payment_ttl_ms opts =
     (if as_millis (spo_payment_ttl opts) < 2 ^ 64 then of_nat (as_millis (spo_payment_ttl opts)) else - 1)"

definition gate_enter ::
  "ext \<Rightarrow> 'c auth_lru \<Rightarrow> server_payments_options \<Rightarrow> 'c auth_store \<Rightarrow> instant \<Rightarrow> json_rpc_message \<Rightarrow>
   inbound_context \<Rightarrow> 'c auth_store \<times> gate_action list \<times> gate_pc option" where
  "gate_enter X L opts s now message ctx =
     (case message of
        Request request \<Rightarrow>
          if ic_payment_interaction ctx \<noteq> Some Explicit_Gating
          then (s, [Gate_Forward message ctx], None)
          else
            (case match_priced_capability request (spo_priced_capabilities opts) of
               None \<Rightarrow> (s, [Gate_Forward message ctx], None)
             | Some priced \<Rightarrow>
                 (case compute_canonical_invocation_identity X (ic_client_pubkey ctx)
                         (req_method request) (req_params request) of
                    Err e \<Rightarrow> (s, [], None)
                  | Ok identity \<Rightarrow>
                      (case claim_or_set_pending L s now identity (payment_ttl_ms opts) of
                         (s', Claimed) \<Rightarrow> (s', [Gate_Forward message ctx], None)
                       | (s', Already_Pending remaining_ms) \<Rightarrow>
                           (s', [publish_error ctx (build_payment_pending_error (req_id request) remaining_ms)],
                            Some Gate_Answering)
                       | (s', Pending_Set) \<Rightarrow>
                           (s', [], Some (Gate_Initiating request priced identity ctx)))))
      | _ \<Rightarrow> (s, [Gate_Forward message ctx], None))"

definition gate_initiated ::
  "payment_env \<Rightarrow> 'c auth_lru \<Rightarrow> server_payments_options \<Rightarrow> 'c auth_store \<Rightarrow> instant \<Rightarrow>
   json_rpc_request \<Rightarrow> priced_capability \<Rightarrow> canonical_invocation_identity \<Rightarrow> inbound_context \<Rightarrow>
   'c auth_store \<times> gate_action list \<times> gate_pc option" where
  "gate_initiated env L opts s now request priced identity ctx =
     (case resolve_and_initiate_payment env request priced (ic_request_event_id ctx)
             (ic_client_pubkey ctx) (ic_client_pmis ctx) opts
             (build_processors_by_pmi (spo_processors opts)) of
        Panicked \<Rightarrow> (s, [], None)
      | Returned (Err e) \<Rightarrow> (clear_pending_auth L s identity, [], None)
      | Returned (Ok (Rejected pmi amount reason)) \<Rightarrow>
          (clear_pending_auth L s identity,
           [publish_error ctx (build_payment_rejected_error (req_id request) reason)], Some Gate_Answering)
      | Returned (Ok Waived) \<Rightarrow>
          (clear_pending_auth L s identity, [Gate_Forward (Request request) ctx], None)
      | Returned (Ok (Payment_Required processor payment_required merged_meta verify_timeout)) \<Rightarrow>
          let grant_ttl_ms =
                (case prq_ttl payment_required of
                   Some secs \<Rightarrow> if 0 < secs then saturating_mul_u64 secs 1000 else payment_ttl_ms opts
                 | None \<Rightarrow> payment_ttl_ms opts) in
          (update_pending_ttl L s now identity grant_ttl_ms,
           [publish_error ctx (build_payment_required_error (req_id request)
              \<lparr>po_amount = prq_amount payment_required, po_pmi = prq_pmi payment_required,
               po_pay_req = prq_pay_req payment_required,
               po_description = prq_description payment_required, po_ttl = prq_ttl payment_required,
               po_meta = merged_meta\<rparr>)],
           Some (Gate_Offering
             \<lparr>go_identity = identity, go_processor = processor, go_payment_required = payment_required,
              go_grant_ttl_ms = grant_ttl_ms,
              go_polling_timeout = min verify_timeout (spo_payment_ttl opts)\<rparr>)))"

text \<open>A published offer is handed to a new verification task.\<close>

definition gate_published ::
  "'c auth_lru \<Rightarrow> 'c auth_store \<Rightarrow> gate_offer \<Rightarrow> bool \<Rightarrow> 'c auth_store \<times> gate_offer option" where
  "gate_published L s offer ok =
     (if ok then (s, Some offer) else (clear_pending_auth L s (go_identity offer), None))"

datatype verify_end = Verify_Ok | Verify_Failed payment_error | Verify_Elapsed | Verify_Panicked

definition verify_finished ::
  "'c auth_lru \<Rightarrow> 'c auth_store \<Rightarrow> instant \<Rightarrow> gate_offer \<Rightarrow> verify_end \<Rightarrow> 'c auth_store" where
  "verify_finished L s now offer outcome =
     (case outcome of
        Verify_Ok \<Rightarrow> grant L s now (go_identity offer) (go_grant_ttl_ms offer)
      | Verify_Failed e \<Rightarrow> clear_pending_auth L s (go_identity offer)
      | Verify_Elapsed \<Rightarrow> clear_pending_auth L s (go_identity offer)
      | Verify_Panicked \<Rightarrow> clear_pending_auth L s (go_identity offer))"

section \<open>The tasks together\<close>

text \<open>
  The log holds what the tasks did and, beside it, what the outside answered: the pricing's answer
  for the request of a task, a published offer, a payment the processor reported as settled.
\<close>

datatype gate_record =
    Did nat gate_action
  | Priced nat "(payment_error, resolve_price_result) result call"
  | Offered canonical_invocation_identity
  | Settled canonical_invocation_identity

record 'c gating =
  gt_store :: "'c auth_store"
  gt_next :: nat
  gt_tasks :: "(nat \<times> gate_pc) list"
  gt_verifying :: "(nat \<times> gate_offer) list"
  gt_log :: "gate_record list"

definition gating_new :: "'c auth_lru \<Rightarrow> nat \<Rightarrow> 'c gating" where
  "gating_new L n =
     \<lparr>gt_store = with_max_entries L n, gt_next = 0, gt_tasks = [], gt_verifying = [], gt_log = []\<rparr>"

datatype gate_event =
    Delivered instant json_rpc_message inbound_context
  | Initiated nat instant payment_env
  | Publish_Returned nat bool
  | Verify_Returned nat instant verify_end

definition set_task :: "nat \<Rightarrow> gate_pc option \<Rightarrow> (nat \<times> gate_pc) list \<Rightarrow> (nat \<times> gate_pc) list" where
  "set_task n pc tasks = (case pc of Some p \<Rightarrow> AList.update n p tasks | None \<Rightarrow> AList.delete n tasks)"

fun gate_step :: "ext \<Rightarrow> 'c auth_lru \<Rightarrow> server_payments_options \<Rightarrow> 'c gating \<Rightarrow> gate_event \<Rightarrow> 'c gating" where
  "gate_step X L opts g (Delivered now message ctx) =
     (let n = gt_next g; (s, acts, pc) = gate_enter X L opts (gt_store g) now message ctx in
      g\<lparr>gt_store := s, gt_next := Suc n, gt_tasks := set_task n pc (gt_tasks g),
        gt_log := gt_log g @ map (Did n) acts\<rparr>)"
| "gate_step X L opts g (Initiated n now env) =
     (case map_of (gt_tasks g) n of
        Some (Gate_Initiating request priced identity ctx) \<Rightarrow>
          (let (s, acts, pc) = gate_initiated env L opts (gt_store g) now request priced identity ctx in
           g\<lparr>gt_store := s, gt_tasks := set_task n pc (gt_tasks g),
             gt_log := gt_log g @ Priced n (price_answer env opts request priced (ic_request_event_id ctx)
               (ic_client_pubkey ctx)) # map (Did n) acts\<rparr>)
      | _ \<Rightarrow> g)"
| "gate_step X L opts g (Publish_Returned n ok) =
     (case map_of (gt_tasks g) n of
        Some Gate_Answering \<Rightarrow> g\<lparr>gt_tasks := AList.delete n (gt_tasks g)\<rparr>
      | Some (Gate_Offering offer) \<Rightarrow>
          (case gate_published L (gt_store g) offer ok of
             (s, Some offer') \<Rightarrow>
               g\<lparr>gt_store := s, gt_tasks := AList.delete n (gt_tasks g),
                 gt_verifying := (n, offer') # gt_verifying g,
                 gt_log := gt_log g @ [Offered (go_identity offer')]\<rparr>
           | (s, None) \<Rightarrow> g\<lparr>gt_store := s, gt_tasks := AList.delete n (gt_tasks g)\<rparr>)
      | _ \<Rightarrow> g)"
| "gate_step X L opts g (Verify_Returned n now outcome) =
     (case map_of (gt_verifying g) n of
        Some offer \<Rightarrow>
          g\<lparr>gt_store := verify_finished L (gt_store g) now offer outcome,
            gt_verifying := AList.delete n (gt_verifying g),
            gt_log := gt_log g @ (if outcome = Verify_Ok then [Settled (go_identity offer)] else [])\<rparr>
      | None \<Rightarrow> g)"

definition gate_run :: "ext \<Rightarrow> 'c auth_lru \<Rightarrow> server_payments_options \<Rightarrow> nat \<Rightarrow> gate_event list \<Rightarrow> 'c gating" where
  "gate_run X L opts n evs = foldl (gate_step X L opts) (gating_new L n) evs"

section \<open>Invariants\<close>

fun settled_of :: "string \<Rightarrow> gate_record \<Rightarrow> bool" where
  "settled_of k (Settled i) \<longleftrightarrow> auth_key i = k"
| "settled_of k _ \<longleftrightarrow> False"

fun offered_of :: "string \<Rightarrow> gate_record \<Rightarrow> bool" where
  "offered_of k (Offered i) \<longleftrightarrow> auth_key i = k"
| "offered_of k _ \<longleftrightarrow> False"

fun answer_of :: "nat \<Rightarrow> gate_record \<Rightarrow> bool" where
  "answer_of n (Did m act) \<longleftrightarrow> m = n"
| "answer_of n _ \<longleftrightarrow> False"

text \<open>The identity a request is gated under, if it is gated.\<close>

definition gate_identity ::
  "ext \<Rightarrow> server_payments_options \<Rightarrow> json_rpc_message \<Rightarrow> inbound_context \<Rightarrow>
   (payment_error, canonical_invocation_identity) result option" where
  "gate_identity X opts message ctx =
     (case message of
        Request request \<Rightarrow>
          if ic_payment_interaction ctx = Some Explicit_Gating \<and>
             match_priced_capability request (spo_priced_capabilities opts) \<noteq> None
          then Some (compute_canonical_invocation_identity X (ic_client_pubkey ctx)
                 (req_method request) (req_params request))
          else None
      | _ \<Rightarrow> None)"

text \<open>
  A task is waived when the pricing callback waived its request. A gated forward that was not
  waived is a spending of its identity.
\<close>

definition waived :: "gate_record list \<Rightarrow> nat \<Rightarrow> bool" where
  "waived log n \<longleftrightarrow> (\<exists>m. Priced n (Returned (Ok (Waive m))) \<in> set log)"

fun spends :: "ext \<Rightarrow> server_payments_options \<Rightarrow> gate_record list \<Rightarrow> string \<Rightarrow> gate_record \<Rightarrow> bool" where
  "spends X opts log k (Did n (Gate_Forward m ctx)) \<longleftrightarrow>
     (\<exists>i. gate_identity X opts m ctx = Some (Ok i) \<and> auth_key i = k) \<and> \<not> waived log n"
| "spends X opts log k _ \<longleftrightarrow> False"

text \<open>A priced request whose identity cannot be computed is not forwarded.\<close>

fun forward_ok :: "ext \<Rightarrow> server_payments_options \<Rightarrow> gate_record \<Rightarrow> bool" where
  "forward_ok X opts (Did n (Gate_Forward m ctx)) \<longleftrightarrow> (\<forall>e. gate_identity X opts m ctx \<noteq> Some (Err e))"
| "forward_ok X opts _ \<longleftrightarrow> True"

fun pc_ok :: "ext \<Rightarrow> server_payments_options \<Rightarrow> gate_pc \<Rightarrow> bool" where
  "pc_ok X opts (Gate_Initiating request priced identity ctx) \<longleftrightarrow>
     gate_identity X opts (Request request) ctx = Some (Ok identity)"
| "pc_ok X opts _ \<longleftrightarrow> True"

definition spend_inv :: "ext \<Rightarrow> server_payments_options \<Rightarrow> 'c auth_lru \<Rightarrow> 'c gating \<Rightarrow> bool" where
  "spend_inv X opts L g \<longleftrightarrow>
     (\<forall>k. occurs (spends X opts (gt_log g) k) (gt_log g) +
        (if lru_peek L (as_authorizations (gt_store g)) k = None then 0 else 1) \<le>
        occurs (settled_of k) (gt_log g))"

definition offer_inv :: "'c gating \<Rightarrow> bool" where
  "offer_inv g \<longleftrightarrow>
     (\<forall>k. occurs (settled_of k) (gt_log g) +
        occurs (\<lambda>(n, offer). auth_key (go_identity offer) = k) (gt_verifying g) \<le>
        occurs (offered_of k) (gt_log g))"

definition task_inv :: "ext \<Rightarrow> server_payments_options \<Rightarrow> 'c gating \<Rightarrow> bool" where
  "task_inv X opts g \<longleftrightarrow>
     (\<forall>n. occurs (answer_of n) (gt_log g) \<le> 1) \<and>
     (\<forall>n \<ge> gt_next g. occurs (answer_of n) (gt_log g) = 0 \<and> map_of (gt_tasks g) n = None) \<and>
     (\<forall>n pc. map_of (gt_tasks g) n = Some pc \<longrightarrow> pc_ok X opts pc) \<and>
     (\<forall>n r p i c. map_of (gt_tasks g) n = Some (Gate_Initiating r p i c) \<longrightarrow>
        occurs (answer_of n) (gt_log g) = 0) \<and>
     list_all (forward_ok X opts) (gt_log g)"

definition gate_inv :: "ext \<Rightarrow> 'c auth_lru \<Rightarrow> ('c \<Rightarrow> bool) \<Rightarrow> server_payments_options \<Rightarrow> 'c gating \<Rightarrow> bool" where
  "gate_inv X L valid opts g \<longleftrightarrow>
     auth_valid valid (gt_store g) \<and> spend_inv X opts L g \<and> offer_inv g \<and> task_inv X opts g"

text \<open>What the segments do, as far as the invariants look at it.\<close>

lemma gate_enter_cases:
  assumes "gate_enter X L opts s now message ctx = (s', acts, pc)"
  obtains (free) "s' = s" "acts = [Gate_Forward message ctx]" "pc = None"
      "gate_identity X opts message ctx = None"
    | (drop) "s' = s" "acts = []" "pc = None"
    | (claim) i where "acts = [Gate_Forward message ctx]" "pc = None"
        "gate_identity X opts message ctx = Some (Ok i)"
        "claim_or_set_pending L s now i (payment_ttl_ms opts) = (s', Claimed)"
    | (wait) i ms r where "acts = [publish_error ctx r]" "pc = Some Gate_Answering"
        "gate_identity X opts message ctx = Some (Ok i)"
        "claim_or_set_pending L s now i (payment_ttl_ms opts) = (s', Already_Pending ms)"
    | (start) i request priced where "acts = []" "pc = Some (Gate_Initiating request priced i ctx)"
        "message = Request request" "gate_identity X opts message ctx = Some (Ok i)"
        "claim_or_set_pending L s now i (payment_ttl_ms opts) = (s', Pending_Set)"
  using assms
  by (auto simp: gate_enter_def gate_identity_def
      split: json_rpc_message.splits if_splits option.splits sum.splits prod.splits claim_or_pending.splits)

lemma gate_initiated_cases:
  assumes "gate_initiated env L opts s now request priced i ctx = (s', acts, pc)"
  obtains (panic) "s' = s" "acts = []" "pc = None"
    | (failed) "s' = clear_pending_auth L s i" "acts = []" "pc = None"
    | (rejected) r where "s' = clear_pending_auth L s i" "acts = [publish_error ctx r]" "pc = Some Gate_Answering"
    | (waived) "s' = clear_pending_auth L s i" "acts = [Gate_Forward (Request request) ctx]"
        "pc = None" "\<exists>m. price_answer env opts request priced (ic_request_event_id ctx)
          (ic_client_pubkey ctx) = Returned (Ok (Waive m))"
    | (offer) ttl r offer where "s' = update_pending_ttl L s now i ttl" "acts = [publish_error ctx r]"
        "pc = Some (Gate_Offering offer)" "go_identity offer = i"
  using assms
  by (auto simp: gate_initiated_def Let_def elim: initiation_waived
      split: call.splits sum.splits initiation_outcome.splits prod.splits)

lemma gate_enter_acts:
  assumes "gate_enter X L opts s now message ctx = (s', acts, pc)"
  shows "length acts \<le> 1 \<and> list_all (\<lambda>a. forward_ok X opts (Did n a)) acts \<and>
    (\<forall>p. pc = Some p \<longrightarrow> pc_ok X opts p) \<and>
    (\<forall>r q i c. pc = Some (Gate_Initiating r q i c) \<longrightarrow> acts = [])"
  using assms by (rule gate_enter_cases) (simp_all add: publish_error_def)

lemma gate_initiated_acts:
  assumes "gate_initiated env L opts s now request priced i ctx = (s', acts, pc)"
    and "gate_identity X opts (Request request) ctx = Some (Ok i)"
  shows "length acts \<le> 1 \<and> list_all (\<lambda>a. forward_ok X opts (Did n a)) acts \<and>
    (\<forall>p. pc = Some p \<longrightarrow> pc_ok X opts p) \<and> (\<forall>r q i c. pc \<noteq> Some (Gate_Initiating r q i c))"
  using assms(1) by (rule gate_initiated_cases) (simp_all add: publish_error_def assms(2))

lemma occurs_did [simp]:
  "occurs (answer_of m) (map (Did n) acts) = (if m = n then length acts else 0)"
  "occurs (settled_of k) (map (Did n) acts) = 0"
  "occurs (offered_of k) (map (Did n) acts) = 0"
  by (induction acts) auto

lemma set_task_of: "map_of (set_task n pc tasks) = (map_of tasks)(n := pc)"
  by (cases pc) (simp_all add: set_task_def)

lemma task_inv_move:
  assumes inv: "task_inv X opts g"
    and rs: "\<And>m r. r \<in> set rs \<Longrightarrow> \<not> answer_of m r \<and> forward_ok X opts r"
    and acts: "occurs (answer_of n) (gt_log g) + length acts \<le> 1"
      "list_all (\<lambda>a. forward_ok X opts (Did n a)) acts"
    and n: "n < m" "gt_next g \<le> m"
    and pc: "\<And>p. pc = Some p \<Longrightarrow> pc_ok X opts p"
      "\<And>r q i c. pc = Some (Gate_Initiating r q i c) \<Longrightarrow> occurs (answer_of n) (gt_log g) + length acts = 0"
    and g': "gt_log g' = gt_log g @ rs @ map (Did n) acts" "gt_tasks g' = set_task n pc (gt_tasks g)"
      "gt_next g' = m"
  shows "task_inv X opts g'"
proof -
  have zero [simp]: "occurs (answer_of j) rs = 0" for j
    using rs by (simp add: occurs_def filter_empty_conv)
  have "occurs (answer_of j) (gt_log g') \<le> 1" for j
    using inv acts(1) by (simp add: task_inv_def g')
  moreover have "occurs (answer_of j) (gt_log g') = 0 \<and> map_of (gt_tasks g') j = None" if "m \<le> j" for j
    using inv n that by (simp add: task_inv_def g' set_task_of)
  moreover have "pc_ok X opts p" if "map_of (gt_tasks g') j = Some p" for j p
    using inv pc(1) that unfolding task_inv_def by (auto simp: g' set_task_of split: if_splits)
  moreover have "occurs (answer_of j) (gt_log g') = 0"
    if "map_of (gt_tasks g') j = Some (Gate_Initiating r q i c)" for j r q i c
    using inv pc(2) that unfolding task_inv_def by (auto simp: g' set_task_of split: if_splits)
  moreover have "list_all (forward_ok X opts) (gt_log g')"
    using inv acts(2) rs by (auto simp: task_inv_def g' list_all_iff)
  ultimately show ?thesis unfolding task_inv_def g'(3) by blast
qed

lemma task_inv_same:
  assumes "task_inv X opts g" "gt_next g' = gt_next g"
    and "gt_tasks g' = gt_tasks g \<or> gt_tasks g' = AList.delete n (gt_tasks g)"
    and "gt_log g' = gt_log g @ rs" "\<forall>r \<in> set rs. (\<forall>m. \<not> answer_of m r) \<and> forward_ok X opts r"
  shows "task_inv X opts g'"
proof -
  have zero: "occurs (answer_of m) rs = 0" for m
    using assms(5) by (simp add: occurs_def filter_empty_conv)
  have "list_all (forward_ok X opts) rs" using assms(5) by (simp add: list_all_iff)
  then show ?thesis
    using assms(1,3) unfolding task_inv_def assms(2,4)
    by (auto simp: zero split: if_splits)
qed

lemma task_known: "task_inv X opts g \<Longrightarrow> map_of (gt_tasks g) n = Some pc \<Longrightarrow> n < gt_next g"
  unfolding task_inv_def by (metis linorder_not_le option.discI)

lemma gate_step_task_inv:
  assumes inv: "task_inv X opts g"
  shows "task_inv X opts (gate_step X L opts g e)"
proof (cases e)
  case (Delivered now message ctx)
  obtain s acts pc where enter: "gate_enter X L opts (gt_store g) now message ctx = (s, acts, pc)"
    by (metis prod_cases3)
  have none: "occurs (answer_of (gt_next g)) (gt_log g) = 0" using inv by (simp add: task_inv_def)
  have ok: "length acts \<le> 1" "list_all (\<lambda>a. forward_ok X opts (Did (gt_next g) a)) acts"
    "\<And>p. pc = Some p \<Longrightarrow> pc_ok X opts p"
    "\<And>r q i c. pc = Some (Gate_Initiating r q i c) \<Longrightarrow> acts = []"
    using gate_enter_acts [OF enter] by blast+
  show ?thesis
    by (rule task_inv_move [OF inv, of "[]" "gt_next g" acts "Suc (gt_next g)" pc])
      (use ok none in \<open>auto simp: Delivered enter Let_def\<close>)
next
  case (Initiated n now env)
  show ?thesis
  proof (cases "\<exists>request priced i ctx. map_of (gt_tasks g) n = Some (Gate_Initiating request priced i ctx)")
    case True
    then obtain request priced i ctx where
      task: "map_of (gt_tasks g) n = Some (Gate_Initiating request priced i ctx)" by blast
    obtain s acts pc where
      seg: "gate_initiated env L opts (gt_store g) now request priced i ctx = (s, acts, pc)"
      by (metis prod_cases3)
    have gi: "gate_identity X opts (Request request) ctx = Some (Ok i)"
      and none: "occurs (answer_of n) (gt_log g) = 0"
      using inv task unfolding task_inv_def by fastforce+
    have ok: "length acts \<le> 1" "list_all (\<lambda>a. forward_ok X opts (Did n a)) acts"
      "\<And>p. pc = Some p \<Longrightarrow> pc_ok X opts p"
      "\<And>r q i c. pc \<noteq> Some (Gate_Initiating r q i c)"
      using gate_initiated_acts [OF seg gi] by blast+
    show ?thesis
      by (rule task_inv_move [OF inv, of "[Priced n (price_answer env opts request priced
            (ic_request_event_id ctx) (ic_client_pubkey ctx))]" n acts "gt_next g" pc])
        (use ok none task_known [OF inv task] in \<open>auto simp: Initiated task seg\<close>)
  next
    case False
    then have "gate_step X L opts g e = g"
      by (auto simp: Initiated split: option.splits gate_pc.splits)
    with inv show ?thesis by simp
  qed
next
  case (Publish_Returned n ok)
  show ?thesis
    by (rule task_inv_same [OF inv, where n = n and rs = "drop (length (gt_log g)) (gt_log (gate_step X L opts g e))"])
      (auto simp: Publish_Returned gate_published_def split: option.splits gate_pc.splits prod.splits)
next
  case (Verify_Returned n now outcome)
  show ?thesis
    by (rule task_inv_same [OF inv, where n = n and rs = "drop (length (gt_log g)) (gt_log (gate_step X L opts g e))"])
      (auto simp: Verify_Returned split: option.splits)
qed

lemma gate_step_offer_inv:
  assumes "offer_inv g"
  shows "offer_inv (gate_step X L opts g e)"
proof (cases e)
  case (Delivered now message ctx)
  then show ?thesis using assms by (simp add: offer_inv_def Let_def split_beta)
next
  case (Initiated n now env)
  then show ?thesis
    using assms by (auto simp: offer_inv_def split_beta split: option.split gate_pc.split)
next
  case (Publish_Returned n ok)
  then show ?thesis
    using assms by (auto simp: offer_inv_def gate_published_def split: option.split gate_pc.split)
next
  case (Verify_Returned n now outcome)
  show ?thesis
  proof (cases "map_of (gt_verifying g) n")
    case None
    then show ?thesis using assms by (simp add: Verify_Returned)
  next
    case (Some offer)
    have "occurs (settled_of k) (gt_log (gate_step X L opts g e)) +
        occurs (\<lambda>(n, offer). auth_key (go_identity offer) = k) (gt_verifying (gate_step X L opts g e)) \<le>
        occurs (offered_of k) (gt_log (gate_step X L opts g e))" for k
    proof -
      let ?P = "\<lambda>(n :: nat, offer). auth_key (go_identity offer) = k"
      have "occurs (settled_of k) (gt_log g) + occurs ?P (gt_verifying g) \<le> occurs (offered_of k) (gt_log g)"
        using assms by (simp add: offer_inv_def)
      then show ?thesis
        using occurs_delete [OF Some, of ?P] by (auto simp: Verify_Returned Some)
    qed
    then show ?thesis by (simp add: offer_inv_def)
  qed
qed

context auth_lru
begin

lemma claim_or_set_pending_store:
  assumes "auth_valid valid s" "claim_or_set_pending L s now i ttl = (s', r)"
  shows "auth_valid valid s'"
    and "lru_peek L (as_authorizations s') = (lru_peek L (as_authorizations s))(auth_key i := None)"
    and "r = Claimed \<Longrightarrow> lru_peek L (as_authorizations s) (auth_key i) \<noteq> None"
  using assms
  by (auto simp: claim_or_set_pending_def auth_valid_def split_beta Let_def store_simps
      split: option.splits if_splits)

lemma other_store_ops:
  assumes "auth_valid valid s"
  shows "auth_valid valid (clear_pending_auth L s i)"
    "as_authorizations (clear_pending_auth L s i) = as_authorizations s"
    "auth_valid valid (update_pending_ttl L s now i ttl)"
    "as_authorizations (update_pending_ttl L s now i ttl) = as_authorizations s"
    "auth_valid valid (grant L s now i ttl)"
    "k \<noteq> auth_key i \<Longrightarrow> lru_peek L (as_authorizations s) k = None \<Longrightarrow>
       lru_peek L (as_authorizations (grant L s now i ttl)) k = None"
proof -
  show "k \<noteq> auth_key i \<Longrightarrow> lru_peek L (as_authorizations s) k = None \<Longrightarrow>
       lru_peek L (as_authorizations (grant L s now i ttl)) k = None"
    using put_peek_le [of "as_authorizations s" "auth_key i" "now + from_millis ttl"] assms
    by (force simp: grant_def auth_valid_def Let_def map_le_def dom_def)
qed (use assms in \<open>simp_all add: auth_op_defs auth_valid_def split_beta Let_def store_simps split: option.split\<close>)

lemma occurs_imp: "(\<And>x. P x \<Longrightarrow> Q x) \<Longrightarrow> occurs P xs \<le> occurs Q xs"
  by (induction xs) auto

lemma spends_later: "spends X opts (log @ rs) k r \<Longrightarrow> spends X opts log k r"
  by (cases "(X, opts, log, k, r)" rule: spends.cases) (auto simp: waived_def)

lemma spends_grow:
  "occurs (spends X opts (log @ rs) k) (log @ rs) \<le>
     occurs (spends X opts log k) log + occurs (spends X opts (log @ rs) k) rs"
  using occurs_imp [of "spends X opts (log @ rs) k" "spends X opts log k" log, OF spends_later] by simp

lemma spend_inv_same:
  assumes "spend_inv X opts L g" "as_authorizations (gt_store g') = as_authorizations (gt_store g)"
    and "gt_log g' = gt_log g @ rs" "\<forall>r \<in> set rs. \<forall>k. \<not> spends X opts (gt_log g') k r"
  shows "spend_inv X opts L g'"
  unfolding spend_inv_def
proof
  fix k
  have "occurs (spends X opts (gt_log g') k) rs = 0"
    using assms(4) by (simp add: occurs_def filter_empty_conv)
  then have "occurs (spends X opts (gt_log g') k) (gt_log g') \<le> occurs (spends X opts (gt_log g) k) (gt_log g)"
    using spends_grow [of X opts "gt_log g" rs k] by (simp add: assms(3))
  moreover have "occurs (settled_of k) (gt_log g) \<le> occurs (settled_of k) (gt_log g')"
    by (simp add: assms(3))
  moreover have "occurs (spends X opts (gt_log g) k) (gt_log g) +
      (if lru_peek L (as_authorizations (gt_store g)) k = None then 0 else 1) \<le> occurs (settled_of k) (gt_log g)"
    using assms(1) by (simp add: spend_inv_def)
  ultimately show "occurs (spends X opts (gt_log g') k) (gt_log g') +
      (if lru_peek L (as_authorizations (gt_store g')) k = None then 0 else 1) \<le> occurs (settled_of k) (gt_log g')"
    unfolding assms(2) by linarith
qed

lemma spend_inv_claim:
  assumes "auth_valid valid (gt_store g)" "spend_inv X opts L g"
    and "claim_or_set_pending L (gt_store g) now i ttl = (gt_store g', r)"
    and "gt_log g' = gt_log g @ map (Did n) acts"
    and "\<And>k. occurs (spends X opts (gt_log g') k) (map (Did n) acts) \<le>
      (if r = Claimed \<and> auth_key i = k then 1 else 0)"
  shows "spend_inv X opts L g'"
  unfolding spend_inv_def
proof
  fix k
  note st = claim_or_set_pending_store [OF assms(1,3)]
  have old: "occurs (spends X opts (gt_log g) k) (gt_log g) +
      (if lru_peek L (as_authorizations (gt_store g)) k = None then 0 else 1) \<le> occurs (settled_of k) (gt_log g)"
    using assms(2) by (simp add: spend_inv_def)
  have grow: "occurs (spends X opts (gt_log g') k) (gt_log g') \<le>
      occurs (spends X opts (gt_log g) k) (gt_log g) + (if r = Claimed \<and> auth_key i = k then 1 else 0)"
    using spends_grow [of X opts "gt_log g" "map (Did n) acts" k] assms(5) [of k]
    unfolding assms(4) by linarith
  have "occurs (settled_of k) (gt_log g') = occurs (settled_of k) (gt_log g)" by (simp add: assms(4))
  then show "occurs (spends X opts (gt_log g') k) (gt_log g') +
      (if lru_peek L (as_authorizations (gt_store g')) k = None then 0 else 1) \<le> occurs (settled_of k) (gt_log g')"
    using old st(3) grow unfolding st(2)
    by (cases "auth_key i = k"; cases "r = Claimed") (auto split: if_splits)
qed

lemma gate_step_spend_inv:
  assumes v: "auth_valid valid (gt_store g)" and inv: "spend_inv X opts L g"
  shows "auth_valid valid (gt_store (gate_step X L opts g e)) \<and> spend_inv X opts L (gate_step X L opts g e)"
proof (cases e)
  case (Delivered now message ctx)
  obtain s acts pc where enter: "gate_enter X L opts (gt_store g) now message ctx = (s, acts, pc)"
    by (metis prod_cases3)
  define g' where "g' = gate_step X L opts g e"
  have g': "gt_store g' = s" "gt_log g' = gt_log g @ map (Did (gt_next g)) acts"
    by (simp_all add: g'_def Delivered enter Let_def)
  from enter show ?thesis
  proof (cases rule: gate_enter_cases)
    case free
    then show ?thesis using v g' spend_inv_same [OF inv, of g'] by (simp add: g'_def)
  next
    case drop
    then show ?thesis using v g' spend_inv_same [OF inv, of g'] by (simp add: g'_def)
  next
    case (claim i)
    then show ?thesis
      using v g' spend_inv_claim [OF v inv, of now i "payment_ttl_ms opts" g' Claimed "gt_next g" acts]
        claim_or_set_pending_store(1) [OF v, of now i "payment_ttl_ms opts" s Claimed]
      by (simp add: g'_def)
  next
    case (wait i ms r)
    then show ?thesis
      using v g' spend_inv_claim [OF v inv, of now i "payment_ttl_ms opts" g' "Already_Pending ms" "gt_next g" acts]
        claim_or_set_pending_store(1) [OF v, of now i "payment_ttl_ms opts" s "Already_Pending ms"]
      by (simp add: g'_def publish_error_def)
  next
    case (start i request priced)
    then show ?thesis
      using v g' spend_inv_claim [OF v inv, of now i "payment_ttl_ms opts" g' Pending_Set "gt_next g" acts]
        claim_or_set_pending_store(1) [OF v, of now i "payment_ttl_ms opts" s Pending_Set]
      by (simp add: g'_def)
  qed
next
  case (Initiated n now env)
  show ?thesis
  proof (cases "\<exists>request priced i ctx. map_of (gt_tasks g) n = Some (Gate_Initiating request priced i ctx)")
    case True
    then obtain request priced i ctx where
      task: "map_of (gt_tasks g) n = Some (Gate_Initiating request priced i ctx)" by blast
    obtain s acts pc where
      seg: "gate_initiated env L opts (gt_store g) now request priced i ctx = (s, acts, pc)"
      by (metis prod_cases3)
    define g' where "g' = gate_step X L opts g e"
    let ?rs = "Priced n (price_answer env opts request priced (ic_request_event_id ctx)
        (ic_client_pubkey ctx)) # map (Did n) acts"
    have g': "gt_store g' = s" "gt_log g' = gt_log g @ ?rs"
      by (simp_all add: g'_def Initiated task seg)
    have "auth_valid valid s \<and> as_authorizations s = as_authorizations (gt_store g) \<and>
        (\<forall>r \<in> set ?rs. \<forall>k. \<not> spends X opts (gt_log g') k r)"
      using seg
    proof (cases rule: gate_initiated_cases)
      case waived
      then show ?thesis by (auto simp: g' v other_store_ops [OF v] waived_def)
    qed (simp_all add: v other_store_ops [OF v] publish_error_def)
    then show ?thesis using g' spend_inv_same [OF inv, of g' ?rs] by (simp add: g'_def)
  next
    case False
    then have "gate_step X L opts g e = g"
      by (auto simp: Initiated split: option.splits gate_pc.splits)
    with v inv show ?thesis by simp
  qed
next
  case (Publish_Returned n ok)
  have "spend_inv X opts L (gate_step X L opts g e)"
    by (rule spend_inv_same [OF inv, where rs = "drop (length (gt_log g)) (gt_log (gate_step X L opts g e))"])
      (auto simp: Publish_Returned gate_published_def other_store_ops [OF v]
        split: option.splits gate_pc.splits prod.splits)
  moreover have "auth_valid valid (gt_store (gate_step X L opts g e))"
    by (simp add: Publish_Returned gate_published_def v other_store_ops [OF v] split: option.split gate_pc.split)
  ultimately show ?thesis by blast
next
  case (Verify_Returned n now outcome)
  show ?thesis
  proof (cases "map_of (gt_verifying g) n")
    case None
    then show ?thesis using v inv by (simp add: Verify_Returned)
  next
    case (Some offer)
    define i where "i = go_identity offer"
    have "occurs (spends X opts (gt_log (gate_step X L opts g e)) k) (gt_log (gate_step X L opts g e)) +
        (if lru_peek L (as_authorizations (gt_store (gate_step X L opts g e))) k = None then 0 else 1) \<le>
        occurs (settled_of k) (gt_log (gate_step X L opts g e))" for k
    proof -
      have old: "occurs (spends X opts (gt_log g) k) (gt_log g) +
          (if lru_peek L (as_authorizations (gt_store g)) k = None then 0 else 1) \<le>
          occurs (settled_of k) (gt_log g)"
        using inv by (simp add: spend_inv_def)
      show ?thesis
      proof (cases outcome)
        case Verify_Ok
        then show ?thesis
          using old other_store_ops(6) [OF v, of k i now "go_grant_ttl_ms offer"]
            spends_grow [of X opts "gt_log g" "[Settled i]" k]
          by (cases "auth_key i = k") (auto simp: Verify_Returned Some verify_finished_def i_def
              split: if_splits)
      qed (use old in \<open>simp_all add: Verify_Returned Some verify_finished_def other_store_ops [OF v]\<close>)
    qed
    moreover have "auth_valid valid (gt_store (gate_step X L opts g e))"
      by (cases outcome) (simp_all add: Verify_Returned Some verify_finished_def other_store_ops [OF v])
    ultimately show ?thesis by (simp add: spend_inv_def)
  qed
qed

lemma gate_step_valid:
  "auth_valid valid (gt_store g) \<Longrightarrow> auth_valid valid (gt_store (gate_step X L opts g e))"
proof (cases e)
  case (Delivered now message ctx)
  show "auth_valid valid (gt_store (gate_step X L opts g e))" if v: "auth_valid valid (gt_store g)"
  proof -
    obtain s acts pc where enter: "gate_enter X L opts (gt_store g) now message ctx = (s, acts, pc)"
      by (metis prod_cases3)
    then have "auth_valid valid s"
      by (rule gate_enter_cases) (use v claim_or_set_pending_store(1) [OF v] in blast)+
    then show ?thesis by (simp add: Delivered enter Let_def)
  qed
qed (auto simp: gate_initiated_def gate_published_def verify_finished_def other_store_ops Let_def
    split: option.splits gate_pc.splits prod.splits call.splits sum.splits initiation_outcome.splits
      verify_end.splits if_splits)

lemma gate_run_inv: "gate_inv X L valid opts (gate_run X L opts n evs)"
proof -
  have "gate_inv X L valid opts g \<Longrightarrow> gate_inv X L valid opts (foldl (gate_step X L opts) g evs)" for g
  proof (induction evs arbitrary: g)
    case (Cons e evs)
    then have "gate_inv X L valid opts (gate_step X L opts g e)"
      using gate_step_spend_inv [of g X opts e] gate_step_offer_inv [of g X L opts e]
        gate_step_task_inv [of X opts g L e]
      by (simp add: gate_inv_def)
    with Cons.IH show ?case by simp
  qed simp
  moreover have "gate_inv X L valid opts (gating_new L n)"
    using with_max_entries_valid [of n]
    by (simp add: gate_inv_def gating_new_def spend_inv_def offer_inv_def task_inv_def
        with_max_entries_def new_peek)
  ultimately show ?thesis by (simp add: gate_run_def)
qed

end

section \<open>Properties\<close>

text \<open>
  C9. No priced invocation of an explicit-gating session runs unpaid. In every interleaving of
  deliveries, initiations, publishes and verifications, whatever the pricing callback, the processors,
  the network and the cache do: the gated messages forwarded under an identity for which the pricing
  callback did not answer with a waiver never outnumber the settled payments of that identity, and
  those never outnumber the offers published for it. A priced request whose identity cannot be
  computed is never forwarded.
\<close>
theorem gating_no_free_execution:
  assumes L: "auth_lru L valid"
  shows "list_all (forward_ok X opts) (gt_log (gate_run X L opts n evs)) \<and>
    occurs (spends X opts (gt_log (gate_run X L opts n evs)) k) (gt_log (gate_run X L opts n evs)) \<le>
      occurs (settled_of k) (gt_log (gate_run X L opts n evs)) \<and>
    occurs (settled_of k) (gt_log (gate_run X L opts n evs)) \<le>
      occurs (offered_of k) (gt_log (gate_run X L opts n evs))"
proof -
  define g where "g = gate_run X L opts n evs"
  have inv: "gate_inv X L valid opts g" unfolding g_def by (rule auth_lru.gate_run_inv [OF L])
  have "occurs (spends X opts (gt_log g) k) (gt_log g) \<le> occurs (settled_of k) (gt_log g)"
    using inv add_leD1 unfolding gate_inv_def spend_inv_def by blast
  moreover have "occurs (settled_of k) (gt_log g) \<le> occurs (offered_of k) (gt_log g)"
    using inv add_leD1 unfolding gate_inv_def offer_inv_def by blast
  moreover have "list_all (forward_ok X opts) (gt_log g)"
    using inv by (simp add: gate_inv_def task_inv_def)
  ultimately show ?thesis by (simp add: g_def)
qed

definition demo_request :: json_rpc_request where
  "demo_request = \<lparr>req_jsonrpc = ''2.0'', req_id = JNumber (PosInt 7), req_method = ''tools/call'',
     req_params = Some (JObject [(''name'', JString ''add'')])\<rparr>"

definition demo_context :: inbound_context where
  "demo_context = \<lparr>ic_client_pubkey = ''ab'', ic_request_event_id = ''e1'', ic_is_encrypted = True,
     ic_mirrored_wrap_kind = None, ic_client_pmis = Some [''ln''],
     ic_payment_interaction = Some Explicit_Gating\<rparr>"

definition demo_capability :: priced_capability where
  "demo_capability = \<lparr>pc_method = ''tools/call'', pc_name = Some ''add'', pc_amount = 5, pc_max_amount = None,
     pc_currency_unit = ''sats'', pc_description = None\<rparr>"

definition demo_options :: server_payments_options where
  "demo_options = server_payments_options_new demo_processors [demo_capability]"

definition demo_env :: payment_env where
  "demo_env = \<lparr>env_resolve_price = (\<lambda>p. Panicked), env_create = (\<lambda>p c. Returned (Ok demo_params))\<rparr>"

definition demo_history :: "gate_event list" where
  "demo_history =
     [Delivered 0 (Request demo_request) demo_context, Initiated 0 1 demo_env, Publish_Returned 0 True,
      Delivered 2 (Request demo_request) demo_context, Verify_Returned 0 3 Verify_Ok,
      Delivered 4 (Request demo_request) demo_context]"

definition demo_gated :: canonical_invocation_identity where
  "demo_gated = \<lparr>ci_client_pubkey = ''ab'', ci_invocation_hash = ''methodparams''\<rparr>"

lemma demo_gate_identity:
  "gate_identity canon_ext demo_options (Request demo_request) demo_context = Some (Ok demo_gated)"
  by (simp add: gate_identity_def demo_options_def demo_request_def demo_context_def demo_gated_def
      demo_capability_def server_payments_options_new_def match_priced_capability_def
      capability_name_for_pricing_def compute_canonical_invocation_identity_def
      compute_canonical_invocation_hash_def canonical_payload_string_def canonical_payload_def
      canon_ext_def plain_ext_def contains_key_def)

theorem gating_no_free_execution_witness:
  "auth_lru list_lru list_lru_valid \<and>
   occurs (spends canon_ext demo_options (gt_log (gate_run canon_ext list_lru demo_options 8 demo_history))
       (auth_key demo_gated)) (gt_log (gate_run canon_ext list_lru demo_options 8 demo_history)) \<le>
     occurs (settled_of (auth_key demo_gated)) (gt_log (gate_run canon_ext list_lru demo_options 8 demo_history))"
  using gating_no_free_execution [OF auth_list.auth_lru_axioms] auth_list.auth_lru_axioms by blast

text \<open>
  C28. Every delivery has at most one outcome: it is forwarded once, or answered with one error, or
  dropped. In particular the request that was answered with an offer is never forwarded itself.
\<close>
theorem gating_one_outcome:
  assumes L: "auth_lru L valid"
  shows "occurs (answer_of d) (gt_log (gate_run X L opts n evs)) \<le> 1"
  using auth_lru.gate_run_inv [OF L, of X opts n evs] by (simp add: gate_inv_def task_inv_def)

theorem gating_one_outcome_witness:
  "auth_lru list_lru list_lru_valid \<and>
   occurs (answer_of 0) (gt_log (gate_run canon_ext list_lru demo_options 8 demo_history)) \<le> 1"
  using gating_one_outcome [OF auth_list.auth_lru_axioms] auth_list.auth_lru_axioms by blast

lemma gate_enter_claimed:
  "gate_identity X opts message ctx = Some (Ok i) \<Longrightarrow>
   claim_or_set_pending L s now i (payment_ttl_ms opts) = (s', Claimed) \<Longrightarrow>
   gate_enter X L opts s now message ctx = (s', [Gate_Forward message ctx], None)"
  by (auto simp: gate_identity_def gate_enter_def split: json_rpc_message.splits if_splits option.splits)

lemma gate_enter_already:
  "gate_identity X opts (Request request) ctx = Some (Ok i) \<Longrightarrow>
   claim_or_set_pending L s now i (payment_ttl_ms opts) = (s', Already_Pending ms) \<Longrightarrow>
   gate_enter X L opts s now (Request request) ctx =
     (s', [publish_error ctx (build_payment_pending_error (req_id request) ms)], Some Gate_Answering)"
  by (auto simp: gate_identity_def gate_enter_def split: if_splits option.splits)

text \<open>
  What can take a grant away: a delivery of its own invocation claims it, another settlement of the
  same invocation renews it, and the settlement of an invocation that is not in a full cache may
  evict it.
\<close>

definition grant_of :: "'c auth_lru \<Rightarrow> 'c gating \<Rightarrow> string \<Rightarrow> instant option" where
  "grant_of L g k = lru_peek L (as_authorizations (gt_store g)) k"

fun disturbs ::
  "ext \<Rightarrow> 'c auth_lru \<Rightarrow> server_payments_options \<Rightarrow> string \<Rightarrow> 'c gating \<Rightarrow> gate_event \<Rightarrow> bool" where
  "disturbs X L opts k g (Delivered now message ctx) \<longleftrightarrow>
     (case gate_identity X opts message ctx of Some (Ok i) \<Rightarrow> auth_key i = k | _ \<Rightarrow> False)"
| "disturbs X L opts k g (Verify_Returned v now outcome) \<longleftrightarrow>
     outcome = Verify_Ok \<and>
     (case map_of (gt_verifying g) v of
        None \<Rightarrow> False
      | Some offer \<Rightarrow>
          auth_key (go_identity offer) = k \<or>
          grant_of L g (auth_key (go_identity offer)) = None \<and>
            lru_cap L (as_authorizations (gt_store g)) \<le> lru_len L (as_authorizations (gt_store g)))"
| "disturbs X L opts k g _ \<longleftrightarrow> False"

fun undisturbed ::
  "ext \<Rightarrow> 'c auth_lru \<Rightarrow> server_payments_options \<Rightarrow> string \<Rightarrow> 'c gating \<Rightarrow> gate_event list \<Rightarrow> bool" where
  "undisturbed X L opts k g [] \<longleftrightarrow> True"
| "undisturbed X L opts k g (e # es) \<longleftrightarrow>
     \<not> disturbs X L opts k g e \<and> undisturbed X L opts k (gate_step X L opts g e) es"

context auth_lru
begin

lemma grant_after_settlement:
  assumes "auth_valid valid (gt_store g)" "map_of (gt_verifying g) v = Some offer"
  shows "grant_of L (gate_step X L opts g (Verify_Returned v paid Verify_Ok)) (auth_key (go_identity offer)) =
    Some (paid + from_millis (go_grant_ttl_ms offer))"
  using assms put_peek_key
  by (simp add: grant_of_def verify_finished_def grant_def Let_def auth_valid_def)

lemma grant_kept:
  assumes v: "auth_valid valid (gt_store g)" and calm: "\<not> disturbs X L opts k g e"
    and held: "grant_of L g k = Some t"
  shows "grant_of L (gate_step X L opts g e) k = Some t"
proof (cases e)
  case (Delivered now message ctx)
  obtain s acts pc where enter: "gate_enter X L opts (gt_store g) now message ctx = (s, acts, pc)"
    by (metis prod_cases3)
  have other: "k \<noteq> auth_key i" if "gate_identity X opts message ctx = Some (Ok i)" for i
    using calm that by (auto simp: Delivered)
  have "lru_peek L (as_authorizations s) k = Some t"
    using enter
  proof (cases rule: gate_enter_cases)
    case (claim i)
    then show ?thesis
      using claim_or_set_pending_store(2) [OF v claim(4)] other held by (simp add: grant_of_def)
  next
    case (wait i ms r)
    then show ?thesis
      using claim_or_set_pending_store(2) [OF v wait(4)] other held by (simp add: grant_of_def)
  next
    case (start i request priced)
    then show ?thesis
      using claim_or_set_pending_store(2) [OF v start(5)] other held by (simp add: grant_of_def)
  qed (use held in \<open>simp_all add: grant_of_def\<close>)
  then show ?thesis by (simp add: Delivered enter Let_def grant_of_def)
next
  case (Initiated n now env)
  have "as_authorizations s = as_authorizations (gt_store g)"
    if "gate_initiated env L opts (gt_store g) now request priced i ctx = (s, acts, pc)" for s acts pc request priced i ctx
    using that by (rule gate_initiated_cases) (simp_all add: other_store_ops [OF v])
  then show ?thesis
    using held by (auto simp: Initiated grant_of_def split: option.split gate_pc.split prod.split)
next
  case (Publish_Returned n ok)
  then show ?thesis
    using held by (auto simp: grant_of_def gate_published_def other_store_ops [OF v]
        split: option.split gate_pc.split prod.split)
next
  case (Verify_Returned n now outcome)
  have "lru_peek L (as_authorizations (grant L (gt_store g) now (go_identity offer) ttl)) k = Some t"
    if "outcome = Verify_Ok" "map_of (gt_verifying g) n = Some offer" for offer ttl
    using calm that held v put_peek_room [of "as_authorizations (gt_store g)" "auth_key (go_identity offer)"]
    by (auto simp: Verify_Returned grant_of_def grant_def Let_def auth_valid_def not_le)
  then show ?thesis
    using held by (cases outcome)
      (auto simp: Verify_Returned grant_of_def verify_finished_def other_store_ops [OF v] split: option.split)
qed

lemma grant_kept_run:
  "auth_valid valid (gt_store g) \<Longrightarrow> undisturbed X L opts k g es \<Longrightarrow> grant_of L g k = Some t \<Longrightarrow>
   auth_valid valid (gt_store (foldl (gate_step X L opts) g es)) \<and>
   grant_of L (foldl (gate_step X L opts) g es) k = Some t"
proof (induction es arbitrary: g)
  case (Cons e es)
  then show ?case
    using grant_kept [of g X opts k e t] gate_step_valid [of g X opts e] by simp
qed simp

lemma held_grant_forwards:
  assumes v: "auth_valid valid (gt_store g)" and held: "grant_of L g (auth_key i) = Some t" "now \<le> t"
    and gated: "gate_identity X opts message ctx = Some (Ok i)"
  shows "gt_log (gate_step X L opts g (Delivered now message ctx)) =
      gt_log g @ [Did (gt_next g) (Gate_Forward message ctx)] \<and>
    grant_of L (gate_step X L opts g (Delivered now message ctx)) (auth_key i) = None"
proof -
  obtain s' where claim: "claim_or_set_pending L (gt_store g) now i (payment_ttl_ms opts) = (s', Claimed)"
    using v held pop_peek(2)
    by (simp add: claim_or_set_pending_def auth_valid_def split_beta Let_def grant_of_def)
  then show ?thesis
    using gate_enter_claimed [OF gated claim] claim_or_set_pending_store(2) [OF v claim]
    by (simp add: grant_of_def Let_def)
qed

end

text \<open>
  C29. What was paid for is delivered. Whenever a verification succeeds, and whatever other tasks do
  between that moment and the retry - other clients' deliveries, offers and settlements included - the
  next delivery of the same invocation before the grant expires is forwarded, with its message
  unchanged and nothing else, and the grant is used up; unless in between the same invocation was
  settled again, or a settlement met a full store, which may evict the grant.
\<close>
theorem gating_paid_retry_forwards:
  assumes L: "auth_lru L valid"
    and g: "g = gate_run X L opts n evs" and verifying: "map_of (gt_verifying g) v = Some offer"
    and settled: "g1 = gate_step X L opts g (Verify_Returned v paid Verify_Ok)"
    and between: "undisturbed X L opts (auth_key (go_identity offer)) g1 es"
      "g2 = foldl (gate_step X L opts) g1 es"
    and gated: "gate_identity X opts message ctx = Some (Ok (go_identity offer))"
    and time: "now \<le> paid + from_millis (go_grant_ttl_ms offer)"
  shows "gt_log (gate_step X L opts g2 (Delivered now message ctx)) =
      gt_log g2 @ [Did (gt_next g2) (Gate_Forward message ctx)] \<and>
    grant_of L (gate_step X L opts g2 (Delivered now message ctx)) (auth_key (go_identity offer)) = None"
proof -
  have v: "auth_valid valid (gt_store g)"
    using auth_lru.gate_run_inv [OF L, of X opts n evs] by (simp add: g gate_inv_def)
  have v1: "auth_valid valid (gt_store g1)"
    unfolding settled by (rule auth_lru.gate_step_valid [OF L v])
  have "grant_of L g1 (auth_key (go_identity offer)) = Some (paid + from_millis (go_grant_ttl_ms offer))"
    unfolding settled by (rule auth_lru.grant_after_settlement [OF L v verifying])
  from auth_lru.grant_kept_run [OF L v1 between(1) this]
  show ?thesis
    using auth_lru.held_grant_forwards [OF L _ _ time gated] unfolding between(2) by blast
qed

definition demo_offer :: gate_offer where
  "demo_offer = \<lparr>go_identity = demo_gated, go_processor = \<lparr>pp_pmi = ''ln'', pp_id = 0\<rparr>,
     go_payment_required = demo_params, go_grant_ttl_ms = 60000, 
     go_polling_timeout = min (verification_timeout (prq_ttl demo_params)) (spo_payment_ttl demo_options)\<rparr>"

lemma demo_match: "match_priced_capability demo_request (spo_priced_capabilities demo_options) = Some demo_capability"
  by (simp add: demo_options_def demo_request_def demo_capability_def
      server_payments_options_new_def match_priced_capability_def capability_name_for_pricing_def)

lemma demo_identity:
  "compute_canonical_invocation_identity canon_ext (ic_client_pubkey demo_context)
     (req_method demo_request) (req_params demo_request) = Ok demo_gated"
  using demo_gate_identity by (simp add: gate_identity_def split: if_splits)

lemma demo_offered:
  "gate_initiated demo_env list_lru demo_options s 1 demo_request demo_capability demo_gated demo_context =
     (update_pending_ttl list_lru s 1 demo_gated 60000,
      snd (gate_initiated demo_env list_lru demo_options s 1 demo_request demo_capability demo_gated demo_context))"
  "snd (snd (gate_initiated demo_env list_lru demo_options s 1 demo_request demo_capability demo_gated demo_context)) =
     Some (Gate_Offering demo_offer)"
  by (simp_all add: gate_initiated_def resolve_and_initiate_payment_def resolve_payment_processor_def build_processors_by_pmi_def
        demo_options_def server_payments_options_new_def demo_processors_def demo_capability_def
        demo_context_def demo_env_def Let_def demo_params_def demo_offer_def saturating_mul_u64_def)


definition demo_before :: "gate_event list" where
  "demo_before =
     [Delivered 0 (Request demo_request) demo_context, Initiated 0 1 demo_env, Publish_Returned 0 True]"

definition demo_between :: "gate_event list" where
  "demo_between =
     [Delivered 4 (Request (demo_request\<lparr>req_method := ''ping''\<rparr>)) demo_context, Publish_Returned 1 False]"

lemma demo_entered:
  "\<exists>s. gate_enter canon_ext list_lru demo_options (with_max_entries list_lru 8) 0
      (Request demo_request) demo_context =
      (s, [], Some (Gate_Initiating demo_request demo_capability demo_gated demo_context))"
  by (simp add: gate_enter_def demo_match demo_identity demo_context_def [THEN arg_cong [of _ _ ic_payment_interaction]]
        claim_or_set_pending_def with_max_entries_def list_lru_def lru_get_def lru_peek_def)

lemma demo_verifying:
  "map_of (gt_verifying (gate_run canon_ext list_lru demo_options 8 demo_before)) 0 = Some demo_offer"
proof -
  obtain s where "gate_enter canon_ext list_lru demo_options (with_max_entries list_lru 8) 0
      (Request demo_request) demo_context =
      (s, [], Some (Gate_Initiating demo_request demo_capability demo_gated demo_context))"
    using demo_entered by blast
  then show ?thesis
    using demo_offered [of s]
    by (simp add: gate_run_def gating_new_def demo_before_def Let_def split_beta set_task_def gate_published_def)
qed

lemma demo_undisturbed: "undisturbed canon_ext list_lru demo_options (auth_key demo_gated) g demo_between"
  by (simp add: demo_between_def gate_identity_def demo_options_def demo_request_def demo_capability_def
      server_payments_options_new_def match_priced_capability_def)

theorem gating_paid_retry_forwards_witness:
  "let g = gate_run canon_ext list_lru demo_options 8 demo_before;
       g2 = foldl (gate_step canon_ext list_lru demo_options)
         (gate_step canon_ext list_lru demo_options g (Verify_Returned 0 3 Verify_Ok)) demo_between in
   gt_log (gate_step canon_ext list_lru demo_options g2 (Delivered 5 (Request demo_request) demo_context)) =
     gt_log g2 @ [Did (gt_next g2) (Gate_Forward (Request demo_request) demo_context)]"
proof -
  have i: "go_identity demo_offer = demo_gated" by (simp add: demo_offer_def)
  have "5 \<le> 3 + from_millis (go_grant_ttl_ms demo_offer)"
    by (simp add: demo_offer_def from_millis_def)
  from gating_paid_retry_forwards [OF auth_list.auth_lru_axioms refl demo_verifying refl
      demo_undisturbed [folded i] refl demo_gate_identity [folded i] this]
  show ?thesis by (simp add: Let_def)
qed

text \<open>
  C34. A pricing callback or processor that panics while a payment is initiated leaves the pending
  entry behind: although no offer was published, the same invocation is answered with
  \<open>Payment Pending\<close> until the entry's time is over.
\<close>
theorem initiation_panic_blocks_retry:
  assumes L: "auth_lru L valid" and v: "auth_valid valid s"
    and first: "gate_enter X L opts s t0 message ctx = (s1, [], Some (Gate_Initiating request priced i ctx))"
    and panic: "resolve_and_initiate_payment env request priced (ic_request_event_id ctx)
      (ic_client_pubkey ctx) (ic_client_pmis ctx) opts (build_processors_by_pmi (spo_processors opts)) = Panicked"
    and time: "t1 \<le> t0 + from_millis (payment_ttl_ms opts)"
  shows "gate_initiated env L opts s1 t0 request priced i ctx = (s1, [], None) \<and>
    (\<exists>s2 ms. gate_enter X L opts s1 t1 message ctx =
      (s2, [publish_error ctx (build_payment_pending_error (req_id request) ms)], Some Gate_Answering))"
proof -
  note lru = auth_lru.axioms [OF L]
  have msg: "message = Request request" and gi: "gate_identity X opts message ctx = Some (Ok i)"
    and claim: "claim_or_set_pending L s t0 i (payment_ttl_ms opts) = (s1, Pending_Set)"
    using first by (auto simp: gate_enter_def gate_identity_def split: json_rpc_message.splits if_splits
        option.splits sum.splits prod.splits claim_or_pending.splits)
  have v1: "auth_valid valid s1"
    and none: "lru_peek L (as_authorizations s1) (auth_key i) = None"
    using auth_lru.claim_or_set_pending_store(1,2) [OF L v claim] by simp_all
  have pend: "lru_peek L (as_pending s1) (auth_key i) = Some (t0 + from_millis (payment_ttl_ms opts))"
    using claim v lru.put_peek_key [OF lru] lru.get_simps(2) [OF lru]
    by (auto simp: claim_or_set_pending_def auth_valid_def split_beta Let_def
        split: option.splits if_splits)
  have "\<exists>s2 ms. claim_or_set_pending L s1 t1 i (payment_ttl_ms opts) = (s2, Already_Pending ms)"
    using v1 none pend time lru.pop_peek(2) [OF lru] lru.get_simps(1) [OF lru]
    by (simp add: claim_or_set_pending_def auth_valid_def split_beta Let_def)
  then obtain s2 ms where again: "claim_or_set_pending L s1 t1 i (payment_ttl_ms opts) = (s2, Already_Pending ms)"
    by blast
  have "gate_initiated env L opts s1 t0 request priced i ctx = (s1, [], None)"
    by (simp add: gate_initiated_def panic)
  moreover have "gate_enter X L opts s1 t1 message ctx =
      (s2, [publish_error ctx (build_payment_pending_error (req_id request) ms)], Some Gate_Answering)"
    using gi again unfolding msg by (rule gate_enter_already)
  ultimately show ?thesis by blast
qed

definition panic_options :: server_payments_options where
  "panic_options = demo_options\<lparr>spo_resolve_price := Some 0\<rparr>"

theorem initiation_panic_blocks_retry_witness:
  "\<exists>s1. gate_initiated demo_env list_lru panic_options s1 0 demo_request demo_capability demo_gated
       demo_context = (s1, [], None) \<and>
     (\<exists>s2 ms. gate_enter canon_ext list_lru panic_options s1 1 (Request demo_request) demo_context =
       (s2, [publish_error demo_context (build_payment_pending_error (req_id demo_request) ms)],
        Some Gate_Answering))"
proof -
  have match: "match_priced_capability demo_request (spo_priced_capabilities panic_options) = Some demo_capability"
    by (simp add: panic_options_def demo_options_def demo_request_def demo_capability_def
        server_payments_options_new_def match_priced_capability_def capability_name_for_pricing_def)
  have ident: "compute_canonical_invocation_identity canon_ext (ic_client_pubkey demo_context)
      (req_method demo_request) (req_params demo_request) = Ok demo_gated"
    using demo_gate_identity by (simp add: gate_identity_def split: if_splits)
  have "\<exists>s1. gate_enter canon_ext list_lru panic_options (with_max_entries list_lru 8) 0
      (Request demo_request) demo_context =
      (s1, [], Some (Gate_Initiating demo_request demo_capability demo_gated demo_context))"
    by (simp add: gate_enter_def match ident demo_context_def [THEN arg_cong [of _ _ ic_payment_interaction]]
        claim_or_set_pending_def with_max_entries_def list_lru_def lru_get_def lru_peek_def)
  then obtain s1 where first: "gate_enter canon_ext list_lru panic_options (with_max_entries list_lru 8) 0
      (Request demo_request) demo_context =
      (s1, [], Some (Gate_Initiating demo_request demo_capability demo_gated demo_context))" by blast
  have panic: "resolve_and_initiate_payment demo_env demo_request demo_capability
      (ic_request_event_id demo_context) (ic_client_pubkey demo_context) (ic_client_pmis demo_context)
      panic_options (build_processors_by_pmi (spo_processors panic_options)) = Panicked"
    by (simp add: resolve_and_initiate_payment_def resolve_payment_processor_def build_processors_by_pmi_def
        panic_options_def demo_options_def server_payments_options_new_def demo_processors_def
        demo_context_def demo_env_def)
  have "1 \<le> 0 + from_millis (payment_ttl_ms panic_options)"
    by (simp add: payment_ttl_ms_def panic_options_def demo_options_def server_payments_options_new_def
        from_millis_def as_millis_def DEFAULT_PAYMENT_TTL_MS_def)
  from initiation_panic_blocks_retry [OF auth_list.auth_lru_axioms auth_list.with_max_entries_valid first panic this]
  show ?thesis by blast
qed

end
