(* ===== verification/Transparent_Payments.thy ===== *)
theory Transparent_Payments
  imports Explicit_Gating
begin

text \<open>
  The transparent lifecycle of the server (\<open>src/payments/server_payments.rs\<close>). A delivery of a priced
  request looks its event id up in the pending cache: a live entry means that another delivery of the
  same event is being paid for, and this one only waits; otherwise it starts the lifecycle, which
  asks for the payment, verifies it, announces it and forwards the request.

  A delivery reads the clock (\<open>deliver\<close>), takes the lock (\<open>pending_lock\<close>, one critical section)
  and runs the lifecycle, which is cut at its awaits into the segments \<open>lc_initiated\<close> to
  \<open>lc_forwarded\<close>; when the lifecycle is over it may remove its entry (\<open>pending_cleanup\<close>). The tasks
  interleave at these points. Time passes between any two of them; a delivery decides with the
  instant it read, which may be older than the lock.
\<close>

section \<open>Lifecycle results\<close>

datatype lifecycle_failure =
    Initiate_Failure payment_error
  | Publish_Required_Failure
  | Publish_Rejected_Failure
  | Verify_Failure payment_error
  | Verify_Timeout_Failure

fun is_pre_invoice :: "lifecycle_failure \<Rightarrow> bool" where
  "is_pre_invoice (Initiate_Failure e) = True"
| "is_pre_invoice Publish_Required_Failure = True"
| "is_pre_invoice Publish_Rejected_Failure = True"
| "is_pre_invoice (Verify_Failure e) = False"
| "is_pre_invoice Verify_Timeout_Failure = False"

section \<open>The pending cache\<close>

definition PENDING_PURGE_SCAN_LIMIT :: nat where "PENDING_PURGE_SCAN_LIMIT = 25"

record pending_entry =
  pe_expires_at :: instant
  pe_in_flight :: nat

type_synonym 'c pend_lru = "('c, pending_entry) lru_ops"

definition purge_expired_pending :: "'c pend_lru \<Rightarrow> 'c \<Rightarrow> instant \<Rightarrow> 'c" where
  "purge_expired_pending L c now =
     pop_all L (map fst (filter (\<lambda>(key, entry). pe_expires_at entry \<le> now)
       (take PENDING_PURGE_SCAN_LIMIT (rev (lru_iter L c))))) c"

datatype lock_outcome = Joined nat | Refused | Fresh

definition pending_lock ::
  "'c pend_lru \<Rightarrow> server_payments_options \<Rightarrow> 'c \<Rightarrow> instant \<Rightarrow> string \<Rightarrow> nat \<Rightarrow> 'c \<times> lock_outcome" where
  "pending_lock L opts cache now event_id fresh =
     (let c = purge_expired_pending L cache now;
          put = (\<lambda>c. lru_put L c event_id
            \<lparr>pe_expires_at = now + spo_payment_ttl opts, pe_in_flight = fresh\<rparr>) in
      case (case lru_peek L c event_id of
              Some entry \<Rightarrow> if now < pe_expires_at entry then Some (pe_in_flight entry) else None
            | None \<Rightarrow> None) of
        Some in_flight \<Rightarrow> (c, Joined in_flight)
      | None \<Rightarrow>
          if lru_len L c = lru_cap L c
          then (case find (\<lambda>(key, e). pe_expires_at e \<le> now) (lru_iter L c) of
                  Some (key, e) \<Rightarrow> (put (fst (lru_pop L c key)), Fresh)
                | None \<Rightarrow> (c, Refused))
          else (put c, Fresh))"

definition pending_cleanup ::
  "'c pend_lru \<Rightarrow> 'c \<Rightarrow> string \<Rightarrow> nat \<Rightarrow> (lifecycle_failure, unit) result \<Rightarrow> 'c" where
  "pending_cleanup L c event_id fresh res =
     (case res of
        Err e \<Rightarrow>
          if is_pre_invoice e then
            (case lru_peek L c event_id of
               Some entry \<Rightarrow> if pe_in_flight entry = fresh then fst (lru_pop L c event_id) else c
             | None \<Rightarrow> c)
          else c
      | Ok _ \<Rightarrow> c)"

section \<open>The lifecycle\<close>

datatype lifecycle_pc =
    Lc_Initiating
  | Lc_Publishing_Rejected
  | Lc_Publishing_Required payment_required_params duration
  | Lc_Verifying payment_required_params duration
  | Lc_Publishing_Accepted
  | Lc_Forwarding
  | Lc_Done "(lifecycle_failure, unit) result"

record lifecycle =
  lc_request :: json_rpc_request
  lc_priced :: priced_capability
  lc_ctx :: inbound_context
  lc_pc :: lifecycle_pc
  lc_invoice_issued :: bool
  lc_now :: instant
  lc_locked :: instant

datatype lifecycle_action =
    Lc_Notify string string "u16 option" json_rpc_message
  | Lc_Forward json_rpc_message inbound_context

definition payment_notification :: "string \<Rightarrow> json \<Rightarrow> json_rpc_message" where
  "payment_notification method params =
     Notification \<lparr>ntf_jsonrpc = ''2.0'', ntf_method = method, ntf_params = Some params\<rparr>"

definition lc_notify :: "inbound_context \<Rightarrow> json_rpc_message \<Rightarrow> lifecycle_action" where
  "lc_notify ctx message =
     Lc_Notify (ic_client_pubkey ctx) (ic_request_event_id ctx) (ic_mirrored_wrap_kind ctx) message"

text \<open>A panic is turned into a failure by whether the invoice was issued.\<close>

definition lifecycle_panic :: "bool \<Rightarrow> lifecycle_failure" where
  "lifecycle_panic invoice_issued =
     (if invoice_issued
      then Verify_Failure (Processor_Error ''payment lifecycle panicked after the invoice was issued'')
      else Initiate_Failure (Processor_Error ''payment lifecycle panicked before any invoice was issued''))"

definition lc_initiated ::
  "payment_env \<Rightarrow> server_payments_options \<Rightarrow> lifecycle \<Rightarrow> lifecycle \<times> lifecycle_action list" where
  "lc_initiated env opts lc =
     (case resolve_and_initiate_payment env (lc_request lc) (lc_priced lc)
             (ic_request_event_id (lc_ctx lc)) (ic_client_pubkey (lc_ctx lc)) (ic_client_pmis (lc_ctx lc))
             opts (build_processors_by_pmi (spo_processors opts)) of
        Panicked \<Rightarrow> (lc\<lparr>lc_pc := Lc_Done (Err (lifecycle_panic (lc_invoice_issued lc)))\<rparr>, [])
      | Returned (Err e) \<Rightarrow> (lc\<lparr>lc_pc := Lc_Done (Err (Initiate_Failure e))\<rparr>, [])
      | Returned (Ok (Rejected pmi amount reason)) \<Rightarrow>
          (lc\<lparr>lc_pc := Lc_Publishing_Rejected\<rparr>,
           [lc_notify (lc_ctx lc) (payment_notification PAYMENT_REJECTED_METHOD
              (payment_rejected_params_to_value
                \<lparr>prj_pmi = pmi, prj_amount = Some amount, prj_message = reason\<rparr>))])
      | Returned (Ok Waived) \<Rightarrow>
          (lc\<lparr>lc_pc := Lc_Forwarding\<rparr>, [Lc_Forward (Request (lc_request lc)) (lc_ctx lc)])
      | Returned (Ok (Payment_Required processor payment_required merged_meta verify_timeout)) \<Rightarrow>
          (lc\<lparr>lc_pc := Lc_Publishing_Required payment_required verify_timeout\<rparr>,
           [lc_notify (lc_ctx lc) (payment_notification PAYMENT_REQUIRED_METHOD
              (payment_required_params_to_value
                \<lparr>prq_amount = prq_amount payment_required, prq_pay_req = prq_pay_req payment_required,
                 prq_pmi = prq_pmi payment_required, prq_description = prq_description payment_required,
                 prq_ttl = prq_ttl payment_required, prq_meta = merged_meta\<rparr>))]))"

definition lc_rejected_published :: "bool \<Rightarrow> lifecycle \<Rightarrow> lifecycle" where
  "lc_rejected_published ok lc =
     lc\<lparr>lc_pc := Lc_Done (if ok then Ok () else Err Publish_Rejected_Failure)\<rparr>"

definition lc_required_published ::
  "server_payments_options \<Rightarrow> bool \<Rightarrow> payment_required_params \<Rightarrow> duration \<Rightarrow> lifecycle \<Rightarrow> lifecycle" where
  "lc_required_published opts ok payment_required verify_timeout lc =
     (if ok
      then lc\<lparr>lc_invoice_issued := True,
              lc_pc := Lc_Verifying payment_required (min verify_timeout (spo_payment_ttl opts))\<rparr>
      else lc\<lparr>lc_pc := Lc_Done (Err Publish_Required_Failure)\<rparr>)"

datatype verify_result =
    Verified "meta option"
  | Verify_Error payment_error
  | Verify_Timed_Out
  | Verify_Panic

definition lc_verified ::
  "verify_result \<Rightarrow> payment_required_params \<Rightarrow> lifecycle \<Rightarrow> lifecycle \<times> lifecycle_action list" where
  "lc_verified outcome payment_required lc =
     (case outcome of
        Verify_Timed_Out \<Rightarrow> (lc\<lparr>lc_pc := Lc_Done (Err Verify_Timeout_Failure)\<rparr>, [])
      | Verify_Error e \<Rightarrow> (lc\<lparr>lc_pc := Lc_Done (Err (Verify_Failure e))\<rparr>, [])
      | Verify_Panic \<Rightarrow> (lc\<lparr>lc_pc := Lc_Done (Err (lifecycle_panic (lc_invoice_issued lc)))\<rparr>, [])
      | Verified m \<Rightarrow>
          (lc\<lparr>lc_pc := Lc_Publishing_Accepted\<rparr>,
           [lc_notify (lc_ctx lc) (payment_notification PAYMENT_ACCEPTED_METHOD
              (payment_accepted_params_to_value
                \<lparr>pac_amount = prq_amount payment_required, pac_pmi = prq_pmi payment_required,
                 pac_meta = m\<rparr>))]))"

definition lc_accepted_published :: "bool \<Rightarrow> lifecycle \<Rightarrow> lifecycle \<times> lifecycle_action list" where
  "lc_accepted_published ok lc =
     (lc\<lparr>lc_pc := Lc_Forwarding\<rparr>, [Lc_Forward (Request (lc_request lc)) (lc_ctx lc)])"

definition lc_forwarded :: "bool \<Rightarrow> lifecycle \<Rightarrow> lifecycle" where
  "lc_forwarded panicked lc =
     lc\<lparr>lc_pc := Lc_Done (if panicked then Err (lifecycle_panic (lc_invoice_issued lc)) else Ok ())\<rparr>"

section \<open>The tasks together\<close>

text \<open>
  The log holds what the lifecycles did and, beside it, what the outside answered: the pricing's
  answer for the request of a lifecycle, a published invoice, a verified payment.
\<close>

datatype tp_record =
    Tp_Free json_rpc_message inbound_context
  | Tp_Did nat lifecycle_action
  | Tp_Invoiced nat
  | Tp_Settled nat
  | Tp_Priced nat "(payment_error, resolve_price_result) result call"

record 'c transparent =
  tp_clock :: instant
  tp_cache :: 'c
  tp_next :: nat
  tp_waiting :: "(nat \<times> (json_rpc_request \<times> priced_capability \<times> inbound_context \<times> instant)) list"
  tp_lifecycles :: "(nat \<times> lifecycle) list"
  tp_log :: "tp_record list"

definition transparent_new :: "'c pend_lru \<Rightarrow> server_payments_options \<Rightarrow> 'c transparent" where
  "transparent_new L opts =
     \<lparr>tp_clock = 0, tp_cache = lru_new L (non_zero (spo_max_pending_payments opts)), tp_next = 0,
      tp_waiting = [], tp_lifecycles = [], tp_log = []\<rparr>"

definition refuse_priced_requests :: "server_payments_options \<Rightarrow> bool" where
  "refuse_priced_requests opts \<longleftrightarrow> spo_max_pending_payments opts = 0"

text \<open>The self-gates: what \<open>handle\<close> does before it takes the lock.\<close>

datatype delivery = Pass | Drop | Gate json_rpc_request priced_capability

definition deliver :: "server_payments_options \<Rightarrow> json_rpc_message \<Rightarrow> inbound_context \<Rightarrow> delivery" where
  "deliver opts message ctx =
     (case message of
        Request request \<Rightarrow>
          if (case ic_payment_interaction ctx of Some mode \<Rightarrow> mode \<noteq> Transparent | None \<Rightarrow> False) then Pass
          else (case match_priced_capability request (spo_priced_capabilities opts) of
                  None \<Rightarrow> Pass
                | Some priced \<Rightarrow> if refuse_priced_requests opts then Drop else Gate request priced)
      | _ \<Rightarrow> Pass)"

datatype tp_event =
    Tp_Tick duration
  | Tp_Deliver json_rpc_message inbound_context
  | Tp_Lock nat
  | Tp_Initiated nat payment_env
  | Tp_Published nat bool
  | Tp_Verified nat verify_result
  | Tp_Forwarded nat bool
  | Tp_Cleanup nat

definition new_lifecycle ::
  "json_rpc_request \<Rightarrow> priced_capability \<Rightarrow> inbound_context \<Rightarrow> instant \<Rightarrow> instant \<Rightarrow> lifecycle" where
  "new_lifecycle request priced ctx now locked =
     \<lparr>lc_request = request, lc_priced = priced, lc_ctx = ctx, lc_pc = Lc_Initiating,
      lc_invoice_issued = False, lc_now = now, lc_locked = locked\<rparr>"

definition lc_store :: "nat \<Rightarrow> lifecycle \<Rightarrow> tp_record list \<Rightarrow> 'c transparent \<Rightarrow> 'c transparent" where
  "lc_store n lc rs t =
     t\<lparr>tp_lifecycles := AList.update n lc (tp_lifecycles t), tp_log := tp_log t @ rs\<rparr>"

fun tp_step :: "'c pend_lru \<Rightarrow> server_payments_options \<Rightarrow> 'c transparent \<Rightarrow> tp_event \<Rightarrow> 'c transparent" where
  "tp_step L opts t (Tp_Tick d) = t\<lparr>tp_clock := tp_clock t + d\<rparr>"
| "tp_step L opts t (Tp_Deliver message ctx) =
     (case deliver opts message ctx of
        Pass \<Rightarrow> t\<lparr>tp_next := Suc (tp_next t), tp_log := tp_log t @ [Tp_Free message ctx]\<rparr>
      | Drop \<Rightarrow> t\<lparr>tp_next := Suc (tp_next t)\<rparr>
      | Gate request priced \<Rightarrow>
          t\<lparr>tp_next := Suc (tp_next t),
            tp_waiting := AList.update (tp_next t) (request, priced, ctx, tp_clock t) (tp_waiting t)\<rparr>)"
| "tp_step L opts t (Tp_Lock n) =
     (case map_of (tp_waiting t) n of
        Some (request, priced, ctx, now) \<Rightarrow>
          (let (c, outcome) = pending_lock L opts (tp_cache t) now (ic_request_event_id ctx) n;
               t1 = t\<lparr>tp_cache := c, tp_waiting := AList.delete n (tp_waiting t)\<rparr> in
           case outcome of
             Fresh \<Rightarrow> lc_store n (new_lifecycle request priced ctx now (tp_clock t)) [] t1
           | _ \<Rightarrow> t1)
      | None \<Rightarrow> t)"
| "tp_step L opts t (Tp_Initiated n env) =
     (case map_of (tp_lifecycles t) n of
        Some lc \<Rightarrow>
          (case lc_pc lc of
             Lc_Initiating \<Rightarrow>
               (let (lc', acts) = lc_initiated env opts lc in
                lc_store n lc' (Tp_Priced n (price_answer env opts (lc_request lc) (lc_priced lc)
                  (ic_request_event_id (lc_ctx lc)) (ic_client_pubkey (lc_ctx lc))) # map (Tp_Did n) acts) t)
           | _ \<Rightarrow> t)
      | None \<Rightarrow> t)"
| "tp_step L opts t (Tp_Published n ok) =
     (case map_of (tp_lifecycles t) n of
        Some lc \<Rightarrow>
          (case lc_pc lc of
             Lc_Publishing_Rejected \<Rightarrow> lc_store n (lc_rejected_published ok lc) [] t
           | Lc_Publishing_Required payment_required verify_timeout \<Rightarrow>
               lc_store n (lc_required_published opts ok payment_required verify_timeout lc)
                 (if ok then [Tp_Invoiced n] else []) t
           | Lc_Publishing_Accepted \<Rightarrow>
               (let (lc', acts) = lc_accepted_published ok lc in lc_store n lc' (map (Tp_Did n) acts) t)
           | _ \<Rightarrow> t)
      | None \<Rightarrow> t)"
| "tp_step L opts t (Tp_Verified n outcome) =
     (case map_of (tp_lifecycles t) n of
        Some lc \<Rightarrow>
          (case lc_pc lc of
             Lc_Verifying payment_required timeout \<Rightarrow>
               (let (lc', acts) = lc_verified outcome payment_required lc in
                lc_store n lc'
                  ((case outcome of Verified m \<Rightarrow> [Tp_Settled n] | _ \<Rightarrow> []) @ map (Tp_Did n) acts) t)
           | _ \<Rightarrow> t)
      | None \<Rightarrow> t)"
| "tp_step L opts t (Tp_Forwarded n panicked) =
     (case map_of (tp_lifecycles t) n of
        Some lc \<Rightarrow>
          (case lc_pc lc of
             Lc_Forwarding \<Rightarrow> lc_store n (lc_forwarded panicked lc) [] t
           | _ \<Rightarrow> t)
      | None \<Rightarrow> t)"
| "tp_step L opts t (Tp_Cleanup n) =
     (case map_of (tp_lifecycles t) n of
        Some lc \<Rightarrow>
          (case lc_pc lc of
             Lc_Done res \<Rightarrow>
               t\<lparr>tp_cache := pending_cleanup L (tp_cache t) (ic_request_event_id (lc_ctx lc)) n res\<rparr>
           | _ \<Rightarrow> t)
      | None \<Rightarrow> t)"

definition tp_run :: "'c pend_lru \<Rightarrow> server_payments_options \<Rightarrow> tp_event list \<Rightarrow> 'c transparent" where
  "tp_run L opts evs = foldl (tp_step L opts) (transparent_new L opts) evs"

section \<open>The cache keeps live entries\<close>

locale pend_lru = lru L valid for L :: "('c, pending_entry) lru_ops" and valid
begin

lemma pop_keeps_live:
  assumes "valid c" "lru_peek L c x = Some entry" "pe_expires_at entry \<le> now"
    and "lru_peek L c k = Some e" "now < pe_expires_at e"
  shows "lru_peek L (fst (lru_pop L c x)) k = Some e"
  using assms by (auto simp: pop_peek)

lemma purge_keeps_live:
  assumes "valid c" "lru_peek L c k = Some e" "now < pe_expires_at e"
  shows "lru_peek L (purge_expired_pending L c now) k = Some e"
proof -
  define keys where "keys = map fst (filter (\<lambda>(key, entry). pe_expires_at entry \<le> now)
       (take PENDING_PURGE_SCAN_LIMIT (rev (lru_iter L c))))"
  have "k \<notin> set keys"
  proof
    assume "k \<in> set keys"
    then obtain w where "(k, w) \<in> set (lru_iter L c)" "pe_expires_at w \<le> now"
      by (auto simp: keys_def dest: in_set_takeD)
    moreover have "keys_ok (lru_iter L c)" using assms(1) by (rule valid_keys)
    ultimately have "lru_peek L c k = Some w" by (simp add: lru_peek_def keys_ok_def)
    with assms(2,3) \<open>pe_expires_at w \<le> now\<close> show False by simp
  qed
  then show ?thesis
    using assms(1,2) by (simp add: purge_expired_pending_def keys_def [symmetric] pop_all_peek)
qed

lemma purge_sub:
  "valid c \<Longrightarrow> lru_peek L (purge_expired_pending L c now) k = Some e \<Longrightarrow> lru_peek L c k = Some e"
  by (simp add: purge_expired_pending_def pop_all_peek restrict_map_def split: if_splits)

lemma purge_valid: "valid c \<Longrightarrow> valid (purge_expired_pending L c now)"
  by (simp add: purge_expired_pending_def pop_all_valid)

text \<open>The eviction of \<open>put\<close> never hits: it is reached only with room in the cache.\<close>

lemma put_after_pop:
  assumes "valid c" "lru_peek L c x \<noteq> None"
  shows "lru_peek L (lru_put L (fst (lru_pop L c x)) k v) = (lru_peek L c)(x := None, k \<mapsto> v)"
proof -
  let ?c = "fst (lru_pop L c x)"
  have dom: "dom (lru_peek L ?c) = dom (lru_peek L c) - {x}" using assms(1) by (simp add: pop_peek)
  have "finite (dom (lru_peek L c))" by (simp add: lru_peek_fun finite_dom_map_of)
  then have "card (dom (lru_peek L c) - {x}) < card (dom (lru_peek L c))"
    by (rule card_Diff1_less) (use assms(2) in auto)
  then have "lru_len L ?c < lru_len L c"
    using assms(1) by (simp add: len_card pop_valid dom)
  also have "\<dots> \<le> lru_cap L ?c" using valid_len [OF assms(1)] by (simp add: lru_len_def pop_cap)
  finally show ?thesis
    using put_peek_room [of ?c k v] assms(1) by (simp add: pop_valid pop_peek)
qed

lemma pending_lock_result:
  assumes v: "valid c" and lock: "pending_lock L opts c now e n = (c', out)"
  shows "valid c'"
    and "lru_peek L c k = Some x \<Longrightarrow> now < pe_expires_at x \<Longrightarrow> lru_peek L c' k = Some x"
    and "out = Fresh \<Longrightarrow> lru_peek L c' e = Some \<lparr>pe_expires_at = now + spo_payment_ttl opts, pe_in_flight = n\<rparr>"
    and "out = Fresh \<Longrightarrow> lru_peek L c e = Some x \<Longrightarrow> pe_expires_at x \<le> now"
proof -
  let ?p = "purge_expired_pending L c now"
  let ?new = "\<lparr>pe_expires_at = now + spo_payment_ttl opts, pe_in_flight = n\<rparr>"
  have p: "valid ?p" "lru_cap L ?p \<ge> lru_len L ?p"
    using purge_valid [OF v] valid_len by (simp_all add: lru_len_def)
  consider (join) j where "c' = ?p" "out = Joined j"
    | (refuse) "c' = ?p" "out = Refused"
    | (pop) key w where "out = Fresh" "lru_peek L ?p key = Some w" "pe_expires_at w \<le> now"
        "c' = lru_put L (fst (lru_pop L ?p key)) e ?new"
        "\<And>x. lru_peek L ?p e = Some x \<Longrightarrow> pe_expires_at x \<le> now"
    | (room) "out = Fresh" "lru_len L ?p < lru_cap L ?p" "c' = lru_put L ?p e ?new"
        "\<And>x. lru_peek L ?p e = Some x \<Longrightarrow> pe_expires_at x \<le> now"
  proof -
    have found: "lru_peek L ?p key = Some w \<and> pe_expires_at w \<le> now"
      if "find (\<lambda>(key, e). pe_expires_at e \<le> now) (lru_iter L ?p) = Some (key, w)" for key w
      using that valid_keys [OF p(1)] by (auto simp: find_Some_iff lru_peek_def keys_ok_def in_set_conv_nth)
    show thesis
      using lock p(2) found
      by (auto simp: pending_lock_def Let_def linorder_not_less order_le_less
          split: option.splits if_splits prod.splits intro: that)
  qed
  note cases = this
  have old: "pe_expires_at x \<le> now" if "\<And>x. lru_peek L ?p e = Some x \<Longrightarrow> pe_expires_at x \<le> now"
    "lru_peek L c e = Some x" for x
    using purge_keeps_live [OF v that(2)] that(1) by (meson linorder_not_le)
  show "valid c'"
    using cases p(1) by cases (simp_all add: put_valid pop_valid)
  show "lru_peek L c' k = Some x" if "lru_peek L c k = Some x" "now < pe_expires_at x"
  proof -
    have live: "lru_peek L ?p k = Some x" using purge_keeps_live [OF v that] .
    from cases show ?thesis
    proof cases
      case (pop key w)
      have "k \<noteq> key" "k \<noteq> e" using pop live that(2) by (auto simp: linorder_not_less [symmetric])
      then show ?thesis using put_after_pop [OF p(1), of key e ?new] pop live by simp
    next
      case room
      have "k \<noteq> e" using room live that(2) by (auto simp: linorder_not_less [symmetric])
      then show ?thesis using put_peek_room [OF p(1), of e ?new] room live by simp
    qed (simp_all add: live)
  qed
  show "lru_peek L c' e = Some ?new" if "out = Fresh"
    using cases that p(1) by cases (simp_all add: put_peek_key pop_valid)
  show "pe_expires_at x \<le> now" if "out = Fresh" "lru_peek L c e = Some x"
    using cases that old by cases auto
qed

end

interpretation pend_list: pend_lru list_lru list_lru_valid
  by unfold_locales

section \<open>Invariant of the charges\<close>

abbreviation lc_event :: "lifecycle \<Rightarrow> string" where
  "lc_event lc \<equiv> ic_request_event_id (lc_ctx lc)"

definition lc_failed :: "lifecycle \<Rightarrow> bool" where
  "lc_failed lc \<longleftrightarrow> (case lc_pc lc of Lc_Done (Err e) \<Rightarrow> is_pre_invoice e | _ \<Rightarrow> False)"

definition apart :: "duration \<Rightarrow> lifecycle \<Rightarrow> lifecycle \<Rightarrow> bool" where
  "apart ttl a b \<longleftrightarrow> lc_now a + ttl \<le> lc_locked b \<or> lc_now b + ttl \<le> lc_locked a"

definition tasks_inv :: "'c transparent \<Rightarrow> bool" where
  "tasks_inv t \<longleftrightarrow>
     (\<forall>n r p ctx now. map_of (tp_waiting t) n = Some (r, p, ctx, now) \<longrightarrow>
        now \<le> tp_clock t \<and> map_of (tp_lifecycles t) n = None) \<and>
     (\<forall>n \<ge> tp_next t. map_of (tp_waiting t) n = None \<and> map_of (tp_lifecycles t) n = None)"

definition tracked :: "'c pend_lru \<Rightarrow> duration \<Rightarrow> 'c transparent \<Rightarrow> nat \<Rightarrow> lifecycle \<Rightarrow> bool" where
  "tracked L ttl t n lc \<longleftrightarrow>
     lru_peek L (tp_cache t) (lc_event lc) = Some \<lparr>pe_expires_at = lc_now lc + ttl, pe_in_flight = n\<rparr> \<or>
     lc_now lc + ttl \<le> tp_clock t \<or> lc_failed lc"

definition charge_inv :: "'c pend_lru \<Rightarrow> ('c \<Rightarrow> bool) \<Rightarrow> duration \<Rightarrow> 'c transparent \<Rightarrow> bool" where
  "charge_inv L valid ttl t \<longleftrightarrow>
     valid (tp_cache t) \<and> tasks_inv t \<and>
     (\<forall>n lc. map_of (tp_lifecycles t) n = Some lc \<longrightarrow> tracked L ttl t n lc) \<and>
     (\<forall>a b la lb. a \<noteq> b \<longrightarrow> map_of (tp_lifecycles t) a = Some la \<longrightarrow> map_of (tp_lifecycles t) b = Some lb \<longrightarrow>
        lc_event la = lc_event lb \<longrightarrow> apart ttl la lb \<or> lc_failed la \<or> lc_failed lb)"

lemma charge_invD:
  assumes "charge_inv L valid ttl t"
  shows "valid (tp_cache t)" "tasks_inv t"
    "map_of (tp_lifecycles t) n = Some lc \<Longrightarrow> tracked L ttl t n lc"
    "a \<noteq> b \<Longrightarrow> map_of (tp_lifecycles t) a = Some la \<Longrightarrow> map_of (tp_lifecycles t) b = Some lb \<Longrightarrow>
       lc_event la = lc_event lb \<Longrightarrow> apart ttl la lb \<or> lc_failed la \<or> lc_failed lb"
  using assms unfolding charge_inv_def by blast+

lemma apart_sym: "apart ttl a b \<longleftrightarrow> apart ttl b a"
  by (auto simp: apart_def)

lemma apart_insert:
  assumes old: "\<And>a b la lb. a \<noteq> b \<Longrightarrow> M a = Some la \<Longrightarrow> M b = Some lb \<Longrightarrow> lc_event la = lc_event lb \<Longrightarrow>
      apart ttl la lb \<or> lc_failed la \<or> lc_failed lb"
    and new: "\<And>m l. m \<noteq> n \<Longrightarrow> M m = Some l \<Longrightarrow> lc_event l = lc_event x \<Longrightarrow> apart ttl x l \<or> lc_failed l"
    and ab: "a \<noteq> b" "(M(n \<mapsto> x)) a = Some la" "(M(n \<mapsto> x)) b = Some lb" "lc_event la = lc_event lb"
  shows "apart ttl la lb \<or> lc_failed la \<or> lc_failed lb"
proof (cases "a = n")
  case True
  then show ?thesis using new [of b lb] ab by auto
next
  case False
  show ?thesis
  proof (cases "b = n")
    case True
    then show ?thesis using new [of a la] ab False apart_sym by auto
  next
    case False
    then show ?thesis using old [of a b la lb] ab \<open>a \<noteq> n\<close> by simp
  qed
qed

lemma charge_inv_store:
  assumes inv: "charge_inv L valid ttl t" and n: "map_of (tp_lifecycles t) n = Some lc"
    and same: "lc_ctx lc' = lc_ctx lc" "lc_now lc' = lc_now lc" "lc_locked lc' = lc_locked lc"
    and live: "\<not> lc_failed lc"
  shows "charge_inv L valid ttl (lc_store n lc' rs t)"
proof -
  let ?t = "lc_store n lc' rs t"
  have t: "tp_cache ?t = tp_cache t" "tp_clock ?t = tp_clock t" "tp_waiting ?t = tp_waiting t"
    "tp_next ?t = tp_next t" "map_of (tp_lifecycles ?t) = (map_of (tp_lifecycles t))(n \<mapsto> lc')"
    by (simp_all add: lc_store_def)
  have "tasks_inv ?t"
    using charge_invD(2) [OF inv] n unfolding tasks_inv_def t by fastforce
  moreover have "tracked L ttl ?t m l" if "map_of (tp_lifecycles ?t) m = Some l" for m l
  proof (cases "m = n")
    case True
    then have "tracked L ttl t n lc" "l = lc'" using charge_invD(3) [OF inv n] that by (simp_all add: t)
    then show ?thesis using same live True by (auto simp: tracked_def t)
  next
    case False
    then show ?thesis using charge_invD(3) [OF inv, of m l] that by (simp add: tracked_def t)
  qed
  moreover have "apart ttl la lb \<or> lc_failed la \<or> lc_failed lb"
    if "a \<noteq> b" "map_of (tp_lifecycles ?t) a = Some la" "map_of (tp_lifecycles ?t) b = Some lb"
      "lc_event la = lc_event lb" for a b la lb
  proof (rule apart_insert [OF charge_invD(4) [OF inv] _ that(1) that(2,3) [unfolded t(5)] that(4)])
    show "apart ttl lc' l \<or> lc_failed l" if "m \<noteq> n" "map_of (tp_lifecycles t) m = Some l"
      "lc_event l = lc_event lc'" for m l
      using charge_invD(4) [OF inv, of n m lc l] that n same live by (auto simp: apart_def)
  qed
  ultimately show ?thesis
    using charge_invD(1) [OF inv] unfolding charge_inv_def by (simp add: t(1))
qed

context pend_lru
begin

lemma lock_charge_inv:
  assumes inv: "charge_inv L valid (spo_payment_ttl opts) t"
  shows "charge_inv L valid (spo_payment_ttl opts) (tp_step L opts t (Tp_Lock n))"
proof (cases "map_of (tp_waiting t) n")
  case None
  then show ?thesis using inv by simp
next
  case (Some w)
  obtain request priced ctx now where w: "w = (request, priced, ctx, now)" by (metis prod_cases4)
  let ?ttl = "spo_payment_ttl opts"
  obtain c out where lock: "pending_lock L opts (tp_cache t) now (ic_request_event_id ctx) n = (c, out)"
    by fastforce
  note res = pending_lock_result [OF charge_invD(1) [OF inv] lock]
  have now: "now \<le> tp_clock t" and fresh: "map_of (tp_lifecycles t) n = None"
    using charge_invD(2) [OF inv] Some w unfolding tasks_inv_def by blast+
  have n: "n < tp_next t"
    using charge_invD(2) [OF inv] Some unfolding tasks_inv_def by (metis linorder_not_le option.discI)
  let ?t1 = "t\<lparr>tp_cache := c, tp_waiting := AList.delete n (tp_waiting t)\<rparr>"
  have keep: "tracked L ?ttl ?t1 m lc" if "map_of (tp_lifecycles t) m = Some lc" for m lc
    using charge_invD(3) [OF inv that] res(2) [of "lc_event lc" "\<lparr>pe_expires_at = lc_now lc + ?ttl, pe_in_flight = m\<rparr>"]
      now by (cases "now < lc_now lc + ?ttl") (auto simp: tracked_def)
  have t1: "charge_inv L valid ?ttl ?t1"
    using charge_invD(2,4) [OF inv] res(1) keep
    unfolding charge_inv_def tasks_inv_def by (auto split: if_splits)
  show ?thesis
  proof (cases "out = Fresh")
    case False
    then have "tp_step L opts t (Tp_Lock n) = ?t1"
      by (cases out) (simp_all add: Some w lock)
    with t1 show ?thesis by simp
  next
    case True
    let ?lc = "new_lifecycle request priced ctx now (tp_clock t)"
    let ?t = "lc_store n ?lc [] ?t1"
    have step: "tp_step L opts t (Tp_Lock n) = ?t" using True by (simp add: Some w lock)
    have t: "tp_cache ?t = c" "tp_clock ?t = tp_clock t" "tp_next ?t = tp_next t"
      "tp_waiting ?t = AList.delete n (tp_waiting t)"
      "map_of (tp_lifecycles ?t) = (map_of (tp_lifecycles t))(n \<mapsto> ?lc)"
      by (simp_all add: lc_store_def)
    have tasks: "tasks_inv ?t"
      using charge_invD(2) [OF inv] n unfolding tasks_inv_def t by (auto split: if_splits)
    have new: "tracked L ?ttl ?t n ?lc"
      using res(3) [OF True] by (simp add: tracked_def lc_store_def new_lifecycle_def)
    have old: "tracked L ?ttl ?t m lc" if "map_of (tp_lifecycles t) m = Some lc" for m lc
      using keep [OF that] by (simp add: tracked_def t)
    have sep: "apart ?ttl ?lc l \<or> lc_failed l"
      if "map_of (tp_lifecycles t) m = Some l" "lc_event l = ic_request_event_id ctx" for m l
    proof -
      have "lc_now l + ?ttl \<le> now" if "lru_peek L (tp_cache t) (lc_event l) =
          Some \<lparr>pe_expires_at = lc_now l + ?ttl, pe_in_flight = m\<rparr>"
        using res(4) [OF True] that \<open>lc_event l = ic_request_event_id ctx\<close> by force
      then show ?thesis
        using charge_invD(3) [OF inv that(1)] now by (auto simp: tracked_def apart_def new_lifecycle_def)
    qed
    have lc: "lc_event ?lc = ic_request_event_id ctx" by (simp add: new_lifecycle_def)
    have "apart ?ttl la lb \<or> lc_failed la \<or> lc_failed lb"
      if "a \<noteq> b" "map_of (tp_lifecycles ?t) a = Some la" "map_of (tp_lifecycles ?t) b = Some lb"
        "lc_event la = lc_event lb" for a b la lb
      by (rule apart_insert [OF charge_invD(4) [OF inv] _ that(1) that(2,3) [unfolded t(5)] that(4)])
        (use sep lc in auto)
    with tasks new old res(1) show ?thesis
      unfolding step charge_inv_def by (auto simp: t split: if_splits)
  qed
qed

lemma cleanup_charge_inv:
  assumes inv: "charge_inv L valid (spo_payment_ttl opts) t"
  shows "charge_inv L valid (spo_payment_ttl opts) (tp_step L opts t (Tp_Cleanup n))"
proof (cases "\<exists>lc res. map_of (tp_lifecycles t) n = Some lc \<and> lc_pc lc = Lc_Done res")
  case False
  then have "tp_step L opts t (Tp_Cleanup n) = t" by (auto split: option.splits lifecycle_pc.splits)
  with inv show ?thesis by simp
next
  case True
  then obtain lc res where lc: "map_of (tp_lifecycles t) n = Some lc" "lc_pc lc = Lc_Done res" by blast
  let ?c = "pending_cleanup L (tp_cache t) (lc_event lc) n res"
  have v: "valid (tp_cache t)" using charge_invD(1) [OF inv] .
  have c: "valid ?c" using v by (simp add: pending_cleanup_def pop_valid split: sum.split option.split)
  have "tracked L (spo_payment_ttl opts) (t\<lparr>tp_cache := ?c\<rparr>) m l"
    if l: "map_of (tp_lifecycles t) m = Some l" for m l
  proof (cases "?c = tp_cache t")
    case True
    then show ?thesis using charge_invD(3) [OF inv l] by (simp add: tracked_def)
  next
    case False
    then have failed: "lc_failed lc" and pop: "?c = fst (lru_pop L (tp_cache t) (lc_event lc))"
      and own: "\<exists>entry. lru_peek L (tp_cache t) (lc_event lc) = Some entry \<and> pe_in_flight entry = n"
      by (auto simp: pending_cleanup_def lc_failed_def lc(2) split: sum.splits option.splits if_splits)
    show ?thesis
    proof (cases "m = n")
      case True
      then show ?thesis using failed l lc by (simp add: tracked_def)
    next
      case False
      then have "lru_peek L ?c (lc_event l) = Some \<lparr>pe_expires_at = lc_now l + spo_payment_ttl opts, pe_in_flight = m\<rparr>"
        if "lru_peek L (tp_cache t) (lc_event l) = Some \<lparr>pe_expires_at = lc_now l + spo_payment_ttl opts, pe_in_flight = m\<rparr>"
        using own that v unfolding pop by (auto simp: pop_peek)
      then show ?thesis using charge_invD(3) [OF inv l] by (auto simp: tracked_def)
    qed
  qed
  then show ?thesis
    using charge_invD(2,4) [OF inv] c
    unfolding charge_inv_def tasks_inv_def by (simp add: lc)
qed

end

section \<open>Invariant of the forwards\<close>

fun forward_of :: "nat \<Rightarrow> tp_record \<Rightarrow> bool" where
  "forward_of n (Tp_Did m (Lc_Forward message ctx)) \<longleftrightarrow> m = n"
| "forward_of n _ \<longleftrightarrow> False"

text \<open>Where a lifecycle is says what it has done: \<open>settled\<close> and \<open>free\<close> are whether its payment was
  verified or waived, \<open>fw\<close> how often it forwarded.\<close>

definition lc_ok :: "bool \<Rightarrow> bool \<Rightarrow> nat \<Rightarrow> lifecycle \<Rightarrow> bool" where
  "lc_ok settled free fw lc \<longleftrightarrow>
     (case lc_pc lc of
        Lc_Initiating \<Rightarrow> \<not> lc_invoice_issued lc \<and> fw = 0
      | Lc_Publishing_Rejected \<Rightarrow> \<not> lc_invoice_issued lc \<and> fw = 0
      | Lc_Publishing_Required p d \<Rightarrow> \<not> lc_invoice_issued lc \<and> fw = 0
      | Lc_Verifying p d \<Rightarrow> lc_invoice_issued lc \<and> fw = 0
      | Lc_Publishing_Accepted \<Rightarrow> lc_invoice_issued lc \<and> settled \<and> fw = 0
      | Lc_Forwarding \<Rightarrow> fw = 1 \<and> (if lc_invoice_issued lc then settled else free)
      | Lc_Done res \<Rightarrow> fw \<le> 1 \<and> (fw = 1 \<longrightarrow> (if lc_invoice_issued lc then settled else free)) \<and>
          (lc_failed lc \<longrightarrow> \<not> lc_invoice_issued lc))"

definition tp_waived :: "tp_record list \<Rightarrow> nat \<Rightarrow> bool" where
  "tp_waived log n \<longleftrightarrow> (\<exists>m. Tp_Priced n (Returned (Ok (Waive m))) \<in> set log)"

definition flow_ok :: "nat \<Rightarrow> tp_record list \<Rightarrow> lifecycle \<Rightarrow> bool" where
  "flow_ok n log lc = lc_ok (Tp_Settled n \<in> set log) (tp_waived log n) (occurs (forward_of n) log) lc"

fun record_of :: "nat \<Rightarrow> tp_record \<Rightarrow> bool" where
  "record_of n (Tp_Did m act) \<longleftrightarrow> m = n"
| "record_of n (Tp_Invoiced m) \<longleftrightarrow> m = n"
| "record_of n (Tp_Settled m) \<longleftrightarrow> m = n"
| "record_of n (Tp_Priced m answer) \<longleftrightarrow> m = n"
| "record_of n (Tp_Free message ctx) \<longleftrightarrow> False"

definition flow_inv :: "server_payments_options \<Rightarrow> 'c transparent \<Rightarrow> bool" where
  "flow_inv opts t \<longleftrightarrow>
     (\<forall>n lc. map_of (tp_lifecycles t) n = Some lc \<longrightarrow> flow_ok n (tp_log t) lc) \<and>
     (\<forall>n. map_of (tp_lifecycles t) n = None \<longrightarrow> occurs (forward_of n) (tp_log t) = 0) \<and>
     (\<forall>message ctx. Tp_Free message ctx \<in> set (tp_log t) \<longrightarrow> deliver opts message ctx = Pass)"

lemma forward_other:
  assumes "list_all (record_of n) rs" "m \<noteq> n"
  shows "occurs (forward_of m) rs = 0" "Tp_Settled m \<notin> set rs" "tp_waived (log @ rs) m = tp_waived log m"
    "Tp_Free message ctx \<notin> set rs"
proof -
  have "\<not> forward_of m r" if "r \<in> set rs" for r
    using assms that by (cases "(m, r)" rule: forward_of.cases) (auto simp: list_all_iff)
  then show "occurs (forward_of m) rs = 0" by (simp add: occurs_def filter_empty_conv)
qed (use assms in \<open>auto simp: list_all_iff tp_waived_def\<close>)

lemma flow_inv_store:
  assumes inv: "flow_inv opts t"
    and rs: "list_all (record_of n) rs" and ok: "flow_ok n (tp_log t @ rs) lc'"
  shows "flow_inv opts (lc_store n lc' rs t)"
proof -
  have other: "flow_ok m (tp_log t @ rs) lc" if "flow_ok m (tp_log t) lc" "m \<noteq> n" for m lc
    using that forward_other(1-3) [OF rs that(2)] by (simp add: flow_ok_def)
  have free: "Tp_Free message ctx \<notin> set rs" for message ctx
    using rs by (auto simp: list_all_iff)
  show ?thesis
    using inv ok other free forward_other(1) [OF rs] unfolding flow_inv_def
    by (auto simp: lc_store_def split: if_splits)
qed

lemma lifecycle_panic_pre: "is_pre_invoice (lifecycle_panic b) \<longleftrightarrow> \<not> b"
  by (simp add: lifecycle_panic_def)

lemmas flow_defs = flow_ok_def lc_ok_def lc_failed_def lifecycle_panic_pre

lemma lc_initiated_flow:
  assumes "flow_ok n log lc" "lc_pc lc = Lc_Initiating" "lc_initiated env opts lc = (lc', acts)"
  shows "flow_ok n (log @ Tp_Priced n (price_answer env opts (lc_request lc) (lc_priced lc)
      (ic_request_event_id (lc_ctx lc)) (ic_client_pubkey (lc_ctx lc))) # map (Tp_Did n) acts) lc'
    \<and> lc_ctx lc' = lc_ctx lc \<and> lc_now lc' = lc_now lc \<and> lc_locked lc' = lc_locked lc"
  using assms
  by (auto simp: lc_initiated_def flow_defs lc_notify_def tp_waived_def elim!: initiation_waived
      split: call.splits sum.splits initiation_outcome.splits)

lemma lc_verified_flow:
  assumes "flow_ok n log lc" "lc_pc lc = Lc_Verifying p d" "lc_verified outcome p lc = (lc', acts)"
  shows "flow_ok n (log @ (case outcome of Verified m \<Rightarrow> [Tp_Settled n] | _ \<Rightarrow> []) @ map (Tp_Did n) acts) lc'
    \<and> lc_ctx lc' = lc_ctx lc \<and> lc_now lc' = lc_now lc \<and> lc_locked lc' = lc_locked lc"
  using assms
  by (auto simp: lc_verified_def flow_defs lc_notify_def split: verify_result.splits)

definition lifecycle_move :: "'c transparent \<Rightarrow> 'c transparent \<Rightarrow> bool" where
  "lifecycle_move t t' \<longleftrightarrow>
     t' = t \<or>
     (\<exists>n lc lc' rs. map_of (tp_lifecycles t) n = Some lc \<and> \<not> lc_failed lc \<and>
        lc_ctx lc' = lc_ctx lc \<and> lc_now lc' = lc_now lc \<and> lc_locked lc' = lc_locked lc \<and>
        list_all (record_of n) rs \<and> flow_ok n (tp_log t @ rs) lc' \<and> t' = lc_store n lc' rs t)"

lemma lifecycle_moveI:
  assumes "map_of (tp_lifecycles t) n = Some lc" "\<not> lc_failed lc"
    "flow_ok n (tp_log t @ rs) lc' \<and> lc_ctx lc' = lc_ctx lc \<and> lc_now lc' = lc_now lc \<and> lc_locked lc' = lc_locked lc"
    "list_all (record_of n) rs" "t' = lc_store n lc' rs t"
  shows "lifecycle_move t t'"
  using assms unfolding lifecycle_move_def by blast

lemma lifecycle_moves:
  assumes inv: "flow_inv opts t"
  shows "lifecycle_move t (tp_step L opts t (Tp_Initiated n env))"
    and "lifecycle_move t (tp_step L opts t (Tp_Published n ok))"
    and "lifecycle_move t (tp_step L opts t (Tp_Verified n outcome))"
    and "lifecycle_move t (tp_step L opts t (Tp_Forwarded n panicked))"
proof -
  have "lifecycle_move t (tp_step L opts t (Tp_Initiated n env)) \<and>
    lifecycle_move t (tp_step L opts t (Tp_Published n ok)) \<and>
    lifecycle_move t (tp_step L opts t (Tp_Verified n outcome)) \<and>
    lifecycle_move t (tp_step L opts t (Tp_Forwarded n panicked))"
  proof (cases "map_of (tp_lifecycles t) n")
    case None
    then show ?thesis by (simp add: lifecycle_move_def)
  next
    case (Some lc)
    have ok: "flow_ok n (tp_log t) lc" using inv Some by (simp add: flow_inv_def)
    have did: "list_all (record_of n) (map (Tp_Did n) acts)" for acts by (simp add: list_all_iff)
    have "lifecycle_move t (tp_step L opts t (Tp_Initiated n env))"
    proof (cases "lc_pc lc = Lc_Initiating")
      case True
      obtain lc' acts where seg: "lc_initiated env opts lc = (lc', acts)" by fastforce
      show ?thesis
        by (rule lifecycle_moveI [OF Some _ lc_initiated_flow [OF ok True seg]])
          (simp_all add: lc_failed_def True Some seg did)
    qed (auto simp: Some lifecycle_move_def split: lifecycle_pc.split)
    moreover have "lifecycle_move t (tp_step L opts t (Tp_Published n ok))"
    proof (cases "lc_pc lc")
      case Lc_Publishing_Rejected
      show ?thesis
        by (rule lifecycle_moveI [OF Some, where rs = "[]" and lc' = "lc_rejected_published ok lc"])
          (use ok Lc_Publishing_Rejected in \<open>auto simp: Some flow_defs lc_rejected_published_def\<close>)
    next
      case (Lc_Publishing_Required p d)
      show ?thesis
        by (rule lifecycle_moveI [OF Some, where rs = "if ok then [Tp_Invoiced n] else []"
              and lc' = "lc_required_published opts ok p d lc"])
          (use ok Lc_Publishing_Required in \<open>auto simp: Some flow_defs lc_required_published_def\<close>)
    next
      case Lc_Publishing_Accepted
      show ?thesis
        by (rule lifecycle_moveI [OF Some, where rs = "map (Tp_Did n) (snd (lc_accepted_published ok lc))"
              and lc' = "fst (lc_accepted_published ok lc)"])
          (use ok Lc_Publishing_Accepted in \<open>auto simp: Some flow_defs lc_accepted_published_def\<close>)
    qed (simp_all add: Some lifecycle_move_def)
    moreover have "lifecycle_move t (tp_step L opts t (Tp_Verified n outcome))"
    proof (cases "\<exists>p d. lc_pc lc = Lc_Verifying p d")
      case True
      then obtain p d where pc: "lc_pc lc = Lc_Verifying p d" by blast
      obtain lc' acts where seg: "lc_verified outcome p lc = (lc', acts)" by fastforce
      show ?thesis
        by (rule lifecycle_moveI [OF Some _ lc_verified_flow [OF ok pc seg]])
          (simp_all add: lc_failed_def pc Some seg did split: verify_result.split)
    qed (auto simp: Some lifecycle_move_def split: lifecycle_pc.split)
    moreover have "lifecycle_move t (tp_step L opts t (Tp_Forwarded n panicked))"
    proof (cases "lc_pc lc = Lc_Forwarding")
      case True
      show ?thesis
        by (rule lifecycle_moveI [OF Some, where rs = "[]" and lc' = "lc_forwarded panicked lc"])
          (use ok True in \<open>auto simp: Some flow_defs lc_forwarded_def split: if_splits\<close>)
    qed (auto simp: Some lifecycle_move_def split: lifecycle_pc.split)
    ultimately show ?thesis by blast
  qed
  then show "lifecycle_move t (tp_step L opts t (Tp_Initiated n env))"
    "lifecycle_move t (tp_step L opts t (Tp_Published n ok))"
    "lifecycle_move t (tp_step L opts t (Tp_Verified n outcome))"
    "lifecycle_move t (tp_step L opts t (Tp_Forwarded n panicked))" by blast+
qed

definition tp_inv :: "'c pend_lru \<Rightarrow> ('c \<Rightarrow> bool) \<Rightarrow> server_payments_options \<Rightarrow> 'c transparent \<Rightarrow> bool" where
  "tp_inv L valid opts t \<longleftrightarrow> charge_inv L valid (spo_payment_ttl opts) t \<and> flow_inv opts t"

lemma tp_inv_move:
  assumes "tp_inv L valid opts t" "lifecycle_move t t'"
  shows "tp_inv L valid opts t'"
  using assms charge_inv_store flow_inv_store unfolding tp_inv_def lifecycle_move_def by metis

lemma flow_inv_lock:
  assumes "flow_inv opts t" "tasks_inv t"
  shows "flow_inv opts (tp_step L opts t (Tp_Lock n))"
proof (cases "map_of (tp_waiting t) n")
  case None
  then show ?thesis using assms by simp
next
  case (Some w)
  obtain request priced ctx now where w: "w = (request, priced, ctx, now)" by (metis prod_cases4)
  have "map_of (tp_lifecycles t) n = None"
    using assms(2) Some w unfolding tasks_inv_def by blast
  then have "occurs (forward_of n) (tp_log t) = 0" using assms(1) by (simp add: flow_inv_def)
  then have "flow_ok n (tp_log t) (new_lifecycle request priced ctx now (tp_clock t))"
    by (simp add: flow_defs new_lifecycle_def)
  moreover have "flow_inv opts (t\<lparr>tp_cache := c, tp_waiting := ws\<rparr>)" for c ws
    using assms(1) by (simp add: flow_inv_def)
  ultimately have "flow_inv opts (lc_store n (new_lifecycle request priced ctx now (tp_clock t)) []
      (t\<lparr>tp_cache := c, tp_waiting := ws\<rparr>))"
    and "flow_inv opts (t\<lparr>tp_cache := c, tp_waiting := ws\<rparr>)" for c ws
    using flow_inv_store [of opts "t\<lparr>tp_cache := c, tp_waiting := ws\<rparr>" n "[]"] by simp_all
  then show ?thesis
    by (auto simp: Some w Let_def split: prod.split lock_outcome.split)
qed

context pend_lru
begin

lemma tp_step_inv:
  assumes inv: "tp_inv L valid opts t"
  shows "tp_inv L valid opts (tp_step L opts t e)"
proof -
  have charge: "charge_inv L valid (spo_payment_ttl opts) t" and flow: "flow_inv opts t"
    using inv by (simp_all add: tp_inv_def)
  show ?thesis
  proof (cases e)
    case (Tp_Tick d)
    have "tracked L (spo_payment_ttl opts) (t\<lparr>tp_clock := tp_clock t + d\<rparr>) n lc"
      if "map_of (tp_lifecycles t) n = Some lc" for n lc
      using charge_invD(3) [OF charge that] by (auto simp: tracked_def)
    then have "charge_inv L valid (spo_payment_ttl opts) (t\<lparr>tp_clock := tp_clock t + d\<rparr>)"
      using charge unfolding charge_inv_def tasks_inv_def by (simp add: trans_le_add1)
    then show ?thesis using flow by (simp add: Tp_Tick tp_inv_def flow_inv_def)
  next
    case (Tp_Deliver message ctx)
    have "charge_inv L valid (spo_payment_ttl opts) (tp_step L opts t e)"
      using charge unfolding charge_inv_def tasks_inv_def tracked_def Tp_Deliver
      by (auto split: delivery.split if_splits)
    moreover have "flow_inv opts (tp_step L opts t e)"
      using flow by (auto simp: Tp_Deliver flow_inv_def flow_ok_def tp_waived_def split: delivery.splits)
    ultimately show ?thesis by (simp add: tp_inv_def)
  next
    case (Tp_Lock n)
    then show ?thesis
      using lock_charge_inv [OF charge, of n] flow_inv_lock [OF flow charge_invD(2) [OF charge], of L n]
      by (simp add: tp_inv_def del: tp_step.simps)
  next
    case (Tp_Cleanup n)
    have "flow_inv opts (tp_step L opts t e)"
      using flow by (auto simp: Tp_Cleanup flow_inv_def split: option.split lifecycle_pc.split)
    then show ?thesis
      using cleanup_charge_inv [OF charge, of n] Tp_Cleanup by (simp add: tp_inv_def del: tp_step.simps)
  next
    case (Tp_Initiated n env)
    then show ?thesis using tp_inv_move [OF inv] lifecycle_moves(1) [OF flow] by (simp del: tp_step.simps)
  next
    case (Tp_Published n ok)
    then show ?thesis using tp_inv_move [OF inv] lifecycle_moves(2) [OF flow] by (simp del: tp_step.simps)
  next
    case (Tp_Verified n outcome)
    then show ?thesis using tp_inv_move [OF inv] lifecycle_moves(3) [OF flow] by (simp del: tp_step.simps)
  next
    case (Tp_Forwarded n panicked)
    then show ?thesis using tp_inv_move [OF inv] lifecycle_moves(4) [OF flow] by (simp del: tp_step.simps)
  qed
qed

lemma tp_run_inv: "tp_inv L valid opts (tp_run L opts evs)"
proof -
  have "tp_inv L valid opts t \<Longrightarrow> tp_inv L valid opts (foldl (tp_step L opts) t evs)" for t
    by (induction evs arbitrary: t) (simp_all add: tp_step_inv)
  moreover have "tp_inv L valid opts (transparent_new L opts)"
    by (simp add: tp_inv_def charge_inv_def tasks_inv_def flow_inv_def transparent_new_def new_valid
        non_zero_def)
  ultimately show ?thesis by (simp add: tp_run_def)
qed

end

section \<open>Properties\<close>

text \<open>
  C11. A priced request of a transparent session is forwarded at most once per lifecycle, and only
  after the processor verified its own payment or the pricing callback answered with a waiver. What is forwarded without a lifecycle
  was not gated. This holds in every interleaving of the tasks, for every behaviour of the pricing
  callback, the processors, the publishes and the downstream chain.
\<close>
theorem transparent_forward_paid:
  assumes L: "pend_lru L valid"
  shows "occurs (forward_of n) (tp_log (tp_run L opts evs)) \<le> 1 \<and>
    (Tp_Did n (Lc_Forward message ctx) \<in> set (tp_log (tp_run L opts evs)) \<longrightarrow>
       Tp_Settled n \<in> set (tp_log (tp_run L opts evs)) \<or> tp_waived (tp_log (tp_run L opts evs)) n) \<and>
    (Tp_Free message ctx \<in> set (tp_log (tp_run L opts evs)) \<longrightarrow> deliver opts message ctx = Pass)"
proof -
  define t where "t = tp_run L opts evs"
  have flow: "flow_inv opts t"
    using pend_lru.tp_run_inv [OF L, of opts evs] by (simp add: tp_inv_def t_def)
  have pos: "0 < occurs (forward_of n) (tp_log t)" if "Tp_Did n (Lc_Forward message ctx) \<in> set (tp_log t)"
    using that by (force simp: occurs_def filter_empty_conv)
  have "occurs (forward_of n) (tp_log t) \<le> 1 \<and>
      (0 < occurs (forward_of n) (tp_log t) \<longrightarrow> Tp_Settled n \<in> set (tp_log t) \<or> tp_waived (tp_log t) n)"
  proof (cases "map_of (tp_lifecycles t) n")
    case None
    then show ?thesis using flow by (simp add: flow_inv_def)
  next
    case (Some lc)
    then have "flow_ok n (tp_log t) lc" using flow by (simp add: flow_inv_def)
    then show ?thesis
      by (cases "lc_pc lc") (auto simp: flow_ok_def lc_ok_def split: if_splits)
  qed
  moreover have "Tp_Free message ctx \<in> set (tp_log t) \<longrightarrow> deliver opts message ctx = Pass"
    using flow unfolding flow_inv_def by blast
  ultimately show ?thesis using pos unfolding t_def by auto
qed

definition tp_context :: inbound_context where
  "tp_context = demo_context\<lparr>ic_payment_interaction := Some Transparent\<rparr>"

definition tp_options :: server_payments_options where
  "tp_options = demo_options\<lparr>spo_payment_ttl := 10\<rparr>"

definition charge_events :: "nat \<Rightarrow> tp_event list" where
  "charge_events n = [Tp_Deliver (Request demo_request) tp_context, Tp_Lock n, Tp_Initiated n demo_env,
     Tp_Published n True]"

definition paid_history :: "tp_event list" where
  "paid_history = charge_events 0 @ [Tp_Verified 0 (Verified None), Tp_Published 0 True, Tp_Forwarded 0 False]"

definition charged_twice :: "tp_event list" where
  "charged_twice = charge_events 0 @ [Tp_Verified 0 Verify_Timed_Out, Tp_Cleanup 0, Tp_Tick 10] @ charge_events 1"

lemma tp_gate: "deliver tp_options (Request demo_request) tp_context = Gate demo_request demo_capability"
  by (simp add: deliver_def tp_options_def demo_options_def demo_request_def tp_context_def demo_context_def
      demo_capability_def server_payments_options_new_def match_priced_capability_def
      capability_name_for_pricing_def refuse_priced_requests_def DEFAULT_MAX_PENDING_PAYMENTS_def)

lemma tp_initiated:
  assumes "lc_request lc = demo_request" "lc_priced lc = demo_capability" "lc_ctx lc = tp_context"
  shows "\<exists>act d. lc_initiated demo_env tp_options lc =
    (lc\<lparr>lc_pc := Lc_Publishing_Required demo_params d\<rparr>, [lc_notify tp_context act])"
  using assms
  by (simp add: lc_initiated_def resolve_and_initiate_payment_def resolve_payment_processor_def
      build_processors_by_pmi_def tp_options_def demo_options_def server_payments_options_new_def
      demo_processors_def tp_context_def demo_context_def demo_env_def) (intro conjI exI; rule refl)

lemmas tp_eval = tp_run_def transparent_new_def tp_gate pending_lock_def purge_expired_pending_def
  lc_store_def new_lifecycle_def lc_required_published_def lc_verified_def lc_accepted_published_def
  lc_forwarded_def pending_cleanup_def list_lru_def list_push_def lru_put_def lru_peek_def lru_len_def
  non_zero_def tp_options_def [THEN arg_cong [of _ _ spo_payment_ttl]]
  tp_options_def [THEN arg_cong [of _ _ spo_max_pending_payments]]
  demo_options_def [THEN arg_cong [of _ _ spo_max_pending_payments]] server_payments_options_new_def
  DEFAULT_MAX_PENDING_PAYMENTS_def PENDING_PURGE_SCAN_LIMIT_def

theorem transparent_forward_paid_witness:
  "pend_lru list_lru list_lru_valid \<and>
   Tp_Did 0 (Lc_Forward (Request demo_request) tp_context) \<in> set (tp_log (tp_run list_lru tp_options paid_history)) \<and>
   (Tp_Settled 0 \<in> set (tp_log (tp_run list_lru tp_options paid_history)) \<or>
    tp_waived (tp_log (tp_run list_lru tp_options paid_history)) 0)"
proof -
  obtain act d where init: "lc_initiated demo_env tp_options
      (new_lifecycle demo_request demo_capability tp_context 0 0) =
      ((new_lifecycle demo_request demo_capability tp_context 0 0)\<lparr>lc_pc := Lc_Publishing_Required demo_params d\<rparr>,
       [lc_notify tp_context act])"
    using tp_initiated [of "new_lifecycle demo_request demo_capability tp_context 0 0"]
    by (auto simp: new_lifecycle_def)
  have "Tp_Did 0 (Lc_Forward (Request demo_request) tp_context) \<in> set (tp_log (tp_run list_lru tp_options paid_history))"
    using init by (simp add: paid_history_def charge_events_def tp_eval)
  then show ?thesis
    using transparent_forward_paid [OF pend_list.pend_lru_axioms] pend_list.pend_lru_axioms by blast
qed



end
