(* ===== verification/Route_Store.thy ===== *)
theory Route_Store
  imports Lru
begin

text \<open>
  The correlation stores: \<open>ServerEventRouteStore\<close> (\<open>src/transport/server/correlation_store.rs\<close>), which
  maps the event of an in-flight request to the client to answer, and \<open>ClientCorrelationStore\<close>
  (\<open>src/transport/client/correlation_store.rs\<close>). Each method holds the store's lock, so it is one
  step on the state. The LRU cache is the parameter \<open>L\<close>.

  The set of a client's event ids is a list without repetition, in the order of insertion; the code
  iterates over it only to remove every element.
\<close>

section \<open>Server routes\<close>

definition DEFAULT_LRU_SIZE :: nat where "DEFAULT_LRU_SIZE = 5000"

record route_entry =
  rt_client_pubkey :: string
  rt_original_request_id :: json
  rt_progress_token :: "string option"
  rt_wrap_kind :: "u16 option"
  rt_registered_at :: instant

record 'c route_store =
  rs_routes :: 'c
  rs_progress_token_to_event :: "(string, string) hash_map"
  rs_client_event_ids :: "(string, string list) hash_map"

type_synonym 'c route_lru = "('c, route_entry) lru_ops"

definition with_max_routes :: "'c route_lru \<Rightarrow> nat \<Rightarrow> 'c route_store" where
  "with_max_routes L max_routes =
     \<lparr>rs_routes = lru_new L (non_zero max_routes), rs_progress_token_to_event = [],
      rs_client_event_ids = []\<rparr>"

definition cleanup_indexes :: "'c route_store \<Rightarrow> string \<Rightarrow> route_entry \<Rightarrow> 'c route_store" where
  "cleanup_indexes s event_id route =
     (let s1 = (case rt_progress_token route of
                  Some token \<Rightarrow>
                    s\<lparr>rs_progress_token_to_event :=
                        AList.delete token (rs_progress_token_to_event s)\<rparr>
                | None \<Rightarrow> s) in
      case map_of (rs_client_event_ids s1) (rt_client_pubkey route) of
        None \<Rightarrow> s1
      | Some ids \<Rightarrow>
          let ids' = removeAll event_id ids in
          s1\<lparr>rs_client_event_ids :=
              (if ids' = [] then AList.delete (rt_client_pubkey route) (rs_client_event_ids s1)
               else AList.update (rt_client_pubkey route) ids' (rs_client_event_ids s1))\<rparr>)"

definition remove_route ::
  "'c route_lru \<Rightarrow> 'c route_store \<Rightarrow> string \<Rightarrow> 'c route_store \<times> route_entry option" where
  "remove_route L s event_id =
     (case lru_pop L (rs_routes s) event_id of
        (c, None) \<Rightarrow> (s\<lparr>rs_routes := c\<rparr>, None)
      | (c, Some route) \<Rightarrow> (cleanup_indexes (s\<lparr>rs_routes := c\<rparr>) event_id route, Some route))"

definition register_route ::
  "'c route_lru \<Rightarrow> 'c route_store \<Rightarrow> instant \<Rightarrow> string \<Rightarrow> string \<Rightarrow> json \<Rightarrow> string option \<Rightarrow>
   'c route_store" where
  "register_route L s now event_id client_pubkey original_request_id progress_token =
     (let ids = (case map_of (rs_client_event_ids s) client_pubkey of Some ids \<Rightarrow> ids | None \<Rightarrow> []);
          s1 = s\<lparr>rs_client_event_ids :=
                  AList.update client_pubkey (List.insert event_id ids) (rs_client_event_ids s)\<rparr>;
          s2 = (case progress_token of
                  Some token \<Rightarrow>
                    s1\<lparr>rs_progress_token_to_event :=
                        AList.update token event_id (rs_progress_token_to_event s1)\<rparr>
                | None \<Rightarrow> s1);
          (c, evicted) = lru_push L (rs_routes s2) event_id
             \<lparr>rt_client_pubkey = client_pubkey, rt_original_request_id = original_request_id,
              rt_progress_token = progress_token, rt_wrap_kind = None, rt_registered_at = now\<rparr>;
          s3 = s2\<lparr>rs_routes := c\<rparr> in
      case evicted of
        None \<Rightarrow> s3
      | Some (evicted_key, evicted_route) \<Rightarrow>
          if evicted_key \<noteq> event_id then cleanup_indexes s3 evicted_key evicted_route else s3)"

definition get_client :: "'c route_lru \<Rightarrow> 'c route_store \<Rightarrow> string \<Rightarrow> string option" where
  "get_client L s event_id = map_option rt_client_pubkey (lru_peek L (rs_routes s) event_id)"

definition get_route :: "'c route_lru \<Rightarrow> 'c route_store \<Rightarrow> string \<Rightarrow> route_entry option" where
  "get_route L s event_id = lru_peek L (rs_routes s) event_id"

definition pop_route ::
  "'c route_lru \<Rightarrow> 'c route_store \<Rightarrow> string \<Rightarrow> 'c route_store \<times> route_entry option" where
  "pop_route L s event_id = remove_route L s event_id"

fun pop_client_routes :: "'c route_lru \<Rightarrow> string list \<Rightarrow> 'c route_store \<Rightarrow> 'c route_store" where
  "pop_client_routes L [] s = s"
| "pop_client_routes L (event_id # rest) s =
     (case lru_pop L (rs_routes s) event_id of
        (c, None) \<Rightarrow> pop_client_routes L rest (s\<lparr>rs_routes := c\<rparr>)
      | (c, Some route) \<Rightarrow>
          pop_client_routes L rest
            (case rt_progress_token route of
               Some token \<Rightarrow>
                 s\<lparr>rs_routes := c, rs_progress_token_to_event :=
                     AList.delete token (rs_progress_token_to_event s)\<rparr>
             | None \<Rightarrow> s\<lparr>rs_routes := c\<rparr>))"

definition remove_for_client ::
  "'c route_lru \<Rightarrow> 'c route_store \<Rightarrow> string \<Rightarrow> 'c route_store \<times> nat" where
  "remove_for_client L s client_pubkey =
     (case map_of (rs_client_event_ids s) client_pubkey of
        None \<Rightarrow> (s, 0)
      | Some event_ids \<Rightarrow>
          (pop_client_routes L event_ids
             (s\<lparr>rs_client_event_ids := AList.delete client_pubkey (rs_client_event_ids s)\<rparr>),
           length event_ids))"

definition has_event_route :: "'c route_lru \<Rightarrow> 'c route_store \<Rightarrow> string \<Rightarrow> bool" where
  "has_event_route L s event_id = lru_contains L (rs_routes s) event_id"

definition has_active_routes_for_client :: "'c route_store \<Rightarrow> string \<Rightarrow> bool" where
  "has_active_routes_for_client s client_pubkey =
     (case map_of (rs_client_event_ids s) client_pubkey of Some ids \<Rightarrow> ids \<noteq> [] | None \<Rightarrow> False)"

definition get_event_id_by_progress_token :: "'c route_store \<Rightarrow> string \<Rightarrow> string option" where
  "get_event_id_by_progress_token s token = map_of (rs_progress_token_to_event s) token"

definition has_progress_token :: "'c route_store \<Rightarrow> string \<Rightarrow> bool" where
  "has_progress_token s token = contains_key (rs_progress_token_to_event s) token"

definition event_route_count :: "'c route_lru \<Rightarrow> 'c route_store \<Rightarrow> nat" where
  "event_route_count L s = lru_len L (rs_routes s)"

definition progress_token_count :: "'c route_store \<Rightarrow> nat" where
  "progress_token_count s = length (rs_progress_token_to_event s)"

fun remove_routes :: "'c route_lru \<Rightarrow> string list \<Rightarrow> 'c route_store \<Rightarrow> 'c route_store" where
  "remove_routes L [] s = s"
| "remove_routes L (key # keys) s = remove_routes L keys (fst (remove_route L s key))"

definition sweep_stale_routes ::
  "'c route_lru \<Rightarrow> 'c route_store \<Rightarrow> instant \<Rightarrow> duration \<Rightarrow> 'c route_store \<times> string list" where
  "sweep_stale_routes L s now timeout =
     (let expired_keys = map fst (filter (\<lambda>(key, entry).
            duration_since now (rt_registered_at entry) \<ge> timeout) (lru_iter L (rs_routes s))) in
      (remove_routes L expired_keys s, expired_keys))"

definition clear_routes :: "'c route_lru \<Rightarrow> 'c route_store \<Rightarrow> 'c route_store" where
  "clear_routes L s =
     s\<lparr>rs_routes := lru_clear L (rs_routes s), rs_progress_token_to_event := [],
       rs_client_event_ids := []\<rparr>"

section \<open>Client correlation\<close>

record pending_request =
  pr_original_id :: json
  pr_is_initialize :: bool
  pr_registered_at :: instant
  pr_progress_token :: "json option"

type_synonym 'c pending_lru = "('c, pending_request) lru_ops"

definition with_max_pending :: "'c pending_lru \<Rightarrow> nat \<Rightarrow> 'c" where
  "with_max_pending L max_pending = lru_new L (non_zero max_pending)"

definition register_pending ::
  "'c pending_lru \<Rightarrow> 'c \<Rightarrow> instant \<Rightarrow> string \<Rightarrow> json \<Rightarrow> bool \<Rightarrow> json option \<Rightarrow> 'c" where
  "register_pending L c now event_id original_id is_initialize progress_token =
     fst (lru_push L c event_id
       \<lparr>pr_original_id = original_id, pr_is_initialize = is_initialize, pr_registered_at = now,
        pr_progress_token = progress_token\<rparr>)"

definition is_initialize_request :: "'c pending_lru \<Rightarrow> 'c \<Rightarrow> string \<Rightarrow> bool" where
  "is_initialize_request L c event_id =
     (case lru_peek L c event_id of Some r \<Rightarrow> pr_is_initialize r | None \<Rightarrow> False)"

definition contains_pending :: "'c pending_lru \<Rightarrow> 'c \<Rightarrow> string \<Rightarrow> bool" where
  "contains_pending L c event_id = lru_contains L c event_id"

definition remove_pending :: "'c pending_lru \<Rightarrow> 'c \<Rightarrow> string \<Rightarrow> 'c \<times> pending_request option" where
  "remove_pending L c event_id = lru_pop L c event_id"

definition peek_pending :: "'c pending_lru \<Rightarrow> 'c \<Rightarrow> string \<Rightarrow> pending_request option" where
  "peek_pending L c event_id = lru_peek L c event_id"

definition get_original_id :: "'c pending_lru \<Rightarrow> 'c \<Rightarrow> string \<Rightarrow> json option" where
  "get_original_id L c event_id = map_option pr_original_id (lru_peek L c event_id)"

definition touch_pending :: "'c pending_lru \<Rightarrow> 'c \<Rightarrow> instant \<Rightarrow> string \<Rightarrow> 'c \<times> bool" where
  "touch_pending L c now event_id =
     (lru_modify L c event_id (\<lambda>entry. entry\<lparr>pr_registered_at := now\<rparr>), lru_contains L c event_id)"

definition pending_count :: "'c pending_lru \<Rightarrow> 'c \<Rightarrow> nat" where
  "pending_count L c = lru_len L c"

definition sweep_expired :: "'c pending_lru \<Rightarrow> 'c \<Rightarrow> instant \<Rightarrow> duration \<Rightarrow> 'c \<times> nat" where
  "sweep_expired L c now timeout =
     (let expired_keys = map fst (filter (\<lambda>(key, entry).
            duration_since now (pr_registered_at entry) \<ge> timeout) (lru_iter L c)) in
      (pop_all L expired_keys c, length expired_keys))"

definition clear_pending :: "'c pending_lru \<Rightarrow> 'c \<Rightarrow> 'c" where
  "clear_pending L c = lru_clear L c"

section \<open>Invariant of the server's indexes\<close>

text \<open>
  A Nostr event id commits to its author and its content, so the events that carry one id have one
  client, \<open>owner\<close>, and one progress token, \<open>tok\<close>. Under that, the client index lists exactly the
  routes of each client, and a token leads to a route that carries it; it leads to every such
  route when no two live requests share a token.
\<close>

definition ids_of :: "(string \<rightharpoonup> string list) \<Rightarrow> string \<Rightarrow> string list" where
  "ids_of I c = (case I c of Some ids \<Rightarrow> ids | None \<Rightarrow> [])"

definition client_index_ok :: "(string \<Rightarrow> string) \<Rightarrow> string set \<Rightarrow> (string \<rightharpoonup> string list) \<Rightarrow> bool" where
  "client_index_ok owner D I \<longleftrightarrow>
     (\<forall>c. I c \<noteq> Some [] \<and> distinct (ids_of I c) \<and> set (ids_of I c) = {e \<in> D. owner e = c})"

definition unique_tokens :: "(string \<Rightarrow> string option) \<Rightarrow> bool" where
  "unique_tokens tok \<longleftrightarrow> (\<forall>e e' t. tok e = Some t \<and> tok e' = Some t \<longrightarrow> e = e')"

definition tokens_sound :: "(string \<Rightarrow> string option) \<Rightarrow> string set \<Rightarrow> (string \<rightharpoonup> string) \<Rightarrow> bool" where
  "tokens_sound tok D T \<longleftrightarrow> (\<forall>t e. T t = Some e \<longrightarrow> e \<in> D \<and> tok e = Some t)"

definition tokens_complete ::
  "(string \<Rightarrow> string option) \<Rightarrow> string set \<Rightarrow> (string \<rightharpoonup> string) \<Rightarrow> bool" where
  "tokens_complete tok D T \<longleftrightarrow> (\<forall>e t. e \<in> D \<longrightarrow> tok e = Some t \<longrightarrow> T t = Some e)"

definition token_index_ok :: "(string \<Rightarrow> string option) \<Rightarrow> string set \<Rightarrow> (string \<rightharpoonup> string) \<Rightarrow> bool" where
  "token_index_ok tok D T \<longleftrightarrow> tokens_sound tok D T \<and> (unique_tokens tok \<longrightarrow> tokens_complete tok D T)"

definition routes_typed ::
  "(string \<Rightarrow> string) \<Rightarrow> (string \<Rightarrow> string option) \<Rightarrow> (string \<rightharpoonup> route_entry) \<Rightarrow> bool" where
  "routes_typed owner tok P \<longleftrightarrow>
     (\<forall>e r. P e = Some r \<longrightarrow> rt_client_pubkey r = owner e \<and> rt_progress_token r = tok e)"

definition indexes_ok ::
  "(string \<Rightarrow> string) \<Rightarrow> (string \<Rightarrow> string option) \<Rightarrow> string set \<Rightarrow> 'c route_store \<Rightarrow> bool" where
  "indexes_ok owner tok D s \<longleftrightarrow>
     client_index_ok owner D (map_of (rs_client_event_ids s)) \<and>
     token_index_ok tok D (map_of (rs_progress_token_to_event s))"

lemma ids_of_simps [simp]:
  "ids_of (I(c := None)) c' = (if c' = c then [] else ids_of I c')"
  "ids_of (I(c \<mapsto> ids)) c' = (if c' = c then ids else ids_of I c')"
  "ids_of Map.empty c' = []"
  by (simp_all add: ids_of_def)

lemma client_index_update:
  assumes "client_index_ok owner D I"
    and "ids_of I' k = ids" "I' k \<noteq> Some []"
    and "\<And>c. c \<noteq> k \<Longrightarrow> I' c = I c"
    and "distinct ids" "set ids = {x \<in> D'. owner x = k}"
    and "\<And>x. owner x \<noteq> k \<Longrightarrow> x \<in> D' \<longleftrightarrow> x \<in> D"
  shows "client_index_ok owner D' I'"
  unfolding client_index_ok_def
proof
  fix c
  show "I' c \<noteq> Some [] \<and> distinct (ids_of I' c) \<and> set (ids_of I' c) = {e \<in> D'. owner e = c}"
  proof (cases "c = k")
    case True
    with assms(2,3,5,6) show ?thesis by simp
  next
    case False
    have "{x \<in> D'. owner x = c} = {x \<in> D. owner x = c}" using assms(7) False by blast
    moreover have "ids_of I' c = ids_of I c" using assms(4) [OF False] by (simp add: ids_of_def)
    ultimately show ?thesis
      using assms(1) assms(4) [OF False] unfolding client_index_ok_def by simp
  qed
qed

lemma unique_tokensD: "unique_tokens tok \<Longrightarrow> tok e = Some t \<Longrightarrow> tok e' = Some t \<Longrightarrow> e = e'"
  unfolding unique_tokens_def by blast

lemma token_index_remove:
  assumes "token_index_ok tok D T"
  shows "token_index_ok tok (D - {e}) (case tok e of None \<Rightarrow> T | Some t \<Rightarrow> T(t := None))"
proof -
  have "tokens_sound tok (D - {e}) (case tok e of None \<Rightarrow> T | Some t \<Rightarrow> T(t := None))"
    using assms unfolding token_index_ok_def tokens_sound_def
    by (cases "tok e") (auto split: if_splits)
  moreover have "tokens_complete tok (D - {e}) (case tok e of None \<Rightarrow> T | Some t \<Rightarrow> T(t := None))"
    if "unique_tokens tok"
    using assms that unique_tokensD [OF that] unfolding token_index_ok_def tokens_complete_def
    by (cases "tok e") auto
  ultimately show ?thesis unfolding token_index_ok_def by blast
qed

lemma token_index_insert:
  assumes "token_index_ok tok D T"
  shows "token_index_ok tok (insert e D) (case tok e of None \<Rightarrow> T | Some t \<Rightarrow> T(t \<mapsto> e))"
proof -
  have "tokens_sound tok (insert e D) (case tok e of None \<Rightarrow> T | Some t \<Rightarrow> T(t \<mapsto> e))"
    using assms unfolding token_index_ok_def tokens_sound_def by (cases "tok e") auto
  moreover have "tokens_complete tok (insert e D) (case tok e of None \<Rightarrow> T | Some t \<Rightarrow> T(t \<mapsto> e))"
    if "unique_tokens tok"
    using assms that unique_tokensD [OF that] unfolding token_index_ok_def tokens_complete_def
    by (cases "tok e") auto
  ultimately show ?thesis unfolding token_index_ok_def by blast
qed

lemma cleanup_indexes_routes [simp]: "rs_routes (cleanup_indexes s e r) = rs_routes s"
  by (simp add: cleanup_indexes_def Let_def split: option.splits)

lemma cleanup_indexes_ok:
  assumes "indexes_ok owner tok D s" "rt_client_pubkey r = owner e" "rt_progress_token r = tok e"
  shows "indexes_ok owner tok (D - {e}) (cleanup_indexes s e r)"
proof -
  let ?s = "cleanup_indexes s e r"
  let ?I = "map_of (rs_client_event_ids s)"
  have ok: "client_index_ok owner D ?I" using assms(1) by (simp add: indexes_ok_def)
  have I: "map_of (rs_client_event_ids ?s) =
      (case ?I (owner e) of
         None \<Rightarrow> ?I
       | Some ids \<Rightarrow>
           if removeAll e ids = [] then ?I(owner e := None)
           else ?I(owner e \<mapsto> removeAll e ids))"
    using assms(2) by (simp add: cleanup_indexes_def Let_def split: option.splits)
  have ids: "distinct (ids_of ?I (owner e))" "set (ids_of ?I (owner e)) = {x \<in> D. owner x = owner e}"
    using ok by (simp_all add: client_index_ok_def)
  have "client_index_ok owner (D - {e}) (map_of (rs_client_event_ids ?s))"
  proof (rule client_index_update [OF ok, of _ "owner e" "removeAll e (ids_of ?I (owner e))"])
    show "ids_of (map_of (rs_client_event_ids ?s)) (owner e) = removeAll e (ids_of ?I (owner e))"
      unfolding I by (simp add: ids_of_def split: option.splits)
    show "map_of (rs_client_event_ids ?s) (owner e) \<noteq> Some []"
      unfolding I by (simp add: ids_of_def split: option.splits)
    show "map_of (rs_client_event_ids ?s) c = ?I c" if "c \<noteq> owner e" for c
      unfolding I using that by (simp split: option.splits)
    show "set (removeAll e (ids_of ?I (owner e))) = {x \<in> D - {e}. owner x = owner e}"
      using ids(2) by auto
    show "distinct (removeAll e (ids_of ?I (owner e)))" using ids(1) by (rule distinct_removeAll)
  qed auto
  moreover have "map_of (rs_progress_token_to_event ?s) =
      (case tok e of None \<Rightarrow> map_of (rs_progress_token_to_event s)
       | Some t \<Rightarrow> (map_of (rs_progress_token_to_event s))(t := None))"
    using assms(3) by (simp add: cleanup_indexes_def Let_def split: option.splits)
  ultimately show ?thesis
    using assms(1) token_index_remove by (simp add: indexes_ok_def)
qed

lemma client_index_insert:
  assumes ok: "client_index_ok owner D I"
  shows "client_index_ok owner (insert e D) (I(owner e \<mapsto> List.insert e (ids_of I (owner e))))"
proof (rule client_index_update [OF ok, of _ "owner e" "List.insert e (ids_of I (owner e))"])
  show "set (List.insert e (ids_of I (owner e))) = {x \<in> insert e D. owner x = owner e}"
    using ok by (auto simp: client_index_ok_def)
  show "distinct (List.insert e (ids_of I (owner e)))"
    using ok by (simp add: client_index_ok_def)
  show "(I(owner e \<mapsto> List.insert e (ids_of I (owner e)))) (owner e) \<noteq> Some []"
    by (auto simp: List.insert_def)
qed auto

lemma indexes_ok_routes [simp]: "indexes_ok owner tok D (s\<lparr>rs_routes := c\<rparr>) = indexes_ok owner tok D s"
  by (simp add: indexes_ok_def)

definition routes_inv ::
  "'c route_lru \<Rightarrow> ('c \<Rightarrow> bool) \<Rightarrow> (string \<Rightarrow> string) \<Rightarrow> (string \<Rightarrow> string option) \<Rightarrow> 'c route_store \<Rightarrow> bool"
where
  "routes_inv L valid owner tok s \<longleftrightarrow>
     valid (rs_routes s) \<and> routes_typed owner tok (lru_peek L (rs_routes s)) \<and>
     indexes_ok owner tok (dom (lru_peek L (rs_routes s))) s"

lemma indexes_ok_empty:
  "rs_client_event_ids s = [] \<Longrightarrow> rs_progress_token_to_event s = [] \<Longrightarrow> indexes_ok owner tok {} s"
  by (simp add: indexes_ok_def client_index_ok_def token_index_ok_def tokens_sound_def
      tokens_complete_def)

lemma routes_typed_empty: "routes_typed owner tok Map.empty"
  by (simp add: routes_typed_def)

section \<open>The routes as a map\<close>

text \<open>
  The specification the store implements: one partial map from event ids to routes. A registration
  may drop one other route, whatever the cache evicts; every other operation acts on exactly the
  routes it names, and reports them.
\<close>

datatype route_op =
    Register_Route instant string string json "string option"
  | Pop_Route string
  | Remove_For_Client string
  | Sweep_Stale_Routes instant duration
  | Clear_Routes

datatype route_out =
    Route_Done
  | Route_Popped "route_entry option"
  | Routes_Removed nat
  | Routes_Swept "string list"

fun route_step :: "'c route_lru \<Rightarrow> 'c route_store \<Rightarrow> route_op \<Rightarrow> 'c route_store \<times> route_out" where
  "route_step L s (Register_Route now e c rid t) = (register_route L s now e c rid t, Route_Done)"
| "route_step L s (Pop_Route e) = map_prod id Route_Popped (pop_route L s e)"
| "route_step L s (Remove_For_Client c) = map_prod id Routes_Removed (remove_for_client L s c)"
| "route_step L s (Sweep_Stale_Routes now timeout) =
     map_prod id Routes_Swept (sweep_stale_routes L s now timeout)"
| "route_step L s Clear_Routes = (clear_routes L s, Route_Done)"

type_synonym route_map = "string \<rightharpoonup> route_entry"

definition new_route :: "instant \<Rightarrow> string \<Rightarrow> json \<Rightarrow> string option \<Rightarrow> route_entry" where
  "new_route now c rid t =
     \<lparr>rt_client_pubkey = c, rt_original_request_id = rid, rt_progress_token = t,
      rt_wrap_kind = None, rt_registered_at = now\<rparr>"

inductive route_spec :: "route_op \<Rightarrow> route_map \<Rightarrow> route_map \<Rightarrow> route_out \<Rightarrow> bool" where
  register: "route_spec (Register_Route now e c rid t) M (M(e \<mapsto> new_route now c rid t)) Route_Done"
| evict: "M e = None \<Longrightarrow> M x \<noteq> None \<Longrightarrow>
    route_spec (Register_Route now e c rid t) M (M(x := None, e \<mapsto> new_route now c rid t)) Route_Done"
| pop: "route_spec (Pop_Route e) M (M(e := None)) (Route_Popped (M e))"
| remove: "ids = {e. \<exists>r. M e = Some r \<and> rt_client_pubkey r = c} \<Longrightarrow>
    route_spec (Remove_For_Client c) M (M |` (- ids)) (Routes_Removed (card ids))"
| sweep: "distinct keys \<Longrightarrow>
    set keys = {e. \<exists>r. M e = Some r \<and> timeout \<le> duration_since now (rt_registered_at r)} \<Longrightarrow>
    route_spec (Sweep_Stale_Routes now timeout) M (M |` (- set keys)) (Routes_Swept keys)"
| clear: "route_spec Clear_Routes M Map.empty Route_Done"

inductive route_spec_run :: "route_op list \<Rightarrow> route_map \<Rightarrow> route_map \<Rightarrow> route_out list \<Rightarrow> bool" where
  spec_done: "route_spec_run [] M M []"
| spec_step: "route_spec op M M1 out \<Longrightarrow> route_spec_run ops M1 M2 outs \<Longrightarrow>
    route_spec_run (op # ops) M M2 (out # outs)"

fun route_op_ok :: "(string \<Rightarrow> string) \<Rightarrow> (string \<Rightarrow> string option) \<Rightarrow> route_op \<Rightarrow> bool" where
  "route_op_ok owner tok (Register_Route now e c rid t) \<longleftrightarrow> c = owner e \<and> t = tok e"
| "route_op_ok owner tok _ \<longleftrightarrow> True"

locale route_lru = lru L valid for L :: "('c, route_entry) lru_ops" and valid
begin

lemma remove_route_sim:
  assumes inv: "routes_inv L valid owner tok s"
  shows "routes_inv L valid owner tok (fst (remove_route L s e))"
    and "lru_peek L (rs_routes (fst (remove_route L s e))) = (lru_peek L (rs_routes s))(e := None)"
    and "snd (remove_route L s e) = lru_peek L (rs_routes s) e"
proof -
  let ?M = "lru_peek L (rs_routes s)"
  obtain c r where pop: "lru_pop L (rs_routes s) e = (c, r)" by fastforce
  have v: "valid (rs_routes s)" and ok: "indexes_ok owner tok (dom ?M) s"
    and typed: "routes_typed owner tok ?M"
    using inv by (simp_all add: routes_inv_def)
  have c: "valid c" "lru_peek L c = ?M(e := None)" "r = ?M e"
    using pop_valid [OF v, of e] pop_peek [OF v, of e] by (simp_all add: pop)
  have typed': "routes_typed owner tok (?M(e := None))" using typed by (simp add: routes_typed_def)
  have "indexes_ok owner tok (dom ?M - {e}) (fst (remove_route L s e))"
  proof (cases r)
    case None
    then have "e \<notin> dom ?M" using c by auto
    with None ok show ?thesis by (simp add: remove_route_def pop)
  next
    case (Some route)
    then have "rt_client_pubkey route = owner e" "rt_progress_token route = tok e"
      using typed c unfolding routes_typed_def by metis+
    with Some ok show ?thesis by (simp add: remove_route_def pop cleanup_indexes_ok)
  qed
  moreover have routes: "rs_routes (fst (remove_route L s e)) = c" "snd (remove_route L s e) = r"
    by (simp_all add: remove_route_def pop split: option.splits)
  ultimately show "routes_inv L valid owner tok (fst (remove_route L s e))"
    using c typed' by (simp add: routes_inv_def)
  show "lru_peek L (rs_routes (fst (remove_route L s e))) = ?M(e := None)"
    and "snd (remove_route L s e) = ?M e"
    using routes c by simp_all
qed

lemma remove_routes_sim:
  assumes "routes_inv L valid owner tok s"
  shows "routes_inv L valid owner tok (remove_routes L keys s)"
    and "lru_peek L (rs_routes (remove_routes L keys s)) = lru_peek L (rs_routes s) |` (- set keys)"
  using assms
proof (induction keys arbitrary: s)
  case (Cons key keys)
  { case 1 with Cons.IH(1) remove_route_sim(1) show ?case by simp }
  { case 2 with Cons.IH(2) remove_route_sim [OF 2] show ?case
      by (auto simp: restrict_map_def fun_eq_iff) }
qed (simp_all add: restrict_map_def)

lemma register_route_sim:
  assumes inv: "routes_inv L valid owner tok s"
    and key: "c = owner e" "t = tok e"
  shows "routes_inv L valid owner tok (register_route L s now e c rid t) \<and>
    route_spec (Register_Route now e c rid t) (lru_peek L (rs_routes s))
      (lru_peek L (rs_routes (register_route L s now e c rid t))) Route_Done"
proof -
  let ?M = "lru_peek L (rs_routes s)"
  let ?r = "new_route now c rid t"
  define s2 where "s2 = s\<lparr>
      rs_client_event_ids := AList.update c (List.insert e (ids_of (map_of (rs_client_event_ids s)) c))
        (rs_client_event_ids s),
      rs_progress_token_to_event :=
        (case t of Some token \<Rightarrow> AList.update token e (rs_progress_token_to_event s)
         | None \<Rightarrow> rs_progress_token_to_event s)\<rparr>"
  obtain C x where push: "lru_push L (rs_routes s) e ?r = (C, x)" by fastforce
  have v: "valid (rs_routes s)" and ok: "indexes_ok owner tok (dom ?M) s"
    and typed: "routes_typed owner tok ?M"
    using inv by (simp_all add: routes_inv_def)
  have reg: "register_route L s now e c rid t =
      (case x of
         Some (k, w) \<Rightarrow> if k \<noteq> e then cleanup_indexes (s2\<lparr>rs_routes := C\<rparr>) k w else s2\<lparr>rs_routes := C\<rparr>
       | None \<Rightarrow> s2\<lparr>rs_routes := C\<rparr>)"
    using push
    by (cases t) (simp_all add: register_route_def s2_def new_route_def ids_of_def split: option.splits)
  have C: "valid C" using push_valid [OF v, of e ?r] by (simp add: push)
  have ok2: "indexes_ok owner tok (insert e (dom ?M)) s2"
    using ok client_index_insert [of owner "dom ?M" _ e] token_index_insert [of tok "dom ?M" _ e]
    by (cases t) (simp_all add: indexes_ok_def s2_def key)
  have typed2: "routes_typed owner tok (?M(e \<mapsto> ?r))"
    using typed by (simp add: routes_typed_def new_route_def key)
  from push_result [OF v, of e ?r] consider
      (upd) w where "x = Some (e, w)" "?M e = Some w" "lru_peek L C = ?M(e \<mapsto> ?r)"
    | (new) "x = None" "?M e = None" "lru_peek L C = ?M(e \<mapsto> ?r)"
    | (evict) k w where "k \<noteq> e" "x = Some (k, w)" "?M e = None" "?M k = Some w"
        "lru_peek L C = ?M(k := None, e \<mapsto> ?r)"
    by (auto simp: push)
  then show ?thesis
  proof cases
    case upd
    then show ?thesis
      using C ok2 typed2 by (simp add: reg routes_inv_def route_spec.register)
  next
    case new
    then show ?thesis
      using C ok2 typed2 by (simp add: reg routes_inv_def route_spec.register)
  next
    case evict
    have w: "rt_client_pubkey w = owner k" "rt_progress_token w = tok k"
      using typed evict(4) unfolding routes_typed_def by metis+
    have dom: "dom (?M(k := None, e \<mapsto> ?r)) = insert e (dom ?M) - {k}" using evict(1) by auto
    have typed3: "routes_typed owner tok (?M(k := None, e \<mapsto> ?r))"
      using typed2 unfolding routes_typed_def by simp
    have "indexes_ok owner tok (insert e (dom ?M) - {k}) (cleanup_indexes (s2\<lparr>rs_routes := C\<rparr>) k w)"
      using ok2 w by (intro cleanup_indexes_ok) simp_all
    with evict typed3 C dom show ?thesis
      by (simp add: reg routes_inv_def route_spec.evict)
  qed
qed

lemma pop_client_routes_sim:
  assumes "valid (rs_routes s)" "routes_typed owner tok (lru_peek L (rs_routes s))"
    and "token_index_ok tok (dom (lru_peek L (rs_routes s))) (map_of (rs_progress_token_to_event s))"
  shows "valid (rs_routes (pop_client_routes L ids s)) \<and>
    rs_client_event_ids (pop_client_routes L ids s) = rs_client_event_ids s \<and>
    lru_peek L (rs_routes (pop_client_routes L ids s)) = lru_peek L (rs_routes s) |` (- set ids) \<and>
    token_index_ok tok (dom (lru_peek L (rs_routes s)) - set ids)
      (map_of (rs_progress_token_to_event (pop_client_routes L ids s)))"
  using assms
proof (induction ids arbitrary: s)
  case Nil
  then show ?case by (simp add: restrict_map_def)
next
  case (Cons e ids)
  let ?M = "lru_peek L (rs_routes s)"
  obtain c r where pop: "lru_pop L (rs_routes s) e = (c, r)" by fastforce
  define N where "N = ?M(e := None)"
  have c: "valid c" "lru_peek L c = N" "r = ?M e" and domN: "dom N = dom ?M - {e}"
    using pop_valid [OF Cons.prems(1), of e] pop_peek [OF Cons.prems(1), of e]
    by (simp_all add: pop N_def)
  define s1 where "s1 = s\<lparr>rs_routes := c, rs_progress_token_to_event :=
      (case r of None \<Rightarrow> rs_progress_token_to_event s
       | Some route \<Rightarrow> (case rt_progress_token route of
           None \<Rightarrow> rs_progress_token_to_event s
         | Some t \<Rightarrow> AList.delete t (rs_progress_token_to_event s)))\<rparr>"
  have run: "pop_client_routes L (e # ids) s = pop_client_routes L ids s1"
    by (cases r) (simp_all add: pop s1_def split: option.split)
  have "token_index_ok tok (dom ?M - {e}) (map_of (rs_progress_token_to_event s1))"
  proof (cases r)
    case None
    then have "e \<notin> dom ?M" using c by auto
    with None Cons.prems(3) show ?thesis by (simp add: s1_def)
  next
    case (Some route)
    then have "rt_progress_token route = tok e"
      using Cons.prems(2) c unfolding routes_typed_def by metis
    then show ?thesis
      using Some token_index_remove [OF Cons.prems(3), of e] by (cases "tok e") (simp_all add: s1_def)
  qed
  moreover have "routes_typed owner tok N"
    using Cons.prems(2) by (simp add: routes_typed_def N_def)
  moreover have "rs_routes s1 = c" by (simp add: s1_def)
  ultimately have "valid (rs_routes (pop_client_routes L ids s1)) \<and>
    rs_client_event_ids (pop_client_routes L ids s1) = rs_client_event_ids s1 \<and>
    lru_peek L (rs_routes (pop_client_routes L ids s1)) = N |` (- set ids) \<and>
    token_index_ok tok (dom N - set ids)
      (map_of (rs_progress_token_to_event (pop_client_routes L ids s1)))"
    using Cons.IH [of s1] c domN by simp
  moreover have "N |` (- set ids) = ?M |` (- set (e # ids))"
    by (auto simp: restrict_map_def N_def)
  moreover have "dom N - set ids = dom ?M - set (e # ids)" using domN by auto
  moreover have "rs_client_event_ids s1 = rs_client_event_ids s" by (simp add: s1_def)
  ultimately show ?case unfolding run by simp
qed

lemma remove_for_client_sim:
  assumes inv: "routes_inv L valid owner tok s"
  shows "routes_inv L valid owner tok (fst (remove_for_client L s c)) \<and>
    route_spec (Remove_For_Client c) (lru_peek L (rs_routes s))
      (lru_peek L (rs_routes (fst (remove_for_client L s c))))
      (Routes_Removed (snd (remove_for_client L s c)))"
proof -
  let ?M = "lru_peek L (rs_routes s)" and ?I = "map_of (rs_client_event_ids s)"
  let ?s = "s\<lparr>rs_client_event_ids := AList.delete c (rs_client_event_ids s)\<rparr>"
  define ids where "ids = ids_of ?I c"
  have typed: "routes_typed owner tok ?M" and v: "valid (rs_routes s)"
    and ci: "client_index_ok owner (dom ?M) ?I"
    and ti: "token_index_ok tok (dom ?M) (map_of (rs_progress_token_to_event s))"
    using inv by (simp_all add: routes_inv_def indexes_ok_def)
  have ids: "distinct ids" "set ids = {e \<in> dom ?M. owner e = c}"
    using ci by (simp_all add: client_index_ok_def ids_def)
  have owned: "{e. \<exists>r. ?M e = Some r \<and> rt_client_pubkey r = c} = set ids"
    using typed unfolding ids(2) routes_typed_def by auto
  have card: "length ids = card {e. \<exists>r. ?M e = Some r \<and> rt_client_pubkey r = c}"
    unfolding owned using ids(1) by (simp add: distinct_card)
  have res: "remove_for_client L s c = (pop_client_routes L ids ?s, length ids) \<or>
      ids = [] \<and> remove_for_client L s c = (s, 0)"
    by (simp add: remove_for_client_def ids_def ids_of_def split: option.splits)
  have none: "client_index_ok owner (dom ?M - set ids) (?I(c := None))"
    by (rule client_index_update [OF ci, of _ c "[]"]) (auto simp: ids(2))
  have typed': "routes_typed owner tok (?M |` (- set ids))"
    using typed by (simp add: routes_typed_def restrict_map_def)
  have dom: "dom (?M |` (- set ids)) = dom ?M - set ids" by auto
  have spec: "route_spec (Remove_For_Client c) ?M (?M |` (- set ids)) (Routes_Removed (length ids))"
    unfolding card owned [symmetric] by (rule route_spec.remove) simp
  from res show ?thesis
  proof
    assume r: "remove_for_client L s c = (pop_client_routes L ids ?s, length ids)"
    have sim: "valid (rs_routes (pop_client_routes L ids ?s)) \<and>
        rs_client_event_ids (pop_client_routes L ids ?s) = AList.delete c (rs_client_event_ids s) \<and>
        lru_peek L (rs_routes (pop_client_routes L ids ?s)) = ?M |` (- set ids) \<and>
        token_index_ok tok (dom ?M - set ids)
          (map_of (rs_progress_token_to_event (pop_client_routes L ids ?s)))"
      using pop_client_routes_sim [of ?s owner tok ids] v typed ti by simp
    then show ?thesis
      using spec none typed' dom by (simp add: r routes_inv_def indexes_ok_def)
  next
    assume "ids = [] \<and> remove_for_client L s c = (s, 0)"
    then show ?thesis using spec inv by (simp add: restrict_map_def)
  qed
qed

lemma sweep_stale_routes_sim:
  assumes inv: "routes_inv L valid owner tok s"
  shows "routes_inv L valid owner tok (fst (sweep_stale_routes L s now timeout)) \<and>
    route_spec (Sweep_Stale_Routes now timeout) (lru_peek L (rs_routes s))
      (lru_peek L (rs_routes (fst (sweep_stale_routes L s now timeout))))
      (Routes_Swept (snd (sweep_stale_routes L s now timeout)))"
proof -
  let ?M = "lru_peek L (rs_routes s)"
  define keys where "keys = snd (sweep_stale_routes L s now timeout)"
  have sweep: "sweep_stale_routes L s now timeout = (remove_routes L keys s, keys)"
    by (simp add: keys_def sweep_stale_routes_def Let_def)
  have es: "keys_ok (lru_iter L (rs_routes s))" using inv valid_keys by (simp add: routes_inv_def)
  then have "distinct keys"
    by (simp add: keys_def sweep_stale_routes_def Let_def keys_ok_def distinct_map_filter)
  moreover have "set keys = {e. \<exists>r. ?M e = Some r \<and> timeout \<le> duration_since now (rt_registered_at r)}"
    using es by (force simp: keys_def sweep_stale_routes_def Let_def lru_peek_def keys_ok_def)
  ultimately have "route_spec (Sweep_Stale_Routes now timeout) ?M (?M |` (- set keys)) (Routes_Swept keys)"
    by (rule route_spec.sweep)
  with remove_routes_sim [OF inv, of keys] show ?thesis by (simp add: sweep)
qed

lemma clear_routes_sim:
  assumes "routes_inv L valid owner tok s"
  shows "routes_inv L valid owner tok (clear_routes L s)"
    and "lru_peek L (rs_routes (clear_routes L s)) = Map.empty"
proof -
  show map: "lru_peek L (rs_routes (clear_routes L s)) = Map.empty"
    by (rule ext) (simp add: clear_routes_def clear_peek)
  show "routes_inv L valid owner tok (clear_routes L s)"
    using assms unfolding routes_inv_def map
    by (simp add: clear_routes_def clear_valid indexes_ok_empty routes_typed_empty)
qed

lemma route_step_sim:
  assumes "routes_inv L valid owner tok s" "route_op_ok owner tok op"
  shows "routes_inv L valid owner tok (fst (route_step L s op)) \<and>
    route_spec op (lru_peek L (rs_routes s)) (lru_peek L (rs_routes (fst (route_step L s op))))
      (snd (route_step L s op))"
proof (cases op)
  case (Register_Route now e c rid t)
  then show ?thesis using assms register_route_sim by simp
next
  case (Pop_Route e)
  then show ?thesis
    using remove_route_sim [OF assms(1), of e] by (simp add: pop_route_def route_spec.pop)
next
  case (Remove_For_Client c)
  then show ?thesis using remove_for_client_sim [OF assms(1), of c] by simp
next
  case (Sweep_Stale_Routes now timeout)
  then show ?thesis using sweep_stale_routes_sim [OF assms(1), of now timeout] by simp
next
  case Clear_Routes
  then show ?thesis using clear_routes_sim [OF assms(1)] by (simp add: route_spec.clear)
qed

lemma with_max_routes_inv: "routes_inv L valid owner tok (with_max_routes L n)"
proof -
  have "lru_peek L (rs_routes (with_max_routes L n)) = Map.empty"
    by (rule ext) (simp add: with_max_routes_def new_peek)
  then show ?thesis
    unfolding routes_inv_def
    by (simp add: with_max_routes_def new_valid non_zero_def indexes_ok_empty routes_typed_empty)
qed

lemma routes_run_sim:
  assumes "routes_inv L valid owner tok s" "list_all (route_op_ok owner tok) ops"
    and "run_steps (route_step L) s ops = (s', outs)"
  shows "routes_inv L valid owner tok s' \<and>
    route_spec_run ops (lru_peek L (rs_routes s)) (lru_peek L (rs_routes s')) outs"
  using assms
proof (induction ops arbitrary: s outs)
  case Nil
  then show ?case by (simp add: route_spec_run.spec_done)
next
  case (Cons op ops)
  obtain s1 out where step: "route_step L s op = (s1, out)" by fastforce
  obtain outs' where run: "run_steps (route_step L) s1 ops = (s', outs')" "outs = out # outs'"
    using Cons.prems(3) by (auto simp: step split: prod.splits)
  have "routes_inv L valid owner tok s1 \<and>
      route_spec op (lru_peek L (rs_routes s)) (lru_peek L (rs_routes s1)) out"
    using route_step_sim [of owner tok s op] Cons.prems(1,2) by (simp add: step)
  with Cons.IH [OF _ _ run(1)] Cons.prems(2) show ?case
    unfolding run(2) by (auto intro: route_spec_run.spec_step)
qed

lemma remove_route_cap: "lru_cap L (rs_routes (fst (remove_route L s e))) = lru_cap L (rs_routes s)"
  using pop_cap [of "rs_routes s" e] by (auto simp: remove_route_def split: prod.splits option.splits)

lemma remove_routes_cap: "lru_cap L (rs_routes (remove_routes L keys s)) = lru_cap L (rs_routes s)"
  by (induction keys arbitrary: s) (simp_all add: remove_route_cap)

lemma pop_client_routes_cap:
  "lru_cap L (rs_routes (pop_client_routes L ids s)) = lru_cap L (rs_routes s)"
proof (induction ids arbitrary: s)
  case (Cons e ids)
  then show ?case
    using pop_cap [of "rs_routes s" e] by (auto split: prod.splits option.splits)
qed simp

lemma register_route_cap:
  "lru_cap L (rs_routes (register_route L s now e c rid t)) = lru_cap L (rs_routes s)"
  using push_cap [of "rs_routes s" e "new_route now c rid t"]
  by (cases t; cases "lru_push L (rs_routes s) e (new_route now c rid t)")
    (auto simp: register_route_def new_route_def Let_def split: option.split)

lemma route_step_cap: "lru_cap L (rs_routes (fst (route_step L s op))) = lru_cap L (rs_routes s)"
  by (cases op) (simp_all add: register_route_cap remove_route_cap remove_routes_cap
      pop_client_routes_cap pop_route_def remove_for_client_def sweep_stale_routes_def clear_cap
      clear_routes_def Let_def split: option.split)

lemma routes_run_cap:
  "lru_cap L (rs_routes (fst (run_steps (route_step L) s ops))) = lru_cap L (rs_routes s)"
proof (induction ops arbitrary: s)
  case (Cons op ops)
  then show ?case using route_step_cap [of s op] by (simp add: split_beta Let_def)
qed simp

lemma routes_inv_active:
  assumes "routes_inv L valid owner tok s"
  shows "has_active_routes_for_client s c \<longleftrightarrow>
    (\<exists>e r. lru_peek L (rs_routes s) e = Some r \<and> rt_client_pubkey r = c)"
proof -
  let ?I = "map_of (rs_client_event_ids s)"
  have typed: "routes_typed owner tok (lru_peek L (rs_routes s))"
    and ids: "set (ids_of ?I c) = {e \<in> dom (lru_peek L (rs_routes s)). owner e = c}"
    using assms by (simp_all add: routes_inv_def indexes_ok_def client_index_ok_def)
  have "has_active_routes_for_client s c \<longleftrightarrow> set (ids_of ?I c) \<noteq> {}"
    by (auto simp: has_active_routes_for_client_def ids_of_def ex_in_conv split: option.splits)
  with typed show ?thesis unfolding ids routes_typed_def by auto
qed

lemma routes_inv_tokens:
  assumes "routes_inv L valid owner tok s"
  shows "get_event_id_by_progress_token s t = Some e \<Longrightarrow>
      \<exists>r. lru_peek L (rs_routes s) e = Some r \<and> rt_progress_token r = Some t"
    and "unique_tokens tok \<Longrightarrow> lru_peek L (rs_routes s) e = Some r \<Longrightarrow>
      rt_progress_token r = Some t \<Longrightarrow> get_event_id_by_progress_token s t = Some e"
proof -
  let ?M = "lru_peek L (rs_routes s)"
  have typed: "\<And>e r. ?M e = Some r \<Longrightarrow> rt_progress_token r = tok e"
    and ok: "token_index_ok tok (dom ?M) (map_of (rs_progress_token_to_event s))"
    using assms unfolding routes_inv_def indexes_ok_def routes_typed_def by blast+
  show "\<exists>r. ?M e = Some r \<and> rt_progress_token r = Some t"
    if "get_event_id_by_progress_token s t = Some e"
    using that ok typed unfolding token_index_ok_def tokens_sound_def get_event_id_by_progress_token_def
    by (metis domD)
  show "get_event_id_by_progress_token s t = Some e"
    if "unique_tokens tok" "?M e = Some r" "rt_progress_token r = Some t"
    using that ok typed [OF that(2)]
    unfolding token_index_ok_def tokens_complete_def get_event_id_by_progress_token_def
    by (simp add: domI)
qed

end

interpretation route_list: route_lru list_lru list_lru_valid
  by unfold_locales

section \<open>Properties\<close>


definition demo_routes :: "route_op list" where
  "demo_routes =
     [Register_Route 0 ''e1'' ''pk'' (JNumber (PosInt 1)) (Some ''t1''),
      Register_Route 5 ''e2'' ''pk'' (JNumber (PosInt 2)) None,
      Register_Route 7 ''e3'' ''qk'' (JNumber (PosInt 3)) (Some ''t3''),
      Sweep_Stale_Routes 9 4]"

definition demo_owner :: "string \<Rightarrow> string" where
  "demo_owner e = (if e = ''e3'' then ''qk'' else ''pk'')"

definition demo_token :: "string \<Rightarrow> string option" where
  "demo_token e = (if e = ''e1'' then Some ''t1'' else if e = ''e3'' then Some ''t3'' else None)"


text \<open>
  C35. The token index is keyed by the token alone, so the end of one request takes away the token of
  another: when two live routes carry the same progress token, popping the first leaves the second
  in place and without a token entry.
\<close>
theorem pop_drops_shared_token:
  assumes L: "route_lru L valid"
    and inv: "routes_inv L valid owner tok s"
    and first: "get_route L s e1 = Some r1" "rt_progress_token r1 = Some t"
    and second: "get_route L s e2 = Some r2" "rt_progress_token r2 = Some t" "e1 \<noteq> e2"
  shows "get_route L (fst (pop_route L s e1)) e2 = Some r2 \<and>
    \<not> has_progress_token (fst (pop_route L s e1)) t"
proof -
  note lru = route_lru.axioms [OF L]
  have v: "valid (rs_routes s)" using inv by (simp add: routes_inv_def)
  obtain c r where pop: "lru_pop L (rs_routes s) e1 = (c, r)" by fastforce
  have "r = Some r1" using lru.pop_peek(2) [OF lru v, of e1] first by (simp add: pop get_route_def)
  then have "\<not> has_progress_token (fst (pop_route L s e1)) t"
    using first by (simp add: has_progress_token_def contains_key_def pop_route_def remove_route_def
        pop cleanup_indexes_def Let_def split: option.split)
  then show ?thesis
    using route_lru.remove_route_sim(2) [OF L inv, of e1] second
    by (simp add: pop_route_def get_route_def)
qed

definition shared_token_store :: "route_entry lru_list route_store" where
  "shared_token_store =
     fst (run_steps (route_step list_lru) (with_max_routes list_lru 8)
       [Register_Route 0 ''e1'' ''pk'' (JNumber (PosInt 1)) (Some ''t''),
        Register_Route 1 ''e2'' ''qk'' (JNumber (PosInt 1)) (Some ''t'')])"

lemma shared_token_store_inv:
  "routes_inv list_lru list_lru_valid (\<lambda>e. if e = ''e1'' then ''pk'' else ''qk'') (\<lambda>e. Some ''t'')
     shared_token_store"
  unfolding shared_token_store_def
  by (rule conjunct1 [OF route_list.routes_run_sim [OF route_list.with_max_routes_inv _ prod.collapse [symmetric]]])
    code_simp

theorem pop_drops_shared_token_witness:
  "get_route list_lru (fst (pop_route list_lru shared_token_store ''e1'')) ''e2'' =
     Some (new_route 1 ''qk'' (JNumber (PosInt 1)) (Some ''t'')) \<and>
   \<not> has_progress_token (fst (pop_route list_lru shared_token_store ''e1'')) ''t''"
proof -
  have e1: "get_route list_lru shared_token_store ''e1'' =
      Some (new_route 0 ''pk'' (JNumber (PosInt 1)) (Some ''t''))"
    and e2: "get_route list_lru shared_token_store ''e2'' =
      Some (new_route 1 ''qk'' (JNumber (PosInt 1)) (Some ''t''))"
    by code_simp+
  have t: "rt_progress_token (new_route n c rid (Some ''t'')) = Some ''t''" for n c rid
    by (simp add: new_route_def)
  show ?thesis
    by (rule pop_drops_shared_token [OF route_list.route_lru_axioms shared_token_store_inv e1 t e2 t])
      simp
qed

definition expired_pending :: "'c pending_lru \<Rightarrow> 'c \<Rightarrow> instant \<Rightarrow> duration \<Rightarrow> string set" where
  "expired_pending L c now timeout =
     {e. \<exists>r. peek_pending L c e = Some r \<and> timeout \<le> duration_since now (pr_registered_at r)}"

text \<open>
  The client's sweep of its pending requests removes exactly the requests registered at least
  \<open>timeout\<close> before \<open>now\<close>, reports how many there were, and keeps every other one, so a request
  touched at most \<open>timeout\<close> ago survives.
\<close>
theorem sweep_expired_exact:
  fixes L :: "'c pending_lru"
  assumes L: "lru L valid" and v: "valid c"
  shows "peek_pending L (fst (sweep_expired L c now timeout)) =
      peek_pending L c |` (- expired_pending L c now timeout) \<and>
    snd (sweep_expired L c now timeout) = card (expired_pending L c now timeout) \<and>
    pending_count L (fst (sweep_expired L c now timeout)) =
      pending_count L c - card (expired_pending L c now timeout)"
proof -
  let ?X = "expired_pending L c now timeout"
  define keys where "keys = map fst (filter (\<lambda>(key, entry).
      duration_since now (pr_registered_at entry) \<ge> timeout) (lru_iter L c))"
  have sweep: "sweep_expired L c now timeout = (pop_all L keys c, length keys)"
    by (simp add: sweep_expired_def keys_def)
  have ok: "keys_ok (lru_iter L c)" using lru.valid_keys [OF L v] .
  have peek: "peek_pending L c' = lru_peek L c'" for c' by (rule ext) (simp add: peek_pending_def)
  have keys: "set keys = ?X" "distinct keys"
    using ok by (force simp: keys_def expired_pending_def peek lru_peek_def keys_ok_def,
        simp add: keys_def keys_ok_def distinct_map_filter)
  have dom: "?X \<subseteq> dom (lru_peek L c)" by (auto simp: expired_pending_def peek)
  have "finite (dom (lru_peek L c))" by (simp add: lru_peek_fun finite_dom_map_of)
  then have "card (dom (lru_peek L c |` (- ?X))) = card (dom (lru_peek L c)) - card ?X"
    using dom by (simp add: card_Diff_subset finite_subset Diff_eq [symmetric])
  then show ?thesis
    using keys lru.pop_all_peek [OF L v, of keys] lru.len_card [OF L v]
      lru.len_card [OF L lru.pop_all_valid [OF L v], of keys] distinct_card [of keys]
    by (simp add: sweep peek pending_count_def)
qed

definition demo_pending :: "pending_request lru_list" where
  "demo_pending =
     fst (touch_pending list_lru
       (register_pending list_lru
         (register_pending list_lru (with_max_pending list_lru 8) 0 ''e1'' (JNumber (PosInt 1)) True None)
         0 ''e2'' (JNumber (PosInt 2)) False None) 6 ''e2'')"

theorem sweep_expired_exact_witness:
  "lru list_lru (list_lru_valid :: pending_request lru_list \<Rightarrow> bool) \<and> list_lru_valid demo_pending \<and>
   snd (sweep_expired list_lru demo_pending 10 5) =
     card (expired_pending list_lru demo_pending 10 5) \<and>
   snd (sweep_expired list_lru demo_pending 10 5) = 1"
proof -
  have v: "list_lru_valid demo_pending" by code_simp
  have n: "snd (sweep_expired list_lru demo_pending 10 5) = 1" by code_simp
  show ?thesis
    using sweep_expired_exact [OF list_lru.lru_axioms v, of 10 5] v n list_lru.lru_axioms by simp
qed

end
