(* ===== verification/Client_Payments.thy ===== *)
theory Client_Payments
  imports Payments Route_Store
begin

text \<open>
  The client's payment engine (\<open>src/payments/client_payments.rs\<close>). The transport calls it with every
  outgoing request, every correlated payment notification and every terminal response; the engine
  keeps requests alive while they are paid for, drives the wallet handlers, and retries requests the
  server gated.

  The hooks are functions on the engine's state. A spawned task is an entry of \<open>ce_tasks\<close> with what it
  waits for, and \<open>engine_step\<close> resumes one task with what it waited for: the verdict of the policy
  or of the handler, the outcome of the payment, the application's approval, the end of a delay or of
  a send, a tick. A task that was told to stop finds its token among the cancelled ones. What the
  engine hands to the consumer, to the wallet or to the network is recorded in \<open>ce_out\<close>.
\<close>

section \<open>Configuration\<close>

definition RAW_REQUEST_CACHE_CAPACITY :: nat where "RAW_REQUEST_CACHE_CAPACITY = 1000"
definition DEFAULT_MAX_PENDING_RETRIES :: nat where "DEFAULT_MAX_PENDING_RETRIES = 10"

record payment_handler =
  ph_pmi :: string
  ph_id :: nat

record client_payments_options =
  cpo_handlers :: "payment_handler list"
  cpo_synthetic_progress_interval :: duration
  cpo_default_payment_ttl :: duration
  cpo_payment_policy :: bool
  cpo_payment_interaction :: "payment_interaction_mode option"
  cpo_max_pending_retries :: nat
  cpo_on_payment_required :: bool

definition client_payments_options_new :: client_payments_options where
  "client_payments_options_new =
     \<lparr>cpo_handlers = [],
      cpo_synthetic_progress_interval = from_millis DEFAULT_SYNTHETIC_PROGRESS_INTERVAL_MS,
      cpo_default_payment_ttl = from_millis DEFAULT_PAYMENT_TTL_MS, cpo_payment_policy = False,
      cpo_payment_interaction = None, cpo_max_pending_retries = DEFAULT_MAX_PENDING_RETRIES,
      cpo_on_payment_required = False\<rparr>"

definition is_payment_notification_method :: "string \<Rightarrow> bool" where
  "is_payment_notification_method method \<longleftrightarrow>
     method = PAYMENT_REQUIRED_METHOD \<or> method = PAYMENT_ACCEPTED_METHOD \<or> method = PAYMENT_REJECTED_METHOD"

section \<open>State\<close>

record cached_request =
  cr_request :: json_rpc_request
  cr_pending_retries :: nat

record heartbeat_entry =
  hb_stop_at :: instant
  hb_token :: json

record payment_handler_request =
  phr_amount :: int
  phr_pay_req :: string
  phr_pmi :: string
  phr_description :: "string option"
  phr_ttl :: "u64 option"
  phr_meta :: "meta option"
  phr_request_event_id :: string

record payment_chain =
  ch_handler :: payment_handler
  ch_request :: payment_handler_request
  ch_entry :: pending_request

datatype engine_task =
    Awaiting_Policy payment_chain
  | Awaiting_Can_Handle payment_chain
  | Awaiting_Wallet payment_chain
  | Awaiting_Approval json_rpc_request json
  | Awaiting_Paid_Send
  | Awaiting_Backoff json_rpc_request json duration
  | Awaiting_Retry_Send json
  | Touching string instant

datatype engine_effect =
    To_Consumer json_rpc_message
  | Wallet_Pays payment_handler payment_handler_request
  | Sends json_rpc_request

record 'c engine =
  ce_handlers_by_pmi :: "(string, payment_handler) hash_map"
  ce_touch_cadence :: duration
  ce_in_flight_pay_reqs :: "string list"
  ce_raw_request_cache :: 'c
  ce_heartbeats :: "(string, heartbeat_entry) hash_map"
  ce_scheduler_running :: bool
  ce_touch_loops :: "(string, nat) hash_map"
  ce_cancelled :: bool
  ce_stopped :: "nat list"
  ce_next :: nat
  ce_tasks :: "(nat \<times> engine_task) list"
  ce_out :: "engine_effect list"

type_synonym 'c raw_lru = "('c, cached_request) lru_ops"

definition build_handlers_by_pmi :: "payment_handler list \<Rightarrow> (string, payment_handler) hash_map" where
  "build_handlers_by_pmi handlers = fold (\<lambda>h m. AList.update (ph_pmi h) h m) handlers []"

definition engine_new :: "'c raw_lru \<Rightarrow> client_payments_options \<Rightarrow> duration \<Rightarrow> 'c engine" where
  "engine_new L options correlation_timeout =
     \<lparr>ce_handlers_by_pmi = build_handlers_by_pmi (cpo_handlers options),
      ce_touch_cadence = min (cpo_synthetic_progress_interval options) (correlation_timeout div 2),
      ce_in_flight_pay_reqs = [], ce_raw_request_cache = lru_new L RAW_REQUEST_CACHE_CAPACITY,
      ce_heartbeats = [], ce_scheduler_running = False, ce_touch_loops = [], ce_cancelled = False,
      ce_stopped = [], ce_next = 0, ce_tasks = [], ce_out = []\<rparr>"

section \<open>Helpers\<close>

definition cache_key :: "ext \<Rightarrow> json \<Rightarrow> string" where
  "cache_key X i = json_to_string X i"

definition token_key :: "ext \<Rightarrow> json \<Rightarrow> string" where
  "token_key X token = json_to_string X token"

text \<open>
  The backoff is computed in floating point. For a non-zero \<open>retry_after\<close> every value below the cap of
  ten seconds has at most five factors 1.5 and is exact, so the truncated result is the integer
  below. With more than 1750 retries the power is infinite; times a zero \<open>retry_after\<close> it is not a
  number, and \<open>min\<close> then answers the cap. Retry counts are below \<open>2 ^ 31\<close>.
\<close>

definition compute_backoff :: "u64 \<Rightarrow> nat \<Rightarrow> duration" where
  "compute_backoff retry_after_secs retries =
     (let capped_ms =
        (if retry_after_secs = 0 \<and> 1750 < retries then 10000
         else min 10000 (unat retry_after_secs * 1000 * 3 ^ retries div 2 ^ retries)) in
      max capped_ms 1000 * 1000000)"

definition normalized_raw :: "json_rpc_error_response \<Rightarrow> json \<Rightarrow> json_rpc_message" where
  "normalized_raw err original_id = ErrorResponse (err\<lparr>ers_id := original_id\<rparr>)"

definition capability_of :: "json_rpc_request \<Rightarrow> string option" where
  "capability_of request =
     (case req_params request of
        None \<Rightarrow> None
      | Some params \<Rightarrow>
          (case (case json_get params ''name'' of Some v \<Rightarrow> Some v | None \<Rightarrow> json_get params ''uri'') of
             None \<Rightarrow> None
           | Some v \<Rightarrow> json_as_str v))"

definition to_consumer :: "json_rpc_message \<Rightarrow> 'c engine \<Rightarrow> 'c engine" where
  "to_consumer message s = s\<lparr>ce_out := ce_out s @ [To_Consumer message]\<rparr>"

definition spawn :: "engine_task \<Rightarrow> 'c engine \<Rightarrow> 'c engine" where
  "spawn task s = s\<lparr>ce_tasks := (ce_next s, task) # ce_tasks s, ce_next := Suc (ce_next s)\<rparr>"

definition synthesize_error :: "json \<Rightarrow> int \<Rightarrow> string \<Rightarrow> json option \<Rightarrow> 'c engine \<Rightarrow> 'c engine" where
  "synthesize_error i code message data s =
     to_consumer (ErrorResponse \<lparr>ers_jsonrpc = ''2.0'', ers_id = i,
       ers_error = \<lparr>err_code = code, err_message = message, err_data = data\<rparr>\<rparr>) s"

definition synthesize_decline ::
  "ext \<Rightarrow> 'c raw_lru \<Rightarrow> pending_request \<Rightarrow> string \<Rightarrow> string \<Rightarrow> int \<Rightarrow> 'c engine \<Rightarrow> 'c engine" where
  "synthesize_decline X L entry message pmi amount s =
     (let context = (case lru_peek L (ce_raw_request_cache s) (cache_key X (pr_original_id entry)) of
            None \<Rightarrow> []
          | Some cached \<Rightarrow>
              (''method'', JString (req_method (cr_request cached))) #
              opt_entry ''capability'' JString (capability_of (cr_request cached))) in
      synthesize_error (pr_original_id entry) (- 32000) message
        (Some (JObject ([(''pmi'', JString pmi), (''amount'', json_of_i64 amount)] @ context))) s)"

section \<open>Keep-alives\<close>

definition emit_beat :: "json \<Rightarrow> 'c engine \<Rightarrow> 'c engine" where
  "emit_beat token s =
     to_consumer (Notification \<lparr>ntf_jsonrpc = ''2.0'', ntf_method = ''notifications/progress'',
       ntf_params = Some (JObject [(''progressToken'', token), (''progress'', JNumber (PosInt 0))])\<rparr>) s"

definition ensure_scheduler :: "'c engine \<Rightarrow> 'c engine" where
  "ensure_scheduler s =
     (if ce_scheduler_running s \<or> ce_heartbeats s = [] then s else s\<lparr>ce_scheduler_running := True\<rparr>)"

text \<open>
  \<open>Instant + Duration\<close> panics when the seconds leave the 64-bit signed range of the monotonic clock.
  A panic unwinds to the caller and leaves what was done before it: \<open>Panicked\<close> next to the state.
\<close>

definition instant_add :: "instant \<Rightarrow> duration \<Rightarrow> instant option" where
  "instant_add now d = (if (now + d) div 1000000000 < 2 ^ 63 then Some (now + d) else None)"

definition register_heartbeat ::
  "ext \<Rightarrow> instant \<Rightarrow> json \<Rightarrow> duration \<Rightarrow> 'c engine \<Rightarrow> 'c engine \<times> unit call" where
  "register_heartbeat X now token ttl s =
     (if contains_key (ce_heartbeats s) (token_key X token) then (s, Returned ())
      else
        (case instant_add now ttl of
           None \<Rightarrow> (s, Panicked)
         | Some stop_at \<Rightarrow>
             (ensure_scheduler (emit_beat token
                (s\<lparr>ce_heartbeats := AList.update (token_key X token)
                    \<lparr>hb_stop_at = stop_at, hb_token = token\<rparr> (ce_heartbeats s)\<rparr>)), Returned ())))"

text \<open>One tick of the shared scheduler; it ends when no heartbeat is left or the engine is disposed.\<close>

definition scheduler_tick :: "instant \<Rightarrow> 'c engine \<Rightarrow> 'c engine" where
  "scheduler_tick now s =
     (if \<not> ce_scheduler_running s then s
      else if ce_cancelled s then s\<lparr>ce_scheduler_running := False\<rparr>
      else
        let entries = filter (\<lambda>(k, e). now < hb_stop_at e) (ce_heartbeats s);
            s1 = s\<lparr>ce_heartbeats := entries\<rparr> in
        if entries = [] then s1\<lparr>ce_scheduler_running := False\<rparr>
        else fold emit_beat (map (hb_token \<circ> snd) entries) s1)"

definition stop_heartbeat :: "ext \<Rightarrow> json \<Rightarrow> 'c engine \<Rightarrow> 'c engine" where
  "stop_heartbeat X token s = s\<lparr>ce_heartbeats := AList.delete (token_key X token) (ce_heartbeats s)\<rparr>"

definition start_touch_loop :: "instant \<Rightarrow> string \<Rightarrow> duration \<Rightarrow> 'c engine \<Rightarrow> 'c engine \<times> unit call" where
  "start_touch_loop now event_id ttl s =
     (if contains_key (ce_touch_loops s) event_id then (s, Returned ())
      else
        let s1 = s\<lparr>ce_touch_loops := AList.update event_id (ce_next s) (ce_touch_loops s)\<rparr> in
        case instant_add now ttl of
          None \<Rightarrow> (s1\<lparr>ce_next := Suc (ce_next s)\<rparr>, Panicked)
        | Some stop_at \<Rightarrow> (spawn (Touching event_id stop_at) s1, Returned ()))"

definition start_keepalives ::
  "ext \<Rightarrow> instant \<Rightarrow> string \<Rightarrow> pending_request \<Rightarrow> duration \<Rightarrow> 'c engine \<Rightarrow> 'c engine \<times> unit call" where
  "start_keepalives X now event_id entry ttl s =
     (if ttl = 0 then (s, Returned ())
      else
        (case (case pr_progress_token entry of
                 Some token \<Rightarrow> register_heartbeat X now token ttl s | None \<Rightarrow> (s, Returned ())) of
           (s1, Panicked) \<Rightarrow> (s1, Panicked)
         | (s1, Returned _) \<Rightarrow> start_touch_loop now event_id ttl s1))"

text \<open>One round of a touch loop: \<open>touched\<close> is whether the pending entry was still there.\<close>

definition touch_round :: "nat \<Rightarrow> instant \<Rightarrow> bool \<Rightarrow> string \<Rightarrow> instant \<Rightarrow> 'c engine \<Rightarrow> 'c engine" where
  "touch_round n now touched event_id stop_at s =
     (if ce_cancelled s \<or> n \<in> set (ce_stopped s) \<or> stop_at \<le> now \<or> \<not> touched
      then s\<lparr>ce_tasks := AList.delete n (ce_tasks s),
             ce_touch_loops := AList.delete event_id (ce_touch_loops s)\<rparr>
      else s)"

definition stop_touch_loop :: "string \<Rightarrow> 'c engine \<Rightarrow> 'c engine" where
  "stop_touch_loop event_id s =
     (case map_of (ce_touch_loops s) event_id of
        Some token \<Rightarrow>
          s\<lparr>ce_touch_loops := AList.delete event_id (ce_touch_loops s), ce_stopped := token # ce_stopped s\<rparr>
      | None \<Rightarrow> s)"

definition stop_keepalives :: "ext \<Rightarrow> string \<Rightarrow> pending_request option \<Rightarrow> 'c engine \<Rightarrow> 'c engine" where
  "stop_keepalives X event_id entry s =
     (let s1 = stop_touch_loop event_id s in
      case Option.bind entry pr_progress_token of
        Some token \<Rightarrow> stop_heartbeat X token s1
      | None \<Rightarrow> s1)"

section \<open>Hooks\<close>

definition cache_raw_request :: "ext \<Rightarrow> 'c raw_lru \<Rightarrow> json_rpc_message \<Rightarrow> 'c engine \<Rightarrow> 'c engine" where
  "cache_raw_request X L message s =
     (case message of
        Request req \<Rightarrow>
          let key = cache_key X (req_id req);
              pending_retries = (case lru_peek L (ce_raw_request_cache s) key of
                                   Some c \<Rightarrow> cr_pending_retries c | None \<Rightarrow> 0) in
          s\<lparr>ce_raw_request_cache := lru_put L (ce_raw_request_cache s) key
              \<lparr>cr_request = req, cr_pending_retries = pending_retries\<rparr>\<rparr>
      | _ \<Rightarrow> s)"

definition from_secs :: "u64 \<Rightarrow> duration" where
  "from_secs secs = unat secs * 1000000000"

definition handler_request :: "payment_required_params \<Rightarrow> string \<Rightarrow> payment_handler_request" where
  "handler_request params correlated_event_id =
     \<lparr>phr_amount = prq_amount params, phr_pay_req = prq_pay_req params, phr_pmi = prq_pmi params,
      phr_description = prq_description params, phr_ttl = prq_ttl params, phr_meta = prq_meta params,
      phr_request_event_id = correlated_event_id\<rparr>"

definition start_payment ::
  "client_payments_options \<Rightarrow> payment_required_params \<Rightarrow> string \<Rightarrow> pending_request \<Rightarrow> 'c engine \<Rightarrow> 'c engine"
where
  "start_payment options params correlated_event_id pending s =
     (case map_of (ce_handlers_by_pmi s) (prq_pmi params) of
        None \<Rightarrow> s
      | Some handler \<Rightarrow>
          if prq_pay_req params \<in> set (ce_in_flight_pay_reqs s) then s
          else
            let chain = \<lparr>ch_handler = handler,
                  ch_request = handler_request params correlated_event_id, ch_entry = pending\<rparr> in
            spawn (if cpo_payment_policy options then Awaiting_Policy chain else Awaiting_Can_Handle chain)
              (s\<lparr>ce_in_flight_pay_reqs := prq_pay_req params # ce_in_flight_pay_reqs s\<rparr>))"

definition on_payment_required_notification ::
  "ext \<Rightarrow> 'c raw_lru \<Rightarrow> client_payments_options \<Rightarrow> instant \<Rightarrow> json_rpc_notification \<Rightarrow> string \<Rightarrow>
   pending_request option \<Rightarrow> bool \<Rightarrow> bool \<Rightarrow> 'c engine \<Rightarrow> 'c engine \<times> unit call" where
  "on_payment_required_notification X L options now notif correlated_event_id entry requested_gating
     effective_gating s =
     (case entry of
        None \<Rightarrow> (s, Returned ())
      | Some pending \<Rightarrow>
          (case Option.bind (ntf_params notif) payment_required_params_of_value of
             None \<Rightarrow> (s, Returned ())
           | Some params \<Rightarrow>
               if requested_gating \<and> \<not> effective_gating
               then (synthesize_decline X L pending
                      ''Payment declined: explicit_gating was not accepted by the server''
                      (prq_pmi params) (prq_amount params) s, Returned ())
               else
                 let ttl = (case prq_ttl params of
                              Some secs \<Rightarrow> from_secs secs | None \<Rightarrow> cpo_default_payment_ttl options) in
                 (case start_keepalives X now correlated_event_id pending ttl s of
                    (s1, Panicked) \<Rightarrow> (s1, Panicked)
                  | (s1, Returned _) \<Rightarrow>
                      (start_payment options params correlated_event_id pending s1, Returned ()))))"

definition handle_payment_notification ::
  "ext \<Rightarrow> 'c raw_lru \<Rightarrow> client_payments_options \<Rightarrow> instant \<Rightarrow> json_rpc_notification \<Rightarrow> string \<Rightarrow>
   pending_request option \<Rightarrow> bool \<Rightarrow> bool \<Rightarrow> 'c engine \<Rightarrow> 'c engine \<times> bool call" where
  "handle_payment_notification X L options now notif correlated_event_id entry requested_gating
     effective_gating s =
     (if ntf_method notif = PAYMENT_REQUIRED_METHOD
      then (case on_payment_required_notification X L options now notif correlated_event_id entry
                   requested_gating effective_gating s of
              (s1, Panicked) \<Rightarrow> (s1, Panicked)
            | (s1, Returned _) \<Rightarrow> (s1, Returned True))
      else if ntf_method notif = PAYMENT_ACCEPTED_METHOD
      then (stop_keepalives X correlated_event_id entry s, Returned True)
      else if ntf_method notif = PAYMENT_REJECTED_METHOD
      then
        let s1 = stop_keepalives X correlated_event_id entry s in
        (case entry of
           Some pending \<Rightarrow>
             let message = Option.bind (Option.bind (ntf_params notif) payment_rejected_params_of_value)
                             prj_message in
             (synthesize_error (pr_original_id pending) (- 32000)
                (case message of Some msg \<Rightarrow> ''Payment rejected: '' @ msg | None \<Rightarrow> ''Payment rejected'') None s1,
              Returned False)
         | None \<Rightarrow> (s1, Returned True))
      else (s, Returned True))"

definition intercept_payment_required_error ::
  "ext \<Rightarrow> 'c raw_lru \<Rightarrow> client_payments_options \<Rightarrow> pending_request \<Rightarrow> json_rpc_error_response \<Rightarrow>
   'c engine \<Rightarrow> 'c engine \<times> json_rpc_message option" where
  "intercept_payment_required_error X L options entry err s =
     (let original_id = pr_original_id entry in
      if \<not> cpo_on_payment_required options then (s, Some (normalized_raw err original_id))
      else
        let (c, cached) = lru_get L (ce_raw_request_cache s) (cache_key X original_id);
            s1 = s\<lparr>ce_raw_request_cache := c\<rparr> in
        case cached of
          None \<Rightarrow> (s1, Some (normalized_raw err original_id))
        | Some cached_request \<Rightarrow> (spawn (Awaiting_Approval (cr_request cached_request) original_id) s1, None))"

definition intercept_payment_pending_error ::
  "ext \<Rightarrow> 'c raw_lru \<Rightarrow> client_payments_options \<Rightarrow> pending_request \<Rightarrow> json_rpc_error_response \<Rightarrow> u64 \<Rightarrow>
   'c engine \<Rightarrow> 'c engine \<times> json_rpc_message option" where
  "intercept_payment_pending_error X L options entry err retry_after s =
     (let original_id = pr_original_id entry; key = cache_key X original_id;
          bump = (\<lambda>c. if cpo_max_pending_retries options \<le> cr_pending_retries c then c
                      else c\<lparr>cr_pending_retries := cr_pending_retries c + 1\<rparr>) in
      case lru_peek L (ce_raw_request_cache s) key of
        None \<Rightarrow> (s, Some (normalized_raw err original_id))
      | Some cached \<Rightarrow>
          let retries = cr_pending_retries cached;
              s1 = s\<lparr>ce_raw_request_cache := lru_modify L (ce_raw_request_cache s) key bump\<rparr> in
          if cpo_max_pending_retries options \<le> retries
          then (s1, Some (normalized_raw err original_id))
          else (spawn (Awaiting_Backoff (cr_request cached) original_id
                        (compute_backoff retry_after retries)) s1, None))"

definition on_terminal_response ::
  "ext \<Rightarrow> 'c raw_lru \<Rightarrow> client_payments_options \<Rightarrow> pending_request option \<Rightarrow> string option \<Rightarrow>
   json_rpc_message \<Rightarrow> 'c engine \<Rightarrow> 'c engine \<times> json_rpc_message option" where
  "on_terminal_response X L options entry correlated_event_id message s =
     (let s1 = (case correlated_event_id of Some event_id \<Rightarrow> stop_touch_loop event_id s | None \<Rightarrow> s);
          s2 = (case Option.bind entry pr_progress_token of
                  Some token \<Rightarrow> stop_heartbeat X token s1 | None \<Rightarrow> s1);
          deliver = (case entry of
              Some pending \<Rightarrow>
                (s2\<lparr>ce_raw_request_cache :=
                    fst (lru_pop L (ce_raw_request_cache s2) (cache_key X (pr_original_id pending)))\<rparr>,
                 Some message)
            | None \<Rightarrow> (s2, Some message)) in
      case (message, entry) of
        (ErrorResponse err, Some pending) \<Rightarrow>
          if err_code (ers_error err) = PAYMENT_REQUIRED_ERROR_CODE
          then
            (case Option.bind (err_data (ers_error err)) payment_required_error_data_of_value of
               Some data \<Rightarrow>
                 if pre_payment_options data \<noteq> []
                 then intercept_payment_required_error X L options pending err s2 else deliver
             | None \<Rightarrow> deliver)
          else if err_code (ers_error err) = PAYMENT_PENDING_ERROR_CODE
          then
            (case Option.bind (Option.bind (err_data (ers_error err)) payment_pending_error_data_of_value)
                    ppe_retry_after of
               Some retry_after \<Rightarrow> intercept_payment_pending_error X L options pending err retry_after s2
             | None \<Rightarrow> deliver)
          else deliver
      | _ \<Rightarrow> deliver)"

definition dispose_engine :: "'c raw_lru \<Rightarrow> 'c engine \<Rightarrow> 'c engine" where
  "dispose_engine L s =
     s\<lparr>ce_cancelled := True, ce_heartbeats := [],
       ce_stopped := map snd (ce_touch_loops s) @ ce_stopped s, ce_touch_loops := [],
       ce_raw_request_cache := lru_clear L (ce_raw_request_cache s), ce_in_flight_pay_reqs := []\<rparr>"

section \<open>Tasks\<close>

definition finish :: "nat \<Rightarrow> 'c engine \<Rightarrow> 'c engine" where
  "finish n s = s\<lparr>ce_tasks := AList.delete n (ce_tasks s)\<rparr>"

definition continue_as :: "nat \<Rightarrow> engine_task \<Rightarrow> 'c engine \<Rightarrow> 'c engine" where
  "continue_as n task s = s\<lparr>ce_tasks := AList.update n task (ce_tasks s)\<rparr>"

text \<open>The end of a payment chain releases its claim, whether it returned or panicked.\<close>

definition release_claim :: "nat \<Rightarrow> payment_chain \<Rightarrow> 'c engine \<Rightarrow> 'c engine" where
  "release_claim n chain s =
     finish n (s\<lparr>ce_in_flight_pay_reqs :=
       removeAll (phr_pay_req (ch_request chain)) (ce_in_flight_pay_reqs s)\<rparr>)"

definition decline_chain :: "ext \<Rightarrow> 'c raw_lru \<Rightarrow> payment_chain \<Rightarrow> string \<Rightarrow> 'c engine \<Rightarrow> 'c engine" where
  "decline_chain X L chain message s =
     synthesize_decline X L (ch_entry chain) message (phr_pmi (ch_request chain))
       (phr_amount (ch_request chain))
       (stop_keepalives X (phr_request_event_id (ch_request chain)) (Some (ch_entry chain)) s)"

definition chain_policy ::
  "ext \<Rightarrow> 'c raw_lru \<Rightarrow> nat \<Rightarrow> payment_chain \<Rightarrow> bool call \<Rightarrow> 'c engine \<Rightarrow> 'c engine" where
  "chain_policy X L n chain verdict s =
     (case verdict of
        Returned True \<Rightarrow> continue_as n (Awaiting_Can_Handle chain) s
      | Returned False \<Rightarrow>
          release_claim n chain (decline_chain X L chain ''Payment declined by client policy'' s)
      | Panicked \<Rightarrow> release_claim n chain s)"

definition chain_can_handle ::
  "ext \<Rightarrow> 'c raw_lru \<Rightarrow> nat \<Rightarrow> payment_chain \<Rightarrow> bool call \<Rightarrow> 'c engine \<Rightarrow> 'c engine" where
  "chain_can_handle X L n chain verdict s =
     (case verdict of
        Returned True \<Rightarrow>
          continue_as n (Awaiting_Wallet chain)
            (s\<lparr>ce_out := ce_out s @ [Wallet_Pays (ch_handler chain) (ch_request chain)]\<rparr>)
      | Returned False \<Rightarrow>
          release_claim n chain (decline_chain X L chain ''Payment declined by client handler'' s)
      | Panicked \<Rightarrow> release_claim n chain s)"

text \<open>\<open>handle\<close> returned, failed or panicked: nothing is synthesized in any case.\<close>

definition chain_wallet :: "nat \<Rightarrow> payment_chain \<Rightarrow> 'c engine \<Rightarrow> 'c engine" where
  "chain_wallet n chain s = release_claim n chain s"

record payment_approval =
  pap_paid :: bool
  pap_reason :: "string option"

fun payment_error_text :: "payment_error \<Rightarrow> string" where
  "payment_error_text (Processor_Error e) = ''Payment processor error: '' @ e"
| "payment_error_text (Handler_Error e) = ''Payment handler error: '' @ e"
| "payment_error_text (Canonicalize method) =
     ''Failed to canonicalize invocation payload for method '' @ [CHR 0x27] @ method @ [CHR 0x27] @
     ''. Ensure params contain only JSON-serializable values (no circular references, functions, symbols, or BigInt).''"
| "payment_error_text (Serialization_Error e) = ''Payment serialization error: '' @ e"

definition approval_returned ::
  "nat \<Rightarrow> json_rpc_request \<Rightarrow> json \<Rightarrow> (payment_error, payment_approval) result call \<Rightarrow> 'c engine \<Rightarrow> 'c engine"
where
  "approval_returned n request original_id outcome s =
     (case outcome of
        Returned (Ok approval) \<Rightarrow>
          if pap_paid approval
          then continue_as n Awaiting_Paid_Send (s\<lparr>ce_out := ce_out s @ [Sends request]\<rparr>)
          else finish n (synthesize_error original_id PAYMENT_REQUIRED_ERROR_CODE ''Payment Required''
                 (Some (JObject [(''reason'', JString (case pap_reason approval of
                    Some r \<Rightarrow> r | None \<Rightarrow> ''user_cancelled''))])) s)
      | Returned (Err e) \<Rightarrow>
          finish n (synthesize_error original_id PAYMENT_REQUIRED_ERROR_CODE ''Payment Required''
            (Some (JObject [(''reason'', JString (payment_error_text e)),
                            (''type'', JString ''payment_handler_error'')])) s)
      | Panicked \<Rightarrow> finish n s)"

definition backoff_elapsed :: "nat \<Rightarrow> json_rpc_request \<Rightarrow> json \<Rightarrow> 'c engine \<Rightarrow> 'c engine" where
  "backoff_elapsed n request original_id s =
     (if ce_cancelled s then finish n s
      else continue_as n (Awaiting_Retry_Send original_id) (s\<lparr>ce_out := ce_out s @ [Sends request]\<rparr>))"

definition retry_sent :: "nat \<Rightarrow> json \<Rightarrow> string option \<Rightarrow> 'c engine \<Rightarrow> 'c engine" where
  "retry_sent n original_id error s =
     (case error of
        None \<Rightarrow> finish n s
      | Some e \<Rightarrow>
          finish n (synthesize_error original_id PAYMENT_PENDING_ERROR_CODE ''Failed to retry pending request''
            (Some (JObject [(''reason'', JString e)])) s))"

datatype engine_event =
    Out_Request json_rpc_message
  | In_Notification instant json_rpc_notification string "pending_request option" bool bool
  | In_Terminal "pending_request option" "string option" json_rpc_message
  | Policy_Returned nat "bool call"
  | Can_Handle_Returned nat "bool call"
  | Wallet_Returned nat
  | Approval_Returned nat "(payment_error, payment_approval) result call"
  | Paid_Send_Returned nat
  | Backoff_Elapsed nat
  | Retry_Send_Returned nat "string option"
  | Touch_Round nat instant bool
  | Scheduler_Tick instant
  | Dispose_Engine

fun engine_step :: "ext \<Rightarrow> 'c raw_lru \<Rightarrow> client_payments_options \<Rightarrow> 'c engine \<Rightarrow> engine_event \<Rightarrow> 'c engine" where
  "engine_step X L options s (Out_Request message) = cache_raw_request X L message s"
| "engine_step X L options s (In_Notification now notif event_id entry requested effective) =
     fst (handle_payment_notification X L options now notif event_id entry requested effective s)"
| "engine_step X L options s (In_Terminal entry event_id message) =
     fst (on_terminal_response X L options entry event_id message s)"
| "engine_step X L options s (Policy_Returned n verdict) =
     (case map_of (ce_tasks s) n of
        Some (Awaiting_Policy chain) \<Rightarrow> chain_policy X L n chain verdict s | _ \<Rightarrow> s)"
| "engine_step X L options s (Can_Handle_Returned n verdict) =
     (case map_of (ce_tasks s) n of
        Some (Awaiting_Can_Handle chain) \<Rightarrow> chain_can_handle X L n chain verdict s | _ \<Rightarrow> s)"
| "engine_step X L options s (Wallet_Returned n) =
     (case map_of (ce_tasks s) n of Some (Awaiting_Wallet chain) \<Rightarrow> chain_wallet n chain s | _ \<Rightarrow> s)"
| "engine_step X L options s (Approval_Returned n outcome) =
     (case map_of (ce_tasks s) n of
        Some (Awaiting_Approval request original_id) \<Rightarrow> approval_returned n request original_id outcome s
      | _ \<Rightarrow> s)"
| "engine_step X L options s (Paid_Send_Returned n) =
     (case map_of (ce_tasks s) n of Some Awaiting_Paid_Send \<Rightarrow> finish n s | _ \<Rightarrow> s)"
| "engine_step X L options s (Backoff_Elapsed n) =
     (case map_of (ce_tasks s) n of
        Some (Awaiting_Backoff request original_id delay) \<Rightarrow> backoff_elapsed n request original_id s
      | _ \<Rightarrow> s)"
| "engine_step X L options s (Retry_Send_Returned n error) =
     (case map_of (ce_tasks s) n of
        Some (Awaiting_Retry_Send original_id) \<Rightarrow> retry_sent n original_id error s | _ \<Rightarrow> s)"
| "engine_step X L options s (Touch_Round n now touched) =
     (case map_of (ce_tasks s) n of
        Some (Touching event_id stop_at) \<Rightarrow> touch_round n now touched event_id stop_at s | _ \<Rightarrow> s)"
| "engine_step X L options s (Scheduler_Tick now) = scheduler_tick now s"
| "engine_step X L options s Dispose_Engine = dispose_engine L s"

definition engine_run ::
  "ext \<Rightarrow> 'c raw_lru \<Rightarrow> client_payments_options \<Rightarrow> duration \<Rightarrow> engine_event list \<Rightarrow> 'c engine" where
  "engine_run X L options timeout evs =
     foldl (engine_step X L options) (engine_new L options timeout) evs"

section \<open>The ledger of payment chains\<close>

text \<open>
  The abstract view of the engine: the running payment chains, the claimed payment requests and the
  calls of the wallet. Everything else the engine does is a stutter.
\<close>

fun task_chain :: "engine_task \<Rightarrow> payment_chain option" where
  "task_chain (Awaiting_Policy chain) = Some chain"
| "task_chain (Awaiting_Can_Handle chain) = Some chain"
| "task_chain (Awaiting_Wallet chain) = Some chain"
| "task_chain _ = None"

fun is_wallet :: "engine_effect \<Rightarrow> bool" where
  "is_wallet (Wallet_Pays h r) = True"
| "is_wallet _ = False"

definition is_chain :: "nat \<times> engine_task \<Rightarrow> bool" where
  "is_chain nt \<longleftrightarrow> task_chain (snd nt) \<noteq> None"

abbreviation chain_pay_req :: "payment_chain \<Rightarrow> string" where
  "chain_pay_req chain \<equiv> phr_pay_req (ch_request chain)"

record ledger =
  lg_chains :: "(nat \<times> engine_task) list"
  lg_claims :: "string list"
  lg_calls :: "engine_effect list"

definition ledger_of :: "'c engine \<Rightarrow> ledger" where
  "ledger_of s = \<lparr>lg_chains = filter is_chain (ce_tasks s), lg_claims = ce_in_flight_pay_reqs s,
                  lg_calls = filter is_wallet (ce_out s)\<rparr>"

definition offers :: "engine_event \<Rightarrow> payment_handler_request option" where
  "offers ev =
     (case ev of
        In_Notification now notif event_id (Some entry) requested effective \<Rightarrow>
          if ntf_method notif = PAYMENT_REQUIRED_METHOD \<and> \<not> (requested \<and> \<not> effective)
          then map_option (\<lambda>params. handler_request params event_id)
                 (Option.bind (ntf_params notif) payment_required_params_of_value)
          else None
      | _ \<Rightarrow> None)"

inductive ledger_step :: "bool \<Rightarrow> engine_event \<Rightarrow> ledger \<Rightarrow> ledger \<Rightarrow> bool" for policy :: bool where
  Stutter: "ev \<noteq> Dispose_Engine \<Longrightarrow> ledger_step policy ev l l"
| Claim: "offers ev = Some (ch_request chain) \<Longrightarrow> chain_pay_req chain \<notin> set (lg_claims l) \<Longrightarrow>
    n \<notin> fst ` set (lg_chains l) \<Longrightarrow>
    ledger_step policy ev l
      (l\<lparr>lg_chains := (n, if policy then Awaiting_Policy chain else Awaiting_Can_Handle chain) # lg_chains l,
         lg_claims := chain_pay_req chain # lg_claims l\<rparr>)"
| Approve: "map_of (lg_chains l) n = Some (Awaiting_Policy chain) \<Longrightarrow>
    ledger_step policy (Policy_Returned n (Returned True)) l
      (l\<lparr>lg_chains := AList.update n (Awaiting_Can_Handle chain) (lg_chains l)\<rparr>)"
| Pay: "map_of (lg_chains l) n = Some (Awaiting_Can_Handle chain) \<Longrightarrow>
    ledger_step policy (Can_Handle_Returned n (Returned True)) l
      (l\<lparr>lg_chains := AList.update n (Awaiting_Wallet chain) (lg_chains l),
         lg_calls := lg_calls l @ [Wallet_Pays (ch_handler chain) (ch_request chain)]\<rparr>)"
| Release: "map_of (lg_chains l) n = Some t \<Longrightarrow> task_chain t = Some chain \<Longrightarrow> ev \<noteq> Dispose_Engine \<Longrightarrow>
    ledger_step policy ev l
      (l\<lparr>lg_chains := AList.delete n (lg_chains l),
         lg_claims := removeAll (chain_pay_req chain) (lg_claims l)\<rparr>)"
| Forget: "ledger_step policy Dispose_Engine l (l\<lparr>lg_claims := []\<rparr>)"

subsection \<open>What the helpers leave alone\<close>

definition quiet :: "'c engine \<Rightarrow> 'c engine \<Rightarrow> bool" where
  "quiet s s' \<longleftrightarrow> ce_tasks s' = ce_tasks s \<and> ce_next s' = ce_next s \<and>
     ce_in_flight_pay_reqs s' = ce_in_flight_pay_reqs s \<and>
     filter is_wallet (ce_out s') = filter is_wallet (ce_out s)"

definition tasks_ok :: "'c engine \<Rightarrow> bool" where
  "tasks_ok s \<longleftrightarrow> keys_ok (ce_tasks s) \<and> (\<forall>n \<in> fst ` set (ce_tasks s). n < ce_next s)"

lemma quiet_refl [simp]: "quiet s s"
  by (simp add: quiet_def)

lemma quiet_trans: "quiet s s1 \<Longrightarrow> quiet s1 s2 \<Longrightarrow> quiet s s2"
  by (simp add: quiet_def)

lemma quiet_keeps:
  assumes "quiet s s'"
  shows "ledger_of s' = ledger_of s" "tasks_ok s' = tasks_ok s" "map_of (ce_tasks s') = map_of (ce_tasks s)"
  using assms by (simp_all add: quiet_def ledger_of_def tasks_ok_def)

lemma quiet_basic [simp]:
  "quiet s (to_consumer message s)"
  "quiet s (synthesize_error i code text data s)"
  "quiet s (synthesize_decline X L entry text pmi amount s)"
  "quiet s (emit_beat token s)"
  "quiet s (ensure_scheduler s)"
  "quiet s (stop_heartbeat X token s)"
  "quiet s (stop_touch_loop event_id s)"
  "quiet s (stop_keepalives X event_id entry' s)"
  "quiet s (cache_raw_request X L message s)"
  "quiet s (s\<lparr>ce_touch_loops := loops\<rparr>)"
  "quiet s (s\<lparr>ce_raw_request_cache := c\<rparr>)"
  "quiet s (s\<lparr>ce_out := ce_out s @ [Sends request]\<rparr>)"
  by (simp_all add: quiet_def to_consumer_def synthesize_error_def synthesize_decline_def emit_beat_def
      ensure_scheduler_def stop_heartbeat_def stop_touch_loop_def stop_keepalives_def
      cache_raw_request_def Let_def split: option.split json_rpc_message.split)

lemma quiet_decline_chain [simp]: "quiet s (decline_chain X L chain message s)"
  unfolding decline_chain_def by (rule quiet_trans [OF quiet_basic(8) quiet_basic(3)])

lemma quiet_beats: "quiet s (fold emit_beat tokens s)"
proof (induction tokens arbitrary: s)
  case (Cons token tokens)
  show ?case using quiet_trans [OF quiet_basic(4) Cons.IH] by simp
qed simp

lemma quiet_scheduler_tick [simp]: "quiet s (scheduler_tick now s)"
  using quiet_beats [of "s\<lparr>ce_heartbeats := es\<rparr>" for es]
  by (simp add: scheduler_tick_def Let_def quiet_def)

lemma quiet_register_heartbeat [simp]: "quiet s (fst (register_heartbeat X now token ttl s))"
  by (simp add: register_heartbeat_def emit_beat_def ensure_scheduler_def to_consumer_def quiet_def
      split: option.split)

subsection \<open>Changes of the task list\<close>

text \<open>\<open>idle\<close>: task numbers stay unique and the ledger is the same.\<close>

definition idle :: "'c engine \<Rightarrow> 'c engine \<Rightarrow> bool" where
  "idle s s' \<longleftrightarrow> (tasks_ok s \<longrightarrow> tasks_ok s' \<and> ledger_of s' = ledger_of s)"

lemma idle_quiet: "quiet s s' \<Longrightarrow> idle s s'"
  by (simp add: idle_def quiet_keeps)

lemma idle_trans: "idle s s1 \<Longrightarrow> idle s1 s2 \<Longrightarrow> idle s s2"
  by (simp add: idle_def)

lemma tasks_ok_change:
  "tasks_ok s \<Longrightarrow> tasks_ok (spawn task s)"
  "tasks_ok s \<Longrightarrow> map_of (ce_tasks s) n = Some t \<Longrightarrow> tasks_ok (continue_as n t' s)"
  "tasks_ok s \<Longrightarrow> tasks_ok (finish n s)"
proof -
  show "tasks_ok s \<Longrightarrow> tasks_ok (spawn task s)"
    by (auto simp: tasks_ok_def spawn_def keys_ok_def less_Suc_eq)
  show "tasks_ok s \<Longrightarrow> map_of (ce_tasks s) n = Some t \<Longrightarrow> tasks_ok (continue_as n t' s)"
    by (force simp: tasks_ok_def continue_as_def dom_update dest: map_of_SomeD)
  show "tasks_ok s \<Longrightarrow> tasks_ok (finish n s)"
    by (auto simp: tasks_ok_def finish_def AList.delete_eq)
qed

lemma filter_update:
  assumes "map_of xs n = Some t" "P (n, t)" "P (n, t')"
  shows "filter P (AList.update n t' xs) = AList.update n t' (filter P xs)"
  using assms by (induction xs) auto

lemma filter_update_out:
  assumes "map_of xs n = Some t" "\<not> P (n, t)" "\<not> P (n, t')"
  shows "filter P (AList.update n t' xs) = filter P xs"
  using assms by (induction xs) auto

lemma filter_delete: "filter P (AList.delete n xs) = AList.delete n (filter P xs)"
  by (simp add: AList.delete_eq conj_commute)

lemma filter_delete_out:
  assumes "keys_ok xs" "map_of xs n = Some t" "\<not> P (n, t)"
  shows "filter P (AList.delete n xs) = filter P xs"
proof -
  have "fst x \<noteq> n" if "x \<in> set xs" "P x" for x
    using that assms keys_ok_map_of [of xs n "snd x"] by (cases x) auto
  then show ?thesis
    by (fastforce simp: AList.delete_eq intro: filter_cong)
qed

lemma map_of_filter:
  assumes "map_of xs n = Some t" "P (n, t)" "keys_ok xs"
  shows "map_of (filter P xs) n = Some t"
  using assms keys_ok_map_of [of xs n t] keys_ok_map_of [of "filter P xs" n t] by simp

lemma idle_spawn: "task_chain task = None \<Longrightarrow> idle s (spawn task s)"
  by (simp add: idle_def tasks_ok_change) (simp add: ledger_of_def spawn_def is_chain_def)

lemma idle_finish:
  "map_of (ce_tasks s) n = Some t \<Longrightarrow> task_chain t = None \<Longrightarrow> idle s (finish n s)"
  using filter_delete_out [of "ce_tasks s" n t is_chain]
  by (simp add: idle_def tasks_ok_change) (simp add: ledger_of_def finish_def is_chain_def tasks_ok_def)

lemma idle_continue:
  "map_of (ce_tasks s) n = Some t \<Longrightarrow> task_chain t = None \<Longrightarrow> task_chain t' = None \<Longrightarrow>
   idle s (continue_as n t' s)"
  using filter_update_out [of "ce_tasks s" n t is_chain t']
  by (simp add: idle_def tasks_ok_change) (simp add: ledger_of_def continue_as_def is_chain_def)

lemma idle_after_quiet:
  assumes "quiet s s1"
  shows "map_of (ce_tasks s) n = Some t \<Longrightarrow> task_chain t = None \<Longrightarrow> idle s (finish n s1)"
    "map_of (ce_tasks s) n = Some t \<Longrightarrow> task_chain t = None \<Longrightarrow> task_chain t' = None \<Longrightarrow>
      idle s (continue_as n t' s1)"
    "task_chain t' = None \<Longrightarrow> idle s (spawn t' s1)"
  using assms idle_trans [OF idle_quiet [OF assms]] idle_finish [of s1 n t] idle_continue [of s1 n t t']
    idle_spawn [of t' s1]
  by (simp_all add: quiet_keeps)

lemma idle_keepalives: "idle s (fst (start_keepalives X now event_id entry ttl s))"
proof -
  have skip: "idle s1 (s1\<lparr>ce_touch_loops := loops, ce_next := Suc (ce_next s1)\<rparr>)" for s1 :: "'c engine" and loops
    by (auto simp: idle_def tasks_ok_def ledger_of_def)
  have touch: "idle s1 (fst (start_touch_loop now event_id ttl s1))" for s1
    by (simp add: start_touch_loop_def Let_def idle_quiet idle_after_quiet(3) skip split: option.split)
  let ?beat = "case pr_progress_token entry of
      Some token \<Rightarrow> register_heartbeat X now token ttl s | None \<Rightarrow> (s, Returned ())"
  have "idle s (fst ?beat)"
    by (simp add: idle_quiet split: option.split)
  then show ?thesis
    using touch [of "fst ?beat"] idle_trans
    by (cases ?beat) (auto simp: start_keepalives_def idle_quiet split: call.split)
qed

subsection \<open>The engine follows the ledger\<close>

text \<open>\<open>follows\<close>: task numbers stay unique and the ledger makes a step of the event.\<close>

definition follows :: "client_payments_options \<Rightarrow> engine_event \<Rightarrow> 'c engine \<Rightarrow> 'c engine \<Rightarrow> bool" where
  "follows options ev s s' \<longleftrightarrow>
     (tasks_ok s \<longrightarrow> tasks_ok s' \<and> ledger_step (cpo_payment_policy options) ev (ledger_of s) (ledger_of s'))"

lemma follows_idle: "idle s s' \<Longrightarrow> ev \<noteq> Dispose_Engine \<Longrightarrow> follows options ev s s'"
  by (simp add: follows_def idle_def ledger_step.Stutter)

lemma follows_after: "idle s s1 \<Longrightarrow> follows options ev s1 s2 \<Longrightarrow> follows options ev s s2"
  by (auto simp: follows_def idle_def)

lemma follows_release:
  assumes "map_of (ce_tasks s) n = Some t" "task_chain t = Some chain" "ev \<noteq> Dispose_Engine" "quiet s s1"
  shows "follows options ev s (release_claim n chain s1)"
proof (rule follows_after [OF idle_quiet [OF assms(4)]])
  have "ledger_of (release_claim n chain s1) =
      (ledger_of s1)\<lparr>lg_chains := AList.delete n (lg_chains (ledger_of s1)),
        lg_claims := removeAll (chain_pay_req chain) (lg_claims (ledger_of s1))\<rparr>"
    by (simp add: ledger_of_def release_claim_def finish_def filter_delete)
  moreover have "tasks_ok s1 \<Longrightarrow> map_of (lg_chains (ledger_of s1)) n = Some t"
    using assms by (simp add: ledger_of_def map_of_filter tasks_ok_def is_chain_def quiet_keeps)
  moreover have "tasks_ok s1 \<Longrightarrow> tasks_ok (release_claim n chain s1)"
    using tasks_ok_change(3) [of "s1\<lparr>ce_in_flight_pay_reqs := ps\<rparr>" n for ps]
    by (simp add: release_claim_def tasks_ok_def)
  ultimately show "follows options ev s1 (release_claim n chain s1)"
    using assms by (simp add: follows_def ledger_step.Release)
qed

lemma follows_continue:
  assumes "map_of (ce_tasks s) n = Some t" "task_chain t = Some chain" "task_chain t' = Some chain"
    "ce_tasks s1 = ce_tasks s" "ce_next s1 = ce_next s"
    "ce_in_flight_pay_reqs s1 = ce_in_flight_pay_reqs s"
    "map_of (lg_chains (ledger_of s)) n = Some t \<Longrightarrow>
     ledger_step (cpo_payment_policy options) ev (ledger_of s)
       ((ledger_of s)\<lparr>lg_chains := AList.update n t' (lg_chains (ledger_of s)),
          lg_calls := filter is_wallet (ce_out s1)\<rparr>)"
  shows "follows options ev s (continue_as n t' s1)"
proof -
  have "ledger_of (continue_as n t' s1) =
      (ledger_of s)\<lparr>lg_chains := AList.update n t' (lg_chains (ledger_of s)),
        lg_calls := filter is_wallet (ce_out s1)\<rparr>"
    using assms filter_update [of "ce_tasks s" n t is_chain t']
    by (simp add: ledger_of_def continue_as_def is_chain_def)
  moreover have "tasks_ok s \<Longrightarrow> map_of (lg_chains (ledger_of s)) n = Some t"
    using assms by (simp add: ledger_of_def map_of_filter tasks_ok_def is_chain_def)
  moreover have "tasks_ok s \<Longrightarrow> tasks_ok (continue_as n t' s1)"
    using assms tasks_ok_change(2) [of s1 n t t'] by (simp add: tasks_ok_def)
  ultimately show ?thesis
    using assms(7) by (simp add: follows_def)
qed

lemma follows_policy:
  assumes "map_of (ce_tasks s) n = Some (Awaiting_Policy chain)"
  shows "follows options (Policy_Returned n verdict) s (chain_policy X L n chain verdict s)"
proof -
  have "follows options (Policy_Returned n (Returned True)) s
      (continue_as n (Awaiting_Can_Handle chain) s)"
    using assms ledger_step.Approve [of "ledger_of s" n chain]
    by (intro follows_continue) (auto simp: ledger_of_def)
  with assms show ?thesis
    by (auto simp: chain_policy_def follows_release split: call.split bool.split)
qed

lemma follows_can_handle:
  assumes "map_of (ce_tasks s) n = Some (Awaiting_Can_Handle chain)"
  shows "follows options (Can_Handle_Returned n verdict) s (chain_can_handle X L n chain verdict s)"
proof -
  have "follows options (Can_Handle_Returned n (Returned True)) s (continue_as n (Awaiting_Wallet chain)
      (s\<lparr>ce_out := ce_out s @ [Wallet_Pays (ch_handler chain) (ch_request chain)]\<rparr>))"
    using assms ledger_step.Pay [of "ledger_of s" n chain]
    by (intro follows_continue) (auto simp: ledger_of_def)
  with assms show ?thesis
    by (auto simp: chain_can_handle_def follows_release split: call.split bool.split)
qed

lemma follows_claim:
  assumes "offers ev = Some (ch_request chain)" "chain_pay_req chain \<notin> set (ce_in_flight_pay_reqs s)"
  shows "follows options ev s
    (spawn (if cpo_payment_policy options then Awaiting_Policy chain else Awaiting_Can_Handle chain)
      (s\<lparr>ce_in_flight_pay_reqs := chain_pay_req chain # ce_in_flight_pay_reqs s\<rparr>))"
proof -
  have "tasks_ok s \<Longrightarrow> ce_next s \<notin> fst ` set (lg_chains (ledger_of s))"
    by (auto simp: tasks_ok_def ledger_of_def)
  then show ?thesis
    using assms ledger_step.Claim [of ev chain "ledger_of s" "ce_next s" "cpo_payment_policy options"]
      tasks_ok_change(1) [of "s\<lparr>ce_in_flight_pay_reqs := chain_pay_req chain # ce_in_flight_pay_reqs s\<rparr>"]
    by (auto simp: follows_def ledger_of_def spawn_def tasks_ok_def is_chain_def)
qed

lemma follows_start_payment:
  assumes "offers ev = Some (handler_request params event_id)"
  shows "follows options ev s (start_payment options params event_id pending s)"
proof -
  have "ev \<noteq> Dispose_Engine" using assms by (auto simp: offers_def)
  then show ?thesis
    using assms follows_claim [of ev "\<lparr>ch_handler = handler,
        ch_request = handler_request params event_id, ch_entry = pending\<rparr>" s options for handler]
    by (auto simp: start_payment_def Let_def follows_idle idle_quiet handler_request_def split: option.split)
qed

lemma follows_notification:
  "follows options (In_Notification now notif event_id entry requested effective) s
     (fst (handle_payment_notification X L options now notif event_id entry requested effective s))"
  (is "follows options ?ev s _")
proof (cases "ntf_method notif = PAYMENT_REQUIRED_METHOD")
  case True
  have "follows options ?ev s
      (fst (on_payment_required_notification X L options now notif event_id entry requested effective s))"
  proof (cases "\<exists>pending params. entry = Some pending \<and>
      Option.bind (ntf_params notif) payment_required_params_of_value = Some params \<and>
      \<not> (requested \<and> \<not> effective)")
    case offered: True
    then obtain pending params where p: "entry = Some pending"
        "Option.bind (ntf_params notif) payment_required_params_of_value = Some params"
        "\<not> (requested \<and> \<not> effective)"
      by blast
    then have "offers ?ev = Some (handler_request params event_id)" using True by (simp add: offers_def)
    then have pay: "follows options ?ev s1 (start_payment options params event_id pending s1)" for s1
      by (rule follows_start_payment)
    let ?ttl = "case prq_ttl params of Some secs \<Rightarrow> from_secs secs | None \<Rightarrow> cpo_default_payment_ttl options"
    obtain s1 r where k: "start_keepalives X now event_id pending ?ttl s = (s1, r)"
      by (cases "start_keepalives X now event_id pending ?ttl s")
    have "idle s s1" using idle_keepalives [of s X now event_id pending ?ttl] k by simp
    then show ?thesis
      using p k follows_after [OF _ pay, of s s1] follows_idle [of s s1 ?ev options]
      by (cases r) (auto simp: on_payment_required_notification_def Let_def)
  next
    case False
    then show ?thesis
      by (auto simp: on_payment_required_notification_def Let_def
          intro!: follows_idle idle_quiet split: option.split)
  qed
  with True show ?thesis
    by (auto simp: handle_payment_notification_def split: prod.split call.split)
next
  case False
  have "quiet s (synthesize_error i code msg d (stop_keepalives X event_id entry s))" for i code msg d
    by (rule quiet_trans [OF quiet_basic(8) quiet_basic(2)])
  with False show ?thesis
    by (auto simp: handle_payment_notification_def Let_def intro!: follows_idle idle_quiet split: option.split)
qed

lemma idle_terminal: "idle s (fst (on_terminal_response X L options entry event_id message s))"
proof -
  have required: "idle s2 (fst (intercept_payment_required_error X L options pending err s2))" for pending err s2
    by (auto simp: intercept_payment_required_error_def Let_def idle_quiet idle_after_quiet(3)
        split: prod.split option.split)
  have pending: "idle s2 (fst (intercept_payment_pending_error X L options pending err secs s2))"
    for pending err secs s2
    by (auto simp: intercept_payment_pending_error_def Let_def idle_quiet idle_after_quiet(3)
        split: option.split)
  let ?s1 = "case event_id of Some event_id \<Rightarrow> stop_touch_loop event_id s | None \<Rightarrow> s"
  let ?s2 = "case Option.bind entry pr_progress_token of
      Some token \<Rightarrow> stop_heartbeat X token ?s1 | None \<Rightarrow> ?s1"
  have "quiet s ?s1" "quiet ?s1 ?s2" by (simp_all split: option.split)
  then have "idle s ?s2" by (intro idle_quiet) (rule quiet_trans)
  moreover have "idle ?s2 (fst (on_terminal_response X L options entry event_id message s))"
    using required pending
    by (auto simp: on_terminal_response_def Let_def intro!: idle_quiet
        split: json_rpc_message.split option.split)
  ultimately show ?thesis by (rule idle_trans)
qed

lemma engine_step_follows: "follows options ev s (engine_step X L options s ev)"
proof (cases ev)
  case (Touch_Round n now touched)
  have "idle s (touch_round n now touched event_id stop_at s)"
    if "map_of (ce_tasks s) n = Some (Touching event_id stop_at)" for event_id stop_at
  proof -
    have "touch_round n now touched event_id stop_at s =
        (if ce_cancelled s \<or> n \<in> set (ce_stopped s) \<or> stop_at \<le> now \<or> \<not> touched
         then finish n (s\<lparr>ce_touch_loops := AList.delete event_id (ce_touch_loops s)\<rparr>) else s)"
      by (simp add: touch_round_def finish_def)
    then show ?thesis
      using that by (simp add: idle_quiet idle_after_quiet(1))
  qed
  with Touch_Round show ?thesis
    by (auto simp: follows_idle idle_quiet split: option.split engine_task.split)
next
  case Dispose_Engine
  show ?thesis
    using ledger_step.Forget [of "cpo_payment_policy options" "ledger_of s"]
    by (simp add: Dispose_Engine follows_def dispose_engine_def ledger_of_def tasks_ok_def)
qed (auto simp: follows_policy follows_can_handle follows_notification follows_release idle_terminal
    chain_wallet_def approval_returned_def backoff_elapsed_def retry_sent_def
    follows_idle idle_quiet idle_after_quiet
    split: option.split engine_task.split call.split sum.split)

subsection \<open>Invariants of the ledger\<close>

definition running :: "string \<Rightarrow> nat \<times> engine_task \<Rightarrow> bool" where
  "running pay_req nt \<longleftrightarrow>
     (case task_chain (snd nt) of Some chain \<Rightarrow> chain_pay_req chain = pay_req | None \<Rightarrow> False)"

lemma running_simps [simp]:
  "running pay_req (n, Awaiting_Policy chain) \<longleftrightarrow> chain_pay_req chain = pay_req"
  "running pay_req (n, Awaiting_Can_Handle chain) \<longleftrightarrow> chain_pay_req chain = pay_req"
  "running pay_req (n, Awaiting_Wallet chain) \<longleftrightarrow> chain_pay_req chain = pay_req"
  by (simp_all add: running_def)

fun unpaid :: "engine_task \<Rightarrow> bool" where
  "unpaid (Awaiting_Wallet chain) = False"
| "unpaid _ = True"

fun ready_to_pay :: "engine_task \<Rightarrow> bool" where
  "ready_to_pay (Awaiting_Can_Handle chain) = True"
| "ready_to_pay _ = False"

fun pays :: "string \<Rightarrow> engine_effect \<Rightarrow> bool" where
  "pays pay_req (Wallet_Pays h request) = (phr_pay_req request = pay_req)"
| "pays pay_req _ = False"

definition offers_for :: "string \<Rightarrow> engine_event \<Rightarrow> bool" where
  "offers_for pay_req ev \<longleftrightarrow>
     (case offers ev of Some request \<Rightarrow> phr_pay_req request = pay_req | None \<Rightarrow> False)"

fun approves :: "engine_event \<Rightarrow> bool" where
  "approves (Policy_Returned n (Returned True)) = True"
| "approves _ = False"

definition claims_ok :: "ledger \<Rightarrow> bool" where
  "claims_ok l \<longleftrightarrow> (\<forall>p. occurs (running p) (lg_chains l) = (if p \<in> set (lg_claims l) then 1 else 0))"

definition paid_or_due :: "string \<Rightarrow> ledger \<Rightarrow> nat" where
  "paid_or_due p l =
     occurs (pays p) (lg_calls l) + occurs (\<lambda>nt. running p nt \<and> unpaid (snd nt)) (lg_chains l)"

definition paid_or_ready :: "ledger \<Rightarrow> nat" where
  "paid_or_ready l = length (lg_calls l) + occurs (ready_to_pay \<circ> snd) (lg_chains l)"

definition requests_in :: "ledger \<Rightarrow> payment_handler_request set" where
  "requests_in l = {r. \<exists>h. Wallet_Pays h r \<in> set (lg_calls l)} \<union>
     {ch_request chain |chain t n. (n, t) \<in> set (lg_chains l) \<and> task_chain t = Some chain}"

lemma ledger_keys:
  assumes "ledger_step policy ev l l'" "keys_ok (lg_chains l)"
  shows "keys_ok (lg_chains l')"
  using assms by cases (simp_all add: keys_ok_def distinct_update distinct_delete)

lemma ledger_claims:
  assumes "ledger_step policy ev l l'" "keys_ok (lg_chains l)" "claims_ok l" "ev \<noteq> Dispose_Engine"
  shows "claims_ok l'"
  using assms
proof cases
  case (Claim chain n)
  then show ?thesis using assms by (auto simp: claims_ok_def)
next
  case (Approve n chain)
  have "occurs (running p) (lg_chains l') = occurs (running p) (lg_chains l)" for p
    using Approve occurs_update_eq [OF assms(2) Approve(3), of "running p" "Awaiting_Can_Handle chain"]
    by simp
  then show ?thesis using Approve assms by (simp add: claims_ok_def)
next
  case (Pay n chain)
  have "occurs (running p) (lg_chains l') = occurs (running p) (lg_chains l)" for p
    using Pay occurs_update_eq [OF assms(2) Pay(3), of "running p" "Awaiting_Wallet chain"] by simp
  then show ?thesis using Pay assms by (simp add: claims_ok_def)
next
  case (Release n t chain)
  have "occurs (running p) (lg_chains l') + (if chain_pay_req chain = p then 1 else 0) =
      (if p \<in> set (lg_claims l) then 1 else 0)" for p
    using Release occurs_delete_eq [OF assms(2) Release(2), of "running p"] assms(3)
    by (simp add: running_def claims_ok_def)
  from this [of p for p]
  have "occurs (running p) (lg_chains l') = (if p \<in> set (lg_claims l') then 1 else 0)" for p
    using Release(1) by (cases "chain_pay_req chain = p") (fastforce split: if_splits)+
  then show ?thesis by (simp add: claims_ok_def)
qed simp_all

lemma ledger_paid_or_due:
  assumes "ledger_step policy ev l l'" "keys_ok (lg_chains l)"
  shows "paid_or_due p l' \<le> paid_or_due p l + (if offers_for p ev then 1 else 0)"
  using assms
proof cases
  case (Claim chain n)
  then show ?thesis by (simp add: paid_or_due_def offers_for_def)
next
  case (Approve n chain)
  then show ?thesis
    using occurs_update_eq [OF assms(2) Approve(3), of "\<lambda>nt. running p nt \<and> unpaid (snd nt)"
        "Awaiting_Can_Handle chain"]
    by (simp add: paid_or_due_def)
next
  case (Pay n chain)
  then show ?thesis
    using occurs_update_eq [OF assms(2) Pay(3), of "\<lambda>nt. running p nt \<and> unpaid (snd nt)" "Awaiting_Wallet chain"]
    by (simp add: paid_or_due_def split: if_splits)
next
  case (Release n t chain)
  then show ?thesis
    using occurs_delete [OF Release(2), of "\<lambda>nt. running p nt \<and> unpaid (snd nt)"]
    by (simp add: paid_or_due_def)
qed (simp_all add: paid_or_due_def)

lemma ledger_paid_or_ready:
  assumes "ledger_step policy ev l l'" "keys_ok (lg_chains l)" policy
  shows "paid_or_ready l' \<le> paid_or_ready l + (if approves ev then 1 else 0)"
  using assms
proof cases
  case (Approve n chain)
  then show ?thesis
    using occurs_update_eq [OF assms(2) Approve(3), of "ready_to_pay \<circ> snd" "Awaiting_Can_Handle chain"]
    by (simp add: paid_or_ready_def)
next
  case (Pay n chain)
  then show ?thesis
    using occurs_update_eq [OF assms(2) Pay(3), of "ready_to_pay \<circ> snd" "Awaiting_Wallet chain"]
    by (simp add: paid_or_ready_def)
next
  case (Release n t chain)
  then show ?thesis
    using occurs_delete [OF Release(2), of "ready_to_pay \<circ> snd"] by (simp add: paid_or_ready_def)
qed (simp_all add: paid_or_ready_def)

lemma ledger_requests:
  assumes "ledger_step policy ev l l'" "keys_ok (lg_chains l)"
  shows "requests_in l' \<subseteq> requests_in l \<union> set_option (offers ev)"
  using assms
proof cases
  case (Approve n chain)
  have "(n, Awaiting_Policy chain) \<in> set (lg_chains l)" using Approve by (simp add: map_of_SomeD)
  moreover have "set (lg_chains l') \<subseteq> insert (n, Awaiting_Can_Handle chain) (set (lg_chains l))"
    using Approve set_update_subset by simp
  ultimately show ?thesis using Approve by (fastforce simp: requests_in_def)
next
  case (Pay n chain)
  have "(n, Awaiting_Can_Handle chain) \<in> set (lg_chains l)" using Pay by (simp add: map_of_SomeD)
  moreover have "set (lg_chains l') \<subseteq> insert (n, Awaiting_Wallet chain) (set (lg_chains l))"
    using Pay set_update_subset by simp
  ultimately show ?thesis using Pay by (fastforce simp: requests_in_def)
next
  case (Release n t chain)
  then show ?thesis by (fastforce simp: requests_in_def AList.delete_eq)
qed (fastforce simp: requests_in_def split: if_splits)+

section \<open>Runs\<close>

lemma engine_run_snoc:
  "engine_run X L options timeout (evs @ [ev]) =
     engine_step X L options (engine_run X L options timeout evs) ev"
  by (simp add: engine_run_def)

lemma engine_run_Nil:
  "ledger_of (engine_run X L options timeout []) = \<lparr>lg_chains = [], lg_claims = [], lg_calls = []\<rparr>"
  "tasks_ok (engine_run X L options timeout [])"
  by (simp_all add: engine_run_def engine_new_def ledger_of_def tasks_ok_def)

lemma engine_run_tasks_ok: "tasks_ok (engine_run X L options timeout evs)"
proof (induction evs rule: rev_induct)
  case (snoc ev evs)
  then show ?case
    using engine_step_follows [of options ev "engine_run X L options timeout evs" X L]
    by (simp add: engine_run_snoc follows_def)
qed (rule engine_run_Nil)

lemma engine_run_ledger_step:
  "ledger_step (cpo_payment_policy options) ev (ledger_of (engine_run X L options timeout evs))
     (ledger_of (engine_run X L options timeout (evs @ [ev])))"
  using engine_step_follows [of options ev "engine_run X L options timeout evs" X L]
    engine_run_tasks_ok [of X L options timeout evs]
  by (simp add: engine_run_snoc follows_def)

definition ledger_inv :: "bool \<Rightarrow> string \<Rightarrow> engine_event list \<Rightarrow> ledger \<Rightarrow> bool" where
  "ledger_inv policy p evs l \<longleftrightarrow>
     keys_ok (lg_chains l) \<and> (Dispose_Engine \<notin> set evs \<longrightarrow> claims_ok l) \<and>
     paid_or_due p l \<le> occurs (offers_for p) evs \<and>
     (policy \<longrightarrow> paid_or_ready l \<le> occurs approves evs) \<and>
     requests_in l \<subseteq> (\<Union>ev \<in> set evs. set_option (offers ev))"

lemma ledger_inv_step:
  assumes step: "ledger_step policy ev l l'" and inv: "ledger_inv policy p evs l"
  shows "ledger_inv policy p (evs @ [ev]) l'"
proof -
  have keys: "keys_ok (lg_chains l)" using inv by (simp add: ledger_inv_def)
  show ?thesis
    using inv ledger_keys [OF step keys] ledger_claims [OF step keys] ledger_paid_or_due [OF step keys, of p]
      ledger_paid_or_ready [OF step keys] ledger_requests [OF step keys]
    by (fastforce simp: ledger_inv_def)
qed

lemma engine_run_ledger:
  "ledger_inv (cpo_payment_policy options) p evs (ledger_of (engine_run X L options timeout evs))"
proof (induction evs rule: rev_induct)
  case Nil
  show ?case
    by (simp add: engine_run_Nil ledger_inv_def claims_ok_def paid_or_due_def paid_or_ready_def requests_in_def)
next
  case (snoc ev evs)
  then show ?case by (rule ledger_inv_step [OF engine_run_ledger_step])
qed

lemma occurs_filter: "occurs P (filter Q xs) = occurs (\<lambda>x. Q x \<and> P x) xs"
  by (simp add: occurs_def)

lemma ledger_of_counts:
  "occurs (pays p) (lg_calls (ledger_of s)) = occurs (pays p) (ce_out s)"
  "occurs (running p) (lg_chains (ledger_of s)) = occurs (running p) (ce_tasks s)"
  "length (lg_calls (ledger_of s)) = occurs is_wallet (ce_out s)"
proof -
  have "is_wallet x \<and> pays p x \<longleftrightarrow> pays p x" for x by (cases x) simp_all
  then show "occurs (pays p) (lg_calls (ledger_of s)) = occurs (pays p) (ce_out s)"
    by (simp add: ledger_of_def occurs_filter)
  have "is_chain x \<and> running p x \<longleftrightarrow> running p x" for x
    by (auto simp: is_chain_def running_def split: option.splits)
  then show "occurs (running p) (lg_chains (ledger_of s)) = occurs (running p) (ce_tasks s)"
    by (simp add: ledger_of_def occurs_filter)
qed (simp add: ledger_of_def occurs_def)

section \<open>The wallet is safe\<close>

text \<open>
  C12. For every history of the engine, in any interleaving of its tasks and until it is disposed: a
  payment request has at most one payment chain running; the wallet was called for it no more often
  than the server offered it; every request handed to the wallet is exactly one that an accepted offer
  carried; and with a policy configured the wallet was called no more often than the policy
  approved.\<close>
theorem client_wallet_safety:
  assumes "Dispose_Engine \<notin> set evs"
  shows "occurs (running pay_req) (ce_tasks (engine_run X L options timeout evs)) \<le> 1 \<and>
    occurs (pays pay_req) (ce_out (engine_run X L options timeout evs)) \<le> occurs (offers_for pay_req) evs \<and>
    (Wallet_Pays h request \<in> set (ce_out (engine_run X L options timeout evs)) \<longrightarrow>
      (\<exists>ev \<in> set evs. offers ev = Some request)) \<and>
    (cpo_payment_policy options \<longrightarrow>
      occurs is_wallet (ce_out (engine_run X L options timeout evs)) \<le> occurs approves evs)"
proof -
  let ?s = "engine_run X L options timeout evs"
  have inv: "ledger_inv (cpo_payment_policy options) pay_req evs (ledger_of ?s)"
    by (rule engine_run_ledger)
  have "request \<in> requests_in (ledger_of ?s)" if "Wallet_Pays h request \<in> set (ce_out ?s)"
    using that by (auto simp: requests_in_def ledger_of_def)
  then have "\<exists>ev \<in> set evs. offers ev = Some request" if "Wallet_Pays h request \<in> set (ce_out ?s)"
    using that inv by (fastforce simp: ledger_inv_def)
  moreover have "occurs (running pay_req) (ce_tasks ?s) \<le> 1"
    using assms inv by (simp add: ledger_inv_def claims_ok_def ledger_of_counts)
  ultimately show ?thesis
    using inv by (auto simp: ledger_inv_def paid_or_due_def paid_or_ready_def ledger_of_counts)
qed

definition demo_offer :: json_rpc_notification where
  "demo_offer = \<lparr>ntf_jsonrpc = ''2.0'', ntf_method = PAYMENT_REQUIRED_METHOD,
     ntf_params = Some (payment_required_params_to_value (demo_params\<lparr>prq_ttl := Some 0\<rparr>))\<rparr>"

definition demo_entry :: pending_request where
  "demo_entry = \<lparr>pr_original_id = JNumber (PosInt 1), pr_is_initialize = False, pr_registered_at = 0,
     pr_progress_token = None\<rparr>"

definition demo_client :: client_payments_options where
  "demo_client = client_payments_options_new\<lparr>cpo_handlers := [\<lparr>ph_pmi = ''ln'', ph_id = 0\<rparr>],
     cpo_payment_policy := True\<rparr>"

definition demo_payment_run :: "engine_event list" where
  "demo_payment_run = [In_Notification 0 demo_offer ''e'' (Some demo_entry) False False,
     In_Notification 0 demo_offer ''e'' (Some demo_entry) False False,
     Policy_Returned 0 (Returned True), Can_Handle_Returned 0 (Returned True)]"

lemma demo_offer_params [simp]:
  "payment_required_params_of_value (payment_required_params_to_value (demo_params\<lparr>prq_ttl := Some 0\<rparr>)) =
     Some (demo_params\<lparr>prq_ttl := Some 0\<rparr>)"
  by (rule payment_required_params_roundtrip) (simp add: demo_params_def i64_ok_def)

lemma demo_params_pmi [simp]: "prq_pmi demo_params = ''ln''"
  by (simp add: demo_params_def)

lemmas engine_defs = engine_run_def engine_new_def handle_payment_notification_def
  on_payment_required_notification_def start_keepalives_def start_payment_def spawn_def
  chain_policy_def chain_can_handle_def continue_as_def build_handlers_by_pmi_def handler_request_def
  from_secs_def

lemma demo_payment_run_result:
  "ce_out (engine_run plain_ext list_lru demo_client 0 demo_payment_run) =
     [Wallet_Pays \<lparr>ph_pmi = ''ln'', ph_id = 0\<rparr> (handler_request (demo_params\<lparr>prq_ttl := Some 0\<rparr>) ''e'')]"
  by (simp add: demo_payment_run_def demo_client_def engine_defs demo_offer_def client_payments_options_new_def)

theorem client_wallet_safety_witness:
  "occurs (running ''lnbc'') (ce_tasks (engine_run plain_ext list_lru demo_client 0 demo_payment_run)) \<le> 1 \<and>
   occurs (offers_for ''lnbc'') demo_payment_run = 2 \<and>
   occurs is_wallet (ce_out (engine_run plain_ext list_lru demo_client 0 demo_payment_run)) = 1 \<and>
   occurs is_wallet (ce_out (engine_run plain_ext list_lru demo_client 0 demo_payment_run))
     \<le> occurs approves demo_payment_run"
proof -
  have "Dispose_Engine \<notin> set demo_payment_run" "cpo_payment_policy demo_client"
    by (simp_all add: demo_payment_run_def demo_client_def)
  moreover have "occurs (offers_for ''lnbc'') demo_payment_run = 2"
    by (simp add: demo_payment_run_def offers_for_def offers_def demo_offer_def handler_request_def)
      (simp add: demo_params_def)
  ultimately show ?thesis
    using client_wallet_safety [of demo_payment_run "''lnbc''" plain_ext list_lru demo_client 0]
    by (simp add: demo_payment_run_result)
qed



section \<open>Retries of pending requests\<close>

lemma compute_backoff_bounds:
  "1000000000 \<le> compute_backoff secs retries" "compute_backoff secs retries \<le> 10000000000"
  by (simp_all add: compute_backoff_def Let_def)

definition pending_error :: "u64 \<Rightarrow> json_rpc_error_response \<Rightarrow> bool" where
  "pending_error secs err \<longleftrightarrow> err_code (ers_error err) = PAYMENT_PENDING_ERROR_CODE \<and>
     Option.bind (Option.bind (err_data (ers_error err)) payment_pending_error_data_of_value)
       ppe_retry_after = Some secs"

text \<open>One round: the server answers \<open>pending\<close>, and the retry passes the outgoing hook again.\<close>

definition pending_round ::
  "ext \<Rightarrow> 'c raw_lru \<Rightarrow> client_payments_options \<Rightarrow> pending_request \<Rightarrow> json_rpc_error_response \<Rightarrow>
   json_rpc_request \<Rightarrow> 'c engine \<Rightarrow> 'c engine" where
  "pending_round X L options entry err request s =
     cache_raw_request X L (Request request)
       (fst (on_terminal_response X L options (Some entry) None (ErrorResponse err) s))"

locale raw_lru = lru L valid for L :: "('c, cached_request) lru_ops" and valid
begin

lemma cache_raw_request_peek:
  assumes "valid (ce_raw_request_cache s)"
  shows "valid (ce_raw_request_cache (cache_raw_request X L (Request req) s))"
    "lru_peek L (ce_raw_request_cache (cache_raw_request X L (Request req) s)) (cache_key X (req_id req)) =
       Some \<lparr>cr_request = req, cr_pending_retries =
         (case lru_peek L (ce_raw_request_cache s) (cache_key X (req_id req)) of
            Some c \<Rightarrow> cr_pending_retries c | None \<Rightarrow> 0)\<rparr>"
  using assms by (simp_all add: cache_raw_request_def Let_def put_valid put_peek_key)

lemma pending_response:
  fixes X entry err options
  assumes "valid (ce_raw_request_cache s)" "pending_error secs err"
    "lru_peek L (ce_raw_request_cache s) (cache_key X (pr_original_id entry)) = Some cached"
  defines "r \<equiv> on_terminal_response X L options (Some entry) None (ErrorResponse err) s"
  shows "valid (ce_raw_request_cache (fst r))"
    "lru_peek L (ce_raw_request_cache (fst r)) (cache_key X (pr_original_id entry)) =
       Some (cached\<lparr>cr_pending_retries :=
         min (max (cpo_max_pending_retries options) (cr_pending_retries cached)) (Suc (cr_pending_retries cached))\<rparr>)"
    "cr_pending_retries cached < cpo_max_pending_retries options \<Longrightarrow>
       snd r = None \<and> ce_tasks (fst r) = (ce_next s, Awaiting_Backoff (cr_request cached)
         (pr_original_id entry) (compute_backoff secs (cr_pending_retries cached))) # ce_tasks s"
    "cpo_max_pending_retries options \<le> cr_pending_retries cached \<Longrightarrow>
       snd r = Some (normalized_raw err (pr_original_id entry)) \<and> ce_tasks (fst r) = ce_tasks s"
proof -
  have [simp]: "PAYMENT_PENDING_ERROR_CODE \<noteq> PAYMENT_REQUIRED_ERROR_CODE"
    by (simp add: PAYMENT_PENDING_ERROR_CODE_def PAYMENT_REQUIRED_ERROR_CODE_def)
  define s2 where "s2 = (case pr_progress_token entry of Some token \<Rightarrow> stop_heartbeat X token s | None \<Rightarrow> s)"
  have s2: "ce_raw_request_cache s2 = ce_raw_request_cache s" "ce_tasks s2 = ce_tasks s" "ce_next s2 = ce_next s"
    by (simp_all add: s2_def stop_heartbeat_def split: option.split)
  have r: "r = intercept_payment_pending_error X L options entry err secs s2"
    using assms(2) by (simp add: r_def on_terminal_response_def pending_error_def Let_def s2_def)
  note eqs = r intercept_payment_pending_error_def Let_def s2 assms(3) spawn_def
  show "valid (ce_raw_request_cache (fst r))"
    using assms(1) by (simp add: eqs modify_valid)
  show "lru_peek L (ce_raw_request_cache (fst r)) (cache_key X (pr_original_id entry)) =
       Some (cached\<lparr>cr_pending_retries :=
         min (max (cpo_max_pending_retries options) (cr_pending_retries cached)) (Suc (cr_pending_retries cached))\<rparr>)"
    using assms(1) by (auto simp: eqs modify_peek min_def max_def)
  show "snd r = None \<and> ce_tasks (fst r) = (ce_next s, Awaiting_Backoff (cr_request cached)
         (pr_original_id entry) (compute_backoff secs (cr_pending_retries cached))) # ce_tasks s"
    if "cr_pending_retries cached < cpo_max_pending_retries options"
    using that by (simp add: eqs)
  show "snd r = Some (normalized_raw err (pr_original_id entry)) \<and> ce_tasks (fst r) = ce_tasks s"
    if "cpo_max_pending_retries options \<le> cr_pending_retries cached"
    using that by (simp add: eqs)
qed

lemma pending_rounds:
  assumes "valid (ce_raw_request_cache s)" "pending_error secs err" "req_id request = pr_original_id entry"
    "lru_peek L (ce_raw_request_cache s) (cache_key X (req_id request)) = None"
  defines "s0 \<equiv> cache_raw_request X L (Request request) s"
  shows "valid (ce_raw_request_cache ((pending_round X L options entry err request ^^ k) s0)) \<and>
    lru_peek L (ce_raw_request_cache ((pending_round X L options entry err request ^^ k) s0))
      (cache_key X (req_id request)) =
      Some \<lparr>cr_request = request, cr_pending_retries = min k (cpo_max_pending_retries options)\<rparr>"
proof (induction k)
  case 0
  show ?case using assms cache_raw_request_peek [of s X request] by simp
next
  case (Suc k)
  define sk where "sk = (pending_round X L options entry err request ^^ k) s0"
  define r where "r = fst (on_terminal_response X L options (Some entry) None (ErrorResponse err) sk)"
  let ?max = "cpo_max_pending_retries options"
  have "valid (ce_raw_request_cache r)"
    "lru_peek L (ce_raw_request_cache r) (cache_key X (pr_original_id entry)) =
       Some \<lparr>cr_request = request, cr_pending_retries = min (max ?max (min k ?max)) (Suc (min k ?max))\<rparr>"
    using Suc.IH assms(2,3) pending_response(1,2) [of sk secs err X entry
        "\<lparr>cr_request = request, cr_pending_retries = min k ?max\<rparr>" options]
    by (simp_all add: sk_def r_def)
  moreover have "min (max ?max (min k ?max)) (Suc (min k ?max)) = min (Suc k) ?max" by linarith
  moreover have "(pending_round X L options entry err request ^^ Suc k) s0 =
      cache_raw_request X L (Request request) r"
    by (simp add: sk_def r_def pending_round_def)
  ultimately show ?case
    using cache_raw_request_peek [of r X request] assms(3) by simp
qed

lemma pending_retry:
  fixes k options
  assumes "valid (ce_raw_request_cache s)" "pending_error secs err" "req_id request = pr_original_id entry"
    "lru_peek L (ce_raw_request_cache s) (cache_key X (req_id request)) = None"
  defines "sk \<equiv> (pending_round X L options entry err request ^^ k) (cache_raw_request X L (Request request) s)"
  shows "k < cpo_max_pending_retries options \<Longrightarrow>
      snd (on_terminal_response X L options (Some entry) None (ErrorResponse err) sk) = None \<and>
      ce_tasks (fst (on_terminal_response X L options (Some entry) None (ErrorResponse err) sk)) =
        (ce_next sk, Awaiting_Backoff request (pr_original_id entry) (compute_backoff secs k)) # ce_tasks sk"
    and "cpo_max_pending_retries options \<le> k \<Longrightarrow>
      snd (on_terminal_response X L options (Some entry) None (ErrorResponse err) sk) =
        Some (normalized_raw err (pr_original_id entry)) \<and>
      ce_tasks (fst (on_terminal_response X L options (Some entry) None (ErrorResponse err) sk)) = ce_tasks sk"
  using pending_rounds [OF assms(1-4), where options = options and k = k]
    pending_response(3,4) [of sk secs err X entry
      "\<lparr>cr_request = request, cr_pending_retries = min k (cpo_max_pending_retries options)\<rparr>" options] assms(2,3)
  by (simp_all add: sk_def)

end

interpretation raw_list: raw_lru list_lru list_lru_valid
  by unfold_locales


definition demo_gating_error :: json_rpc_error_response where
  "demo_gating_error = \<lparr>ers_jsonrpc = ''2.0'', ers_id = JString ''e'', ers_error =
     \<lparr>err_code = PAYMENT_PENDING_ERROR_CODE, err_message = ''pending'',
      err_data = Some (payment_pending_error_data_to_value \<lparr>ppe_instructions = None, ppe_retry_after = Some 2\<rparr>)\<rparr>\<rparr>"


section \<open>A time to live the clock cannot represent\<close>

text \<open>
  C32. An offer whose \<open>ttl\<close> is \<open>2 ^ 63\<close> seconds or more makes the hook panic when no keep-alive
  for the request is running: no payment is started, and the panic unwinds into the event loop of
  the transport. The server chooses that number.\<close>
theorem offer_ttl_panics:
  assumes "ntf_method notif = PAYMENT_REQUIRED_METHOD"
    "Option.bind (ntf_params notif) payment_required_params_of_value = Some params"
    "prq_ttl params = Some secs" "2 ^ 63 \<le> unat secs"
    "\<not> contains_key (ce_touch_loops s) event_id"
    "\<not> (requested \<and> \<not> effective)"
  shows "\<exists>s'. handle_payment_notification X L options now notif event_id (Some pending) requested effective s =
      (s', Panicked) \<and> ce_tasks s' = ce_tasks s \<and> ce_in_flight_pay_reqs s' = ce_in_flight_pay_reqs s"
proof -
  let ?ttl = "from_secs secs"
  have "2 ^ 63 \<le> (now + ?ttl) div 1000000000"
    using assms(4) by (simp add: from_secs_def)
  then have overflow: "instant_add now ?ttl = None" by (simp add: instant_add_def)
  have positive: "?ttl \<noteq> 0" using assms(4) by (simp add: from_secs_def)
  have touch: "start_touch_loop now event_id ?ttl s1 =
      (s1\<lparr>ce_touch_loops := AList.update event_id (ce_next s1) (ce_touch_loops s1),
           ce_next := Suc (ce_next s1)\<rparr>, Panicked)"
    if "ce_touch_loops s1 = ce_touch_loops s" for s1
    using assms(5) overflow that by (simp add: start_touch_loop_def Let_def)
  have "\<exists>s'. start_keepalives X now event_id pending ?ttl s = (s', Panicked) \<and>
      ce_tasks s' = ce_tasks s \<and> ce_in_flight_pay_reqs s' = ce_in_flight_pay_reqs s"
    using positive overflow touch [of s]
    by (cases "pr_progress_token pending")
      (simp_all add: start_keepalives_def register_heartbeat_def)
  then obtain s' where "start_keepalives X now event_id pending ?ttl s = (s', Panicked)"
      "ce_tasks s' = ce_tasks s" "ce_in_flight_pay_reqs s' = ce_in_flight_pay_reqs s"
    by blast
  then show ?thesis
    using assms(1-3,6)
    by (auto simp: handle_payment_notification_def on_payment_required_notification_def Let_def)
qed

theorem offer_ttl_panics_witness:
  "\<exists>s'. handle_payment_notification plain_ext list_lru demo_client 0
      (demo_offer\<lparr>ntf_params := Some (payment_required_params_to_value (demo_params\<lparr>prq_ttl := Some (2 ^ 63)\<rparr>))\<rparr>)
      ''e'' (Some demo_entry) False False (engine_new list_lru demo_client 0) = (s', Panicked) \<and>
    ce_tasks s' = []"
proof -
  let ?params = "demo_params\<lparr>prq_ttl := Some (2 ^ 63)\<rparr>"
  let ?notif = "demo_offer\<lparr>ntf_params := Some (payment_required_params_to_value ?params)\<rparr>"
  have read: "Option.bind (ntf_params ?notif) payment_required_params_of_value = Some ?params"
    using payment_required_params_roundtrip [of ?params] by (simp add: demo_params_def i64_ok_def)
  show ?thesis
    using offer_ttl_panics [of ?notif ?params "2 ^ 63" "engine_new list_lru demo_client 0" "''e''" False False
        plain_ext list_lru demo_client 0 demo_entry] read
    by (simp add: demo_offer_def) (auto simp: engine_new_def contains_key_def)
qed

end
