(* ===== verification/Session_Store.thy ===== *)
theory Session_Store
  imports Payments Route_Store
begin

text \<open>
  The server's client sessions: \<open>ClientSession\<close> (\<open>src/core/types.rs\<close>), \<open>SessionStore\<close>
  (\<open>src/transport/server/session_store.rs\<close>) and the periodic \<open>cleanup_sessions\<close> of the transport
  (\<open>src/transport/server/mod.rs\<close>). Every method holds the store's lock, so it is one step; \<open>get_mut\<close>
  makes the entry the most recently used one. The eviction callback is the application's: an
  operation returns the keys it was called with.
\<close>

section \<open>Sessions\<close>

definition DEFAULT_MAX_SESSIONS :: nat where "DEFAULT_MAX_SESSIONS = 1000"

record client_session =
  cs_is_initialized :: bool
  cs_is_encrypted :: bool
  cs_has_sent_common_tags :: bool
  cs_supports_ephemeral_gift_wrap :: bool
  cs_supports_encryption :: bool
  cs_supports_ephemeral_encryption :: bool
  cs_supports_oversized_transfer :: bool
  cs_supports_open_stream :: bool
  cs_requested_payment_interaction :: "payment_interaction_mode option"
  cs_effective_payment_interaction :: "payment_interaction_mode option"
  cs_has_disclosed_payment_interaction :: bool
  cs_last_activity :: instant
  cs_pending_requests :: "(string, json) hash_map"
  cs_event_to_progress_token :: "(string, string) hash_map"

definition client_session_new :: "instant \<Rightarrow> bool \<Rightarrow> client_session" where
  "client_session_new now is_encrypted =
     \<lparr>cs_is_initialized = False, cs_is_encrypted = is_encrypted, cs_has_sent_common_tags = False,
      cs_supports_ephemeral_gift_wrap = False, cs_supports_encryption = False,
      cs_supports_ephemeral_encryption = False, cs_supports_oversized_transfer = False,
      cs_supports_open_stream = False, cs_requested_payment_interaction = None,
      cs_effective_payment_interaction = None, cs_has_disclosed_payment_interaction = False,
      cs_last_activity = now, cs_pending_requests = [], cs_event_to_progress_token = []\<rparr>"

definition update_activity :: "instant \<Rightarrow> client_session \<Rightarrow> client_session" where
  "update_activity now session = session\<lparr>cs_last_activity := now\<rparr>"

record session_snapshot =
  sn_is_initialized :: bool
  sn_is_encrypted :: bool
  sn_has_sent_common_tags :: bool
  sn_supports_ephemeral_gift_wrap :: bool
  sn_supports_encryption :: bool
  sn_supports_ephemeral_encryption :: bool
  sn_supports_oversized_transfer :: bool
  sn_supports_open_stream :: bool
  sn_requested_payment_interaction :: "payment_interaction_mode option"
  sn_effective_payment_interaction :: "payment_interaction_mode option"
  sn_has_disclosed_payment_interaction :: bool

definition snapshot_of :: "client_session \<Rightarrow> session_snapshot" where
  "snapshot_of s =
     \<lparr>sn_is_initialized = cs_is_initialized s, sn_is_encrypted = cs_is_encrypted s,
      sn_has_sent_common_tags = cs_has_sent_common_tags s,
      sn_supports_ephemeral_gift_wrap = cs_supports_ephemeral_gift_wrap s,
      sn_supports_encryption = cs_supports_encryption s,
      sn_supports_ephemeral_encryption = cs_supports_ephemeral_encryption s,
      sn_supports_oversized_transfer = cs_supports_oversized_transfer s,
      sn_supports_open_stream = cs_supports_open_stream s,
      sn_requested_payment_interaction = cs_requested_payment_interaction s,
      sn_effective_payment_interaction = cs_effective_payment_interaction s,
      sn_has_disclosed_payment_interaction = cs_has_disclosed_payment_interaction s\<rparr>"

section \<open>The store\<close>

type_synonym 's session_lru = "('s, client_session) lru_ops"

definition with_capacity :: "'s session_lru \<Rightarrow> nat \<Rightarrow> 's" where
  "with_capacity S max_sessions = lru_new S (non_zero max_sessions)"

definition handle_eviction ::
  "'s session_lru \<Rightarrow> instant \<Rightarrow> string \<Rightarrow> (string \<times> client_session) option \<Rightarrow> 's \<Rightarrow> bool \<Rightarrow>
   'r route_store \<Rightarrow> 's \<times> string list" where
  "handle_eviction S now inserted_key evicted sessions on_evicted event_routes =
     (case evicted of
        None \<Rightarrow> (sessions, [])
      | Some (evicted_key, evicted_session) \<Rightarrow>
          if evicted_key \<noteq> inserted_key then
            if has_active_routes_for_client event_routes evicted_key
            then (fst (lru_push S sessions evicted_key
                    (client_session_new now (cs_is_encrypted evicted_session))), [])
            else (sessions, if on_evicted then [evicted_key] else [])
          else (sessions, []))"

definition get_or_create_session ::
  "'s session_lru \<Rightarrow> instant \<Rightarrow> 's \<Rightarrow> bool \<Rightarrow> string \<Rightarrow> bool \<Rightarrow> 'r route_store \<Rightarrow>
   's \<times> string list \<times> bool" where
  "get_or_create_session S now sessions on_evicted client_pubkey is_encrypted event_routes =
     (if lru_contains S sessions client_pubkey
      then (lru_modify S sessions client_pubkey (\<lambda>s. s\<lparr>cs_is_encrypted := is_encrypted\<rparr>), [], False)
      else
        let (c, evicted) = lru_push S sessions client_pubkey (client_session_new now is_encrypted);
            (c', calls) = handle_eviction S now client_pubkey evicted c on_evicted event_routes in
        (c', calls, True))"

definition get_session :: "'s session_lru \<Rightarrow> 's \<Rightarrow> string \<Rightarrow> session_snapshot option" where
  "get_session S sessions client_pubkey = map_option snapshot_of (lru_peek S sessions client_pubkey)"

definition mark_initialized :: "'s session_lru \<Rightarrow> 's \<Rightarrow> string \<Rightarrow> 's \<times> bool" where
  "mark_initialized S sessions client_pubkey =
     (lru_modify S sessions client_pubkey (\<lambda>s. s\<lparr>cs_is_initialized := True\<rparr>),
      lru_contains S sessions client_pubkey)"

definition mark_common_tags_sent :: "'s session_lru \<Rightarrow> 's \<Rightarrow> string \<Rightarrow> 's \<times> bool" where
  "mark_common_tags_sent S sessions client_pubkey =
     (lru_modify S sessions client_pubkey (\<lambda>s. s\<lparr>cs_has_sent_common_tags := True\<rparr>),
      lru_contains S sessions client_pubkey)"

definition remove_session :: "'s session_lru \<Rightarrow> 's \<Rightarrow> string \<Rightarrow> 's \<times> bool" where
  "remove_session S sessions client_pubkey =
     (let (c, removed) = lru_pop S sessions client_pubkey in (c, removed \<noteq> None))"

definition clear_sessions :: "'s session_lru \<Rightarrow> 's \<Rightarrow> 's" where
  "clear_sessions S sessions = lru_clear S sessions"

definition session_count :: "'s session_lru \<Rightarrow> 's \<Rightarrow> nat" where
  "session_count S sessions = lru_len S sessions"

definition get_all_sessions :: "'s session_lru \<Rightarrow> 's \<Rightarrow> (string \<times> session_snapshot) list" where
  "get_all_sessions S sessions = map (\<lambda>(k, s). (k, snapshot_of s)) (lru_iter S sessions)"

section \<open>Cleanup\<close>

text \<open>The requests of an expired session: the keys of its two maps of pending requests.\<close>

definition session_events :: "client_session \<Rightarrow> string list" where
  "session_events session =
     map fst (cs_pending_requests session) @ map fst (cs_event_to_progress_token session)"

primrec pop_expired ::
  "'s session_lru \<Rightarrow> string list \<Rightarrow> 's \<Rightarrow> 's \<times> string list \<times> nat" where
  "pop_expired S [] c = (c, [], 0)"
| "pop_expired S (key # keys) c =
     (case lru_pop S c key of
        (c1, None) \<Rightarrow> pop_expired S keys c1
      | (c1, Some session) \<Rightarrow>
          (case pop_expired S keys c1 of
             (c2, stale, cleaned) \<Rightarrow> (c2, session_events session @ stale, Suc cleaned)))"

definition cleanup_sessions ::
  "'s session_lru \<Rightarrow> 'r route_lru \<Rightarrow> instant \<Rightarrow> duration \<Rightarrow> 's \<Rightarrow> 'r route_store \<Rightarrow>
   (string, u16 option) hash_map \<Rightarrow> 's \<times> 'r route_store \<times> (string, u16 option) hash_map \<times> nat" where
  "cleanup_sessions S R now timeout sessions event_routes request_wrap_kinds =
     (let expired_keys = map fst (filter (\<lambda>(k, session).
            timeout < duration_since now (cs_last_activity session)) (lru_iter S sessions));
          (c, stale_event_ids, cleaned) = pop_expired S expired_keys sessions in
      (c, remove_routes R stale_event_ids event_routes,
       fold AList.delete stale_event_ids request_wrap_kinds, cleaned))"

section \<open>Laws\<close>

locale session_lru = lru S valid for S :: "('s, client_session) lru_ops" and valid
begin

lemma session_capacity:
  assumes "valid c"
  shows "session_count S c \<le> lru_cap S c"
  using valid_len [OF assms] by (simp add: session_count_def lru_len_def)

lemma handle_eviction_keeps:
  assumes "valid c"
  shows "valid (fst (handle_eviction S now k evicted c cb routes))"
    "lru_cap S (fst (handle_eviction S now k evicted c cb routes)) = lru_cap S c"
  using assms by (simp_all add: handle_eviction_def push_valid push_cap split: option.split)

lemma get_or_create_keeps:
  assumes "valid c"
  shows "valid (fst (get_or_create_session S now c cb k enc routes))"
    "lru_cap S (fst (get_or_create_session S now c cb k enc routes)) = lru_cap S c"
proof -
  obtain c1 ev where p: "lru_push S c k (client_session_new now enc) = (c1, ev)" by fastforce
  have "valid c1" "lru_cap S c1 = lru_cap S c"
    using push_valid [OF assms, of k] push_cap [of c k] p by (metis fst_conv)+
  then show "valid (fst (get_or_create_session S now c cb k enc routes))"
    "lru_cap S (fst (get_or_create_session S now c cb k enc routes)) = lru_cap S c"
    using assms handle_eviction_keeps [of c1 now k ev cb routes]
    by (cases "handle_eviction S now k ev c1 cb routes";
        simp add: get_or_create_session_def p modify_valid modify_cap)+
qed

text \<open>The outcome of an access, by what the cache holds.\<close>

lemma get_or_create_old:
  assumes "valid c" "lru_peek S c k = Some s"
  shows "get_or_create_session S now c cb k enc routes =
      (lru_modify S c k (\<lambda>s. s\<lparr>cs_is_encrypted := enc\<rparr>), [], False)"
    "lru_peek S (lru_modify S c k (\<lambda>s. s\<lparr>cs_is_encrypted := enc\<rparr>)) = (lru_peek S c)(k \<mapsto> s\<lparr>cs_is_encrypted := enc\<rparr>)"
  using assms by (simp_all add: get_or_create_session_def lru_contains_def lru_peek_def [symmetric] modify_peek)

lemma get_or_create_room:
  assumes "valid c" "lru_peek S c k = None" "session_count S c < lru_cap S c"
  shows "\<exists>c'. get_or_create_session S now c cb k enc routes = (c', [], True) \<and>
    lru_peek S c' = (lru_peek S c)(k \<mapsto> client_session_new now enc)"
proof -
  let ?new = "client_session_new now enc"
  have "lru_iter S (fst (lru_push S c k ?new)) = (k, ?new) # lru_iter S c" "snd (lru_push S c k ?new) = None"
    using assms push_new [OF assms(1), of k ?new] by (simp_all add: lru_peek_def session_count_def lru_len_def)
  then show ?thesis
    using assms(2)
    by (cases "lru_push S c k ?new")
      (simp add: get_or_create_session_def lru_contains_def lru_peek_fun handle_eviction_def)
qed

lemma push_full:
  assumes "valid c" "lru_iter S c = es @ [(a, sa)]" "length es + 1 = lru_cap S c" "lru_peek S c k = None"
  shows "\<exists>c1. lru_push S c k s = (c1, Some (a, sa)) \<and> lru_iter S c1 = (k, s) # es \<and> valid c1 \<and>
    lru_cap S c1 = lru_cap S c"
  using push_evict [OF assms(1), of k s] push_valid [OF assms(1), of k s] push_cap [of c k s] assms(2-4)
  by (cases "lru_push S c k s") (simp add: lru_peek_def)

lemma oldest_ne:
  assumes "lru_iter S c = es @ [(a, sa)]" "lru_peek S c k = None"
  shows "a \<noteq> k"
  using assms by (auto simp: lru_peek_def map_add_def split: option.splits)

lemma get_or_create_full:
  assumes "valid c" "lru_iter S c = es @ [(a, sa)]" "length es + 1 = lru_cap S c" "lru_peek S c k = None"
    "\<not> has_active_routes_for_client routes a"
  shows "\<exists>c'. get_or_create_session S now c cb k enc routes = (c', if cb then [a] else [], True) \<and>
    lru_iter S c' = (k, client_session_new now enc) # es"
  using push_full [OF assms(1-4), of "client_session_new now enc"] oldest_ne [OF assms(2,4)] assms(4,5)
  by (auto simp: get_or_create_session_def lru_contains_def lru_peek_def handle_eviction_def)

lemma get_or_create_vetoed:
  assumes "valid c" "lru_iter S c = es @ [(a, sa)]" "length es + 1 = lru_cap S c" "lru_peek S c k = None"
    "has_active_routes_for_client routes a"
  shows "\<exists>c'. get_or_create_session S now c cb k enc routes = (c', [], True) \<and>
    lru_iter S c' = (a, client_session_new now (cs_is_encrypted sa)) #
      butlast ((k, client_session_new now enc) # es)"
proof -
  obtain c1 where p: "lru_push S c k (client_session_new now enc) = (c1, Some (a, sa))"
      "lru_iter S c1 = (k, client_session_new now enc) # es" "valid c1" "lru_cap S c1 = lru_cap S c"
    using push_full [OF assms(1-4)] by blast
  have "keys_ok (lru_iter S c)" by (rule valid_keys [OF assms(1)])
  then have "a \<notin> fst ` set es" using assms(2) by (auto simp: keys_ok_def)
  then have "map_of (lru_iter S c1) a = None"
    using p(2) oldest_ne [OF assms(2,4)] by (auto simp: map_of_eq_None_iff)
  then have "lru_iter S (fst (lru_push S c1 a (client_session_new now (cs_is_encrypted sa)))) =
      (a, client_session_new now (cs_is_encrypted sa)) # butlast (lru_iter S c1)"
    using push_evict [OF p(3), of a "client_session_new now (cs_is_encrypted sa)"] p(2,4) assms(3) by simp
  then show ?thesis
    using p(1,2) oldest_ne [OF assms(2,4)] assms(4,5)
    by (simp add: get_or_create_session_def lru_contains_def lru_peek_def handle_eviction_def)
qed

lemma expired_keys:
  assumes "valid c" "keys = map fst (filter (\<lambda>(k, session). P session) (lru_iter S c))"
  shows "distinct keys" "set keys = {k. \<exists>s. lru_peek S c k = Some s \<and> P s}" "set keys \<subseteq> dom (lru_peek S c)"
proof -
  have ok: "keys_ok (lru_iter S c)" by (rule valid_keys [OF assms(1)])
  show "distinct keys" using ok by (simp add: assms(2) keys_ok_def distinct_map_filter)
  show set: "set keys = {k. \<exists>s. lru_peek S c k = Some s \<and> P s}"
    using ok by (force simp: assms(2) lru_peek_def keys_ok_def)
  show "set keys \<subseteq> dom (lru_peek S c)" using set by auto
qed

lemma pop_expired_sim:
  assumes "valid c" "distinct keys" "set keys \<subseteq> dom (lru_peek S c)"
  shows "valid (fst (pop_expired S keys c)) \<and>
    lru_peek S (fst (pop_expired S keys c)) = lru_peek S c |` (- set keys) \<and>
    snd (snd (pop_expired S keys c)) = length keys \<and>
    set (fst (snd (pop_expired S keys c))) = (\<Union>k \<in> set keys. set (session_events (the (lru_peek S c k))))"
  using assms
proof (induction keys arbitrary: c)
  case (Cons key keys)
  obtain session where s: "lru_peek S c key = Some session" using Cons.prems by auto
  obtain c1 where c1: "lru_pop S c key = (c1, Some session)" "valid c1" "lru_peek S c1 = (lru_peek S c)(key := None)"
    using pop_peek [OF Cons.prems(1), of key] pop_valid [OF Cons.prems(1), of key] s by (cases "lru_pop S c key") auto
  obtain c2 stale n where r: "pop_expired S keys c1 = (c2, stale, n)" by (cases "pop_expired S keys c1")
  have "set keys \<subseteq> dom (lru_peek S c1)" using Cons.prems c1 by auto
  with Cons.IH [OF c1(2)] Cons.prems r have IH: "valid c2" "lru_peek S c2 = lru_peek S c1 |` (- set keys)" "n = length keys"
      "set stale = (\<Union>k \<in> set keys. set (session_events (the (lru_peek S c1 k))))"
    by auto
  have "set stale = (\<Union>k \<in> set keys. set (session_events (the (lru_peek S c k))))"
    unfolding IH(4) using c1(3) Cons.prems(2) by (intro SUP_cong) auto
  moreover have "lru_peek S c1 |` (- set keys) = lru_peek S c |` (- set (key # keys))"
    by (auto simp: c1(3) restrict_map_def fun_eq_iff)
  ultimately show ?case using IH c1 r s by simp
qed (simp add: restrict_map_def)

end

interpretation session_list: session_lru list_lru list_lru_valid
  by unfold_locales

context route_lru
begin

lemma remove_route_peek:
  assumes "valid (rs_routes s)"
  shows "valid (rs_routes (fst (remove_route L s e)))"
    "lru_peek L (rs_routes (fst (remove_route L s e))) = (lru_peek L (rs_routes s))(e := None)"
  using pop_valid [OF assms, of e] pop_peek(1) [OF assms, of e]
  by (auto simp: remove_route_def split: prod.split option.split)

lemma remove_routes_peek:
  assumes "valid (rs_routes s)"
  shows "lru_peek L (rs_routes (remove_routes L keys s)) = lru_peek L (rs_routes s) |` (- set keys)"
  using assms
proof (induction keys arbitrary: s)
  case (Cons key keys)
  then show ?case
    using remove_route_peek [OF Cons.prems, of key] by (auto simp: restrict_map_def fun_eq_iff)
qed (simp add: restrict_map_def)

end

lemma fold_delete: "map_of (fold AList.delete keys m) = map_of m |` (- set keys)"
  by (induction keys arbitrary: m) (auto simp: restrict_map_def fun_eq_iff delete_conv)

section \<open>Properties\<close>

text \<open>
  Getting or creating a session, on every cache of any capacity: a known client keeps its session
  and only its encryption flag changes; with room a fresh session is added and nothing else changes; on
  a full store whose least recently used client has no route in flight, exactly that client is
  dropped and reported to the callback.\<close>
theorem session_creation:
  assumes "session_lru S valid" "valid c"
    "get_or_create_session S now c True k enc routes = (c', evicted, created)"
  shows "(lru_peek S c k = Some s \<longrightarrow> \<not> created \<and> evicted = [] \<and>
      lru_peek S c' = (lru_peek S c)(k \<mapsto> s\<lparr>cs_is_encrypted := enc\<rparr>)) \<and>
    (lru_peek S c k = None \<and> session_count S c < lru_cap S c \<longrightarrow> created \<and> evicted = [] \<and>
      lru_peek S c' = (lru_peek S c)(k \<mapsto> client_session_new now enc)) \<and>
    (lru_peek S c k = None \<and> lru_iter S c = es @ [(a, sa)] \<and> length es + 1 = lru_cap S c \<and>
      \<not> has_active_routes_for_client routes a \<longrightarrow>
      created \<and> evicted = [a] \<and> lru_iter S c' = (k, client_session_new now enc) # es)"
proof -
  have "\<not> created \<and> evicted = [] \<and> lru_peek S c' = (lru_peek S c)(k \<mapsto> s\<lparr>cs_is_encrypted := enc\<rparr>)"
    if "lru_peek S c k = Some s"
    using session_lru.get_or_create_old(1) [OF assms(1,2) that, of now True enc routes]
      session_lru.get_or_create_old(2) [OF assms(1,2) that, of enc] assms(3)
    by auto
  moreover have "created \<and> evicted = [] \<and> lru_peek S c' = (lru_peek S c)(k \<mapsto> client_session_new now enc)"
    if "lru_peek S c k = None \<and> session_count S c < lru_cap S c"
    using session_lru.get_or_create_room [OF assms(1,2), of k now True enc routes] that assms(3) by auto
  moreover have "created \<and> evicted = [a] \<and> lru_iter S c' = (k, client_session_new now enc) # es"
    if "lru_peek S c k = None \<and> lru_iter S c = es @ [(a, sa)] \<and> length es + 1 = lru_cap S c \<and>
      \<not> has_active_routes_for_client routes a"
    using session_lru.get_or_create_full [OF assms(1,2), of es a sa k routes now True enc] that assms(3) by auto
  ultimately show ?thesis by blast
qed

definition idle_routes :: "route_entry lru_list route_store" where
  "idle_routes = with_max_routes list_lru 1"

theorem session_creation_witness:
  "\<exists>c'. get_or_create_session list_lru 0 (1, [(''a'', client_session_new 0 True)]) True ''k'' False idle_routes =
     (c', [''a''], True) \<and> lru_iter list_lru c' = [(''k'', client_session_new 0 False)]"
proof -
  let ?c = "(1, [(''a'', client_session_new 0 True)]) :: client_session lru_list"
  let ?r = "get_or_create_session list_lru 0 ?c True ''k'' False idle_routes"
  obtain c' evicted created where r: "?r = (c', evicted, created)" by (cases ?r)
  have "list_lru_valid ?c" by (simp add: list_lru_valid_def keys_ok_def)
  then show ?thesis
    using session_creation [OF session_list.session_lru_axioms _ r, of undefined "[]" "''a''" "client_session_new 0 True"] r
    by (auto simp: lru_peek_def list_lru_def idle_routes_def has_active_routes_for_client_def with_max_routes_def)
qed

text \<open>
  C40. When the least recently used client of a full store still has a route in flight, its session is
  created anew without its negotiated state, and the insertion that does so drops one more session: the
  next client in line, or the very session that was just created if the store holds only one. That
  client's routes are not consulted and the callback is not called for it.\<close>
theorem vetoed_eviction_drops_another:
  assumes "session_lru S valid" "valid c" "lru_iter S c = es @ [(a, sa)]" "length es + 1 = lru_cap S c"
    "lru_peek S c k = None" "has_active_routes_for_client routes a"
    "get_or_create_session S now c True k enc routes = (c', evicted, created)"
  shows "created \<and> evicted = [] \<and>
    lru_iter S c' = (a, client_session_new now (cs_is_encrypted sa)) #
      (case rev es of
         [] \<Rightarrow> []
       | (b, sb) # newer \<Rightarrow> (k, client_session_new now enc) # rev newer)"
proof -
  have "butlast ((k, client_session_new now enc) # es) =
      (case rev es of [] \<Rightarrow> [] | (b, sb) # newer \<Rightarrow> (k, client_session_new now enc) # rev newer)"
    by (cases es rule: rev_cases) (auto split: prod.split)
  then show ?thesis
    using session_lru.get_or_create_vetoed [OF assms(1-6), of now True enc] assms(7) by auto
qed

definition busy_routes :: "route_entry lru_list route_store" where
  "busy_routes = register_route list_lru (register_route list_lru (with_max_routes list_lru 2) 0 ''e1'' ''a'' JNull None)
     0 ''e2'' ''b'' JNull None"

lemma busy_routes_active:
  "has_active_routes_for_client busy_routes ''a''" "has_active_routes_for_client busy_routes ''b''"
  by (simp_all add: busy_routes_def register_route_def with_max_routes_def has_active_routes_for_client_def
      list_lru_def list_push_def non_zero_def)

theorem vetoed_eviction_drops_another_witness:
  "\<exists>c'. get_or_create_session list_lru 5 (2, [(''b'', client_session_new 0 True), (''a'', client_session_new 0 True)])
      True ''k'' False busy_routes = (c', [], True) \<and>
    lru_peek list_lru c' ''b'' = None \<and> has_active_routes_for_client busy_routes ''b''"
proof -
  let ?c = "(2, [(''b'', client_session_new 0 True), (''a'', client_session_new 0 True)]) :: client_session lru_list"
  let ?r = "get_or_create_session list_lru 5 ?c True ''k'' False busy_routes"
  obtain c' evicted created where r: "?r = (c', evicted, created)" by (cases ?r)
  have "list_lru_valid ?c" by (simp add: list_lru_valid_def keys_ok_def)
  then show ?thesis
    using vetoed_eviction_drops_another [OF session_list.session_lru_axioms _ _ _ _ _ r,
        of "[(''b'', client_session_new 0 True)]" "''a''" "client_session_new 0 True"] r
    by (auto simp: lru_peek_def list_lru_def busy_routes_active)
qed

text \<open>
  C36. The cleanup removes exactly the sessions that were inactive for longer than the timeout and
  counts them; it removes exactly the routes and wrap kinds of the requests those sessions had
  pending, and leaves every other session, route and wrap kind as it was.\<close>
theorem cleanup_sessions_exact:
  assumes "session_lru S valid" "valid c" "route_lru R rvalid" "rvalid (rs_routes routes)"
    "cleanup_sessions S R now timeout c routes kinds = (c', routes', kinds', cleaned)"
    "expired = {k. \<exists>s. lru_peek S c k = Some s \<and> timeout < duration_since now (cs_last_activity s)}"
    "stale = (\<Union>k \<in> expired. set (session_events (the (lru_peek S c k))))"
  shows "lru_peek S c' = lru_peek S c |` (- expired) \<and> cleaned = card expired \<and>
    lru_peek R (rs_routes routes') = lru_peek R (rs_routes routes) |` (- stale) \<and>
    map_of kinds' = map_of kinds |` (- stale)"
proof -
  define keys where "keys = map fst (filter (\<lambda>(k, session).
    timeout < duration_since now (cs_last_activity session)) (lru_iter S c))"
  note keys = session_lru.expired_keys [OF assms(1,2) keys_def]
  obtain c1 ids n where p: "pop_expired S keys c = (c1, ids, n)" by (cases "pop_expired S keys c")
  have sim: "lru_peek S c1 = lru_peek S c |` (- set keys)" "n = length keys"
      "set ids = (\<Union>k \<in> set keys. set (session_events (the (lru_peek S c k))))"
    using session_lru.pop_expired_sim [OF assms(1,2) keys(1,3)] p by simp_all
  have "c' = c1" "routes' = remove_routes R ids routes" "kinds' = fold AList.delete ids kinds" "cleaned = n"
    using assms(5) p by (simp_all add: cleanup_sessions_def keys_def)
  moreover have "set keys = expired" using keys(2) assms(6) by simp
  moreover from this have "set ids = stale" using sim(3) assms(7) by simp
  moreover have "length keys = card expired"
    using keys(1) calculation(5) distinct_card by metis
  ultimately show ?thesis
    using sim route_lru.remove_routes_peek [OF assms(3,4), of ids] by (simp add: fold_delete)
qed

definition demo_sessions :: "client_session lru_list" where
  "demo_sessions = (3, [(''new'', client_session_new 9 True),
     (''old'', (client_session_new 0 True)\<lparr>cs_pending_requests := [(''e1'', JNull)]\<rparr>)])"

theorem cleanup_sessions_exact_witness:
  "\<exists>c' routes' kinds'. cleanup_sessions list_lru list_lru 10 5 demo_sessions busy_routes [(''e1'', None), (''e2'', None)] =
     (c', routes', kinds', 1) \<and> lru_peek list_lru c' ''old'' = None \<and>
     lru_peek list_lru c' ''new'' = Some (client_session_new 9 True) \<and> map_of kinds' ''e1'' = None \<and>
     map_of kinds' ''e2'' = Some None"
proof -
  obtain c' routes' kinds' n where r: "cleanup_sessions list_lru list_lru 10 5 demo_sessions busy_routes
      [(''e1'', None), (''e2'', None)] = (c', routes', kinds', n)"
    by (metis prod_cases4)
  have valid: "list_lru_valid demo_sessions" "list_lru_valid (rs_routes busy_routes)"
    by (simp_all add: demo_sessions_def list_lru_valid_def keys_ok_def busy_routes_def register_route_def
        with_max_routes_def list_lru_def list_push_def non_zero_def)
  have expired: "{''old''} = {k. \<exists>s. lru_peek list_lru demo_sessions k = Some s \<and>
      5 < duration_since 10 (cs_last_activity s)}"
    by (auto simp: demo_sessions_def lru_peek_def list_lru_def client_session_new_def duration_since_def
        split: if_splits)
  have held: "lru_peek list_lru demo_sessions ''new'' = Some (client_session_new 9 True)"
      "session_events (the (lru_peek list_lru demo_sessions ''old'')) = [''e1'']"
    by (simp_all add: demo_sessions_def lru_peek_def list_lru_def session_events_def client_session_new_def)
  show ?thesis
    using cleanup_sessions_exact [OF session_list.session_lru_axioms valid(1) route_list.route_lru_axioms valid(2)
        r expired refl] r
    by (simp add: held)
qed

end
