(* ===== verification/Negotiation.thy ===== *)
theory Negotiation
  imports Session_Store
begin

text \<open>
  What a server reads from and writes into the tags of its messages: the discovery tags
  (\<open>src/transport/discovery_tags.rs\<close>), the composition of outgoing tags (\<open>src/transport/base.rs\<close>), the
  negotiation of the payment interaction, its disclosure and the pricing tags, the capability
  exclusions and the choice of the gift-wrap kind (\<open>src/transport/server/mod.rs\<close>).
\<close>

section \<open>Discovery tags\<close>

definition SUPPORT_ENCRYPTION :: string where "SUPPORT_ENCRYPTION = ''support_encryption''"
definition SUPPORT_ENCRYPTION_EPHEMERAL :: string where
  "SUPPORT_ENCRYPTION_EPHEMERAL = ''support_encryption_ephemeral''"
definition SUPPORT_OVERSIZED_TRANSFER :: string where
  "SUPPORT_OVERSIZED_TRANSFER = ''support_oversized_transfer''"
definition SUPPORT_OPEN_STREAM :: string where "SUPPORT_OPEN_STREAM = ''support_open_stream''"

definition NON_DISCOVERY_TAG_NAMES :: "string list" where
  "NON_DISCOVERY_TAG_NAMES = [''p'', ''e'']"

record peer_capabilities =
  pc_supports_encryption :: bool
  pc_supports_ephemeral_encryption :: bool
  pc_supports_oversized_transfer :: bool
  pc_supports_open_stream :: bool

definition has_single_tag :: "tag list \<Rightarrow> string \<Rightarrow> bool" where
  "has_single_tag tags name = list_ex (\<lambda>tag. tag = [name]) tags"

definition get_discovery_tags :: "tag list \<Rightarrow> tag list" where
  "get_discovery_tags tags =
     filter (\<lambda>tag. case tag of name # _ \<Rightarrow> name \<notin> set NON_DISCOVERY_TAG_NAMES | [] \<Rightarrow> False) tags"

definition learn_peer_capabilities :: "tag list \<Rightarrow> peer_capabilities" where
  "learn_peer_capabilities tags =
     \<lparr>pc_supports_encryption = has_single_tag tags SUPPORT_ENCRYPTION,
      pc_supports_ephemeral_encryption = has_single_tag tags SUPPORT_ENCRYPTION_EPHEMERAL,
      pc_supports_oversized_transfer = has_single_tag tags SUPPORT_OVERSIZED_TRANSFER,
      pc_supports_open_stream = has_single_tag tags SUPPORT_OPEN_STREAM\<rparr>"

definition extract_pmis :: "tag list \<Rightarrow> string list" where
  "extract_pmis tags = List.map_filter parse_pmi_tag tags"

definition extract_payment_interaction :: "tag list \<Rightarrow> string option" where
  "extract_payment_interaction tags = get_tag_value tags PAYMENT_INTERACTION_TAG"

record discovered_peer_capabilities =
  dpc_discovery_tags :: "tag list"
  dpc_capabilities :: peer_capabilities

definition parse_discovered_peer_capabilities :: "tag list \<Rightarrow> discovered_peer_capabilities" where
  "parse_discovered_peer_capabilities tags =
     (let discovery_tags = get_discovery_tags tags in
      \<lparr>dpc_discovery_tags = discovery_tags, dpc_capabilities = learn_peer_capabilities discovery_tags\<rparr>)"

section \<open>Outgoing tags\<close>

definition create_recipient_tags :: "string \<Rightarrow> tag list" where
  "create_recipient_tags pubkey = [[''p'', pubkey]]"

definition create_response_tags :: "string \<Rightarrow> string \<Rightarrow> tag list" where
  "create_response_tags pubkey event_id = [[''p'', pubkey], [''e'', event_id]]"

definition compose_outbound_tags :: "tag list \<Rightarrow> tag list \<Rightarrow> tag list \<Rightarrow> tag list" where
  "compose_outbound_tags base_tags discovery_tags negotiation_tags =
     base_tags @ discovery_tags @ negotiation_tags"

definition take_pending_server_discovery_tags ::
  "tag list \<Rightarrow> client_session \<Rightarrow> client_session \<times> tag list" where
  "take_pending_server_discovery_tags common_tags session =
     (if cs_has_sent_common_tags session then (session, [])
      else (session\<lparr>cs_has_sent_common_tags := True\<rparr>, common_tags))"

definition is_capability_list_result :: "json \<Rightarrow> bool" where
  "is_capability_list_result v =
     list_ex (\<lambda>key. case json_get v key of Some (JArray _) \<Rightarrow> True | _ \<Rightarrow> False)
       [''tools'', ''resources'', ''resourceTemplates'', ''prompts'']"

text \<open>Two tags agree when their names and their first values do.\<close>

definition same_name_and_value :: "tag \<Rightarrow> tag \<Rightarrow> bool" where
  "same_name_and_value a b \<longleftrightarrow> take 2 a = take 2 b"

definition compose_response_tags ::
  "tag list \<Rightarrow> tag list \<Rightarrow> payment_interaction_mode option \<Rightarrow> tag list \<Rightarrow> json_rpc_message \<Rightarrow> tag list" where
  "compose_response_tags base_tags discovery disclose pricing response =
     (let tags = compose_outbound_tags base_tags discovery [];
          tags1 = (case disclose of
              None \<Rightarrow> tags
            | Some effective \<Rightarrow>
                let disclosure = payment_interaction_tag effective in
                if list_ex (\<lambda>tag. same_name_and_value tag disclosure) tags then tags
                else tags @ [disclosure]) in
      case response of
        Response r \<Rightarrow> if is_capability_list_result (rsp_result r) then tags1 @ pricing else tags1
      | _ \<Rightarrow> tags1)"

section \<open>Payment interaction\<close>

datatype negotiation_outcome = Proceed | Reject_Unsupported payment_interaction_mode

definition apply_effective ::
  "client_session \<Rightarrow> payment_interaction_mode option \<Rightarrow> payment_interaction_mode \<Rightarrow> client_session" where
  "apply_effective session prev_effective mode =
     (if Some mode \<noteq> prev_effective
      then session\<lparr>cs_effective_payment_interaction := Some mode,
                   cs_has_disclosed_payment_interaction := False\<rparr>
      else session)"

definition negotiate_payment_interaction ::
  "client_session \<Rightarrow> tag list \<Rightarrow> string option \<Rightarrow> bool \<Rightarrow> bool \<Rightarrow> client_session \<times> negotiation_outcome" where
  "negotiate_payment_interaction session0 inner_tags method is_request supports_explicit_gating =
     (let session =
        (if is_request \<and> method = Some ''initialize''
         then session0\<lparr>cs_requested_payment_interaction := None,
                cs_effective_payment_interaction := None, cs_has_disclosed_payment_interaction := False\<rparr>
         else session0) in
      case extract_payment_interaction inner_tags of
        None \<Rightarrow> (session, Proceed)
      | Some raw \<Rightarrow>
          let prev_effective = cs_effective_payment_interaction session in
          if raw = ''transparent'' \<or> raw = ''explicit_gating'' then
            let mode = (if raw = ''explicit_gating'' then Explicit_Gating else Transparent);
                session1 = session\<lparr>cs_requested_payment_interaction := Some mode\<rparr>;
                rejected = (mode = Explicit_Gating \<and> \<not> supports_explicit_gating);
                session2 = (if rejected then apply_effective session1 prev_effective Transparent
                            else session1) in
            if rejected \<and> is_request then (session2, Reject_Unsupported mode)
            else
              let effective = (if supports_explicit_gating then mode else Transparent) in
              (apply_effective session2 prev_effective effective, Proceed)
          else
            (apply_effective (session\<lparr>cs_requested_payment_interaction := Some Transparent\<rparr>)
               prev_effective Transparent, Proceed))"

definition unsupported_payment_interaction_error ::
  "json_rpc_message \<Rightarrow> payment_interaction_mode \<Rightarrow> json_rpc_message" where
  "unsupported_payment_interaction_error inbound requested =
     (let i = (case inbound of Request req \<Rightarrow> req_id req | _ \<Rightarrow> JNull) in
      ErrorResponse \<lparr>ers_jsonrpc = ''2.0'', ers_id = i, ers_error =
        \<lparr>err_code = UNSUPPORTED_PAYMENT_INTERACTION_ERROR_CODE,
         err_message = ''Unsupported payment_interaction mode: explicit_gating'',
         err_data = Some (unsupported_payment_interaction_data_to_value
           (unsupported_payment_interaction_data_new requested))\<rparr>\<rparr>)"

definition take_payment_interaction_disclosure ::
  "client_session \<Rightarrow> client_session \<times> payment_interaction_mode option" where
  "take_payment_interaction_disclosure session =
     (case (cs_requested_payment_interaction session, cs_effective_payment_interaction session) of
        (Some requested, Some effective) \<Rightarrow>
          if requested \<noteq> Transparent \<and> \<not> cs_has_disclosed_payment_interaction session
          then (session\<lparr>cs_has_disclosed_payment_interaction := True\<rparr>, Some effective)
          else (session, None)
      | _ \<Rightarrow> (session, None))"

section \<open>Authorization and encryption\<close>

record capability_exclusion =
  ce_method :: string
  ce_name :: "string option"

definition is_capability_excluded :: "capability_exclusion list \<Rightarrow> string \<Rightarrow> string option \<Rightarrow> bool" where
  "is_capability_excluded excluded method name =
     (if method = ''initialize'' \<or> method = ''notifications/initialized'' then True
      else list_ex (\<lambda>excl.
        if ce_method excl \<noteq> method then False
        else (case (ce_name excl, name) of
                (Some excl_name, Some req_name) \<Rightarrow> excl_name = req_name
              | (None, _) \<Rightarrow> True
              | _ \<Rightarrow> False)) excluded)"

fun default_wrap_kind :: "gift_wrap_mode \<Rightarrow> u16" where
  "default_wrap_kind WrapPersistent = GIFT_WRAP_KIND"
| "default_wrap_kind WrapEphemeral = EPHEMERAL_GIFT_WRAP_KIND"
| "default_wrap_kind WrapOptional = GIFT_WRAP_KIND"

definition select_outbound_gift_wrap_kind :: "gift_wrap_mode \<Rightarrow> bool \<Rightarrow> u16 option \<Rightarrow> u16 option" where
  "select_outbound_gift_wrap_kind mode is_encrypted mirrored_kind =
     (if \<not> is_encrypted then None
      else case mirrored_kind of
        Some kind \<Rightarrow> Some (if allows_kind mode kind then kind else default_wrap_kind mode)
      | None \<Rightarrow> Some (default_wrap_kind mode))"

definition select_outbound_notification_gift_wrap_kind ::
  "gift_wrap_mode \<Rightarrow> bool \<Rightarrow> u16 option \<Rightarrow> bool \<Rightarrow> u16 option" where
  "select_outbound_notification_gift_wrap_kind mode is_encrypted correlated_wrap_kind
     client_supports_ephemeral =
     (let fallback = Some (if client_supports_ephemeral \<and> supports_ephemeral mode
                           then EPHEMERAL_GIFT_WRAP_KIND else default_wrap_kind mode) in
      if \<not> is_encrypted then None
      else case correlated_wrap_kind of
        Some kind \<Rightarrow> if allows_kind mode kind then Some kind else fallback
      | None \<Rightarrow> fallback)"

section \<open>The tags of an answer\<close>

text \<open>
  What every response path does with the session: it takes both one-shot notices and composes the
  tags from them.
\<close>

definition answer_tags ::
  "tag list \<Rightarrow> tag list \<Rightarrow> string \<Rightarrow> string \<Rightarrow> json_rpc_message \<Rightarrow> client_session \<Rightarrow> client_session \<times> tag list"
where
  "answer_tags common pricing client_pubkey event_id response session =
     (let (session1, discovery) = take_pending_server_discovery_tags common session;
          (session2, disclose) = take_payment_interaction_disclosure session1 in
      (session2, compose_response_tags (create_response_tags client_pubkey event_id) discovery disclose
         pricing response))"

section \<open>Negotiation against its specification\<close>

text \<open>
  The specification reads the whole history of a client, newest message first: the payment interaction
  the client wants is the tag of the newest message that carries one, unless a newer \<open>initialize\<close>
  request opened the negotiation again.
\<close>

record inbound_message =
  im_tags :: "tag list"
  im_method :: "string option"
  im_is_request :: bool

definition opens :: "inbound_message \<Rightarrow> bool" where
  "opens m \<longleftrightarrow> im_is_request m \<and> im_method m = Some ''initialize''"

primrec wanted :: "inbound_message list \<Rightarrow> string option" where
  "wanted [] = None"
| "wanted (m # older) =
     (case extract_payment_interaction (im_tags m) of
        Some raw \<Rightarrow> Some raw
      | None \<Rightarrow> if opens m then None else wanted older)"

definition asked :: "string \<Rightarrow> payment_interaction_mode" where
  "asked raw = (if raw = ''explicit_gating'' then Explicit_Gating else Transparent)"

definition granted :: "bool \<Rightarrow> string \<Rightarrow> payment_interaction_mode" where
  "granted supports raw = (if supports then asked raw else Transparent)"

definition negotiate_message ::
  "bool \<Rightarrow> client_session \<Rightarrow> inbound_message \<Rightarrow> client_session \<times> negotiation_outcome" where
  "negotiate_message supports s m =
     negotiate_payment_interaction s (im_tags m) (im_method m) (im_is_request m) supports"

definition negotiate_all :: "bool \<Rightarrow> client_session \<Rightarrow> inbound_message list \<Rightarrow> client_session" where
  "negotiate_all supports s msgs = foldl (\<lambda>s m. fst (negotiate_message supports s m)) s msgs"

lemma apply_effective_simps [simp]:
  "cs_requested_payment_interaction (apply_effective s prev mode) = cs_requested_payment_interaction s"
  "cs_effective_payment_interaction s = prev \<Longrightarrow>
   cs_effective_payment_interaction (apply_effective s prev mode) = Some mode"
  by (auto simp: apply_effective_def)

lemma apply_effective_twice:
  "apply_effective (apply_effective s prev mode) prev mode = apply_effective s prev mode"
  by (simp add: apply_effective_def)

lemma negotiate_message_session:
  "cs_effective_payment_interaction (fst (negotiate_message supports s m)) =
     (case extract_payment_interaction (im_tags m) of
        Some raw \<Rightarrow> Some (granted supports raw)
      | None \<Rightarrow> if opens m then None else cs_effective_payment_interaction s)"
  "cs_requested_payment_interaction (fst (negotiate_message supports s m)) =
     (case extract_payment_interaction (im_tags m) of
        Some raw \<Rightarrow> Some (asked raw)
      | None \<Rightarrow> if opens m then None else cs_requested_payment_interaction s)"
  by (auto simp: negotiate_message_def negotiate_payment_interaction_def opens_def asked_def granted_def
      Let_def apply_effective_twice split: option.split)

lemma negotiate_message_outcome:
  "snd (negotiate_message supports s m) =
     (if im_is_request m \<and> \<not> supports \<and> extract_payment_interaction (im_tags m) = Some ''explicit_gating''
      then Reject_Unsupported Explicit_Gating else Proceed)"
  by (auto simp: negotiate_message_def negotiate_payment_interaction_def Let_def split: option.split)

text \<open>
  C15. After any history of messages a session's requested and effective payment interaction are those
  of the specification: what the client wants since its last \<open>initialize\<close>, with everything but a
  supported \<open>explicit_gating\<close> read as \<open>transparent\<close>. A message is rejected exactly when it is a request
  for \<open>explicit_gating\<close> that the server does not support.\<close>
theorem negotiation_correct:
  "cs_effective_payment_interaction (negotiate_all supports (client_session_new now enc) msgs) =
     map_option (granted supports) (wanted (rev msgs)) \<and>
   cs_requested_payment_interaction (negotiate_all supports (client_session_new now enc) msgs) =
     map_option asked (wanted (rev msgs)) \<and>
   snd (negotiate_message supports (negotiate_all supports (client_session_new now enc) msgs) m) =
     (if im_is_request m \<and> \<not> supports \<and> extract_payment_interaction (im_tags m) = Some ''explicit_gating''
      then Reject_Unsupported Explicit_Gating else Proceed)"
proof -
  have "cs_effective_payment_interaction (negotiate_all supports (client_session_new now enc) msgs) =
      map_option (granted supports) (wanted (rev msgs)) \<and>
    cs_requested_payment_interaction (negotiate_all supports (client_session_new now enc) msgs) =
      map_option asked (wanted (rev msgs))"
  proof (induction msgs rule: rev_induct)
    case Nil
    show ?case by (simp add: negotiate_all_def client_session_new_def)
  next
    case (snoc m msgs)
    then show ?case
      by (simp add: negotiate_all_def negotiate_message_session split: option.split)
  qed
  then show ?thesis by (simp add: negotiate_message_outcome)
qed

section \<open>Disclosure\<close>

lemma extract_append:
  "extract_payment_interaction (xs @ ys) =
     (case extract_payment_interaction xs of Some v \<Rightarrow> Some v | None \<Rightarrow> extract_payment_interaction ys)"
  by (induction xs) (auto simp: extract_payment_interaction_def split: option.split)

lemma payment_interaction_tag_value [simp]:
  "extract_payment_interaction [payment_interaction_tag mode] = Some (mode_value mode)"
  by (simp add: extract_payment_interaction_def payment_interaction_tag_def)

lemma same_tag_extracted:
  assumes "tag \<in> set tags" "same_name_and_value tag (payment_interaction_tag mode)"
  shows "extract_payment_interaction tags \<noteq> None"
proof -
  have "tag_value PAYMENT_INTERACTION_TAG tag = Some (mode_value mode)"
    using assms(2) by (cases tag rule: remdups_adj.cases)
      (auto simp: same_name_and_value_def payment_interaction_tag_def)
  with assms(1) show ?thesis
    by (induction tags) (auto simp: extract_payment_interaction_def split: option.split)
qed

lemma response_tags_no_mode [simp]: "extract_payment_interaction (create_response_tags c e) = None"
  by (simp add: extract_payment_interaction_def create_response_tags_def PAYMENT_INTERACTION_TAG_def)

lemma take_discovery_simps [simp]:
  "cs_requested_payment_interaction (fst (take_pending_server_discovery_tags common s)) =
     cs_requested_payment_interaction s"
  "cs_effective_payment_interaction (fst (take_pending_server_discovery_tags common s)) =
     cs_effective_payment_interaction s"
  "cs_has_disclosed_payment_interaction (fst (take_pending_server_discovery_tags common s)) =
     cs_has_disclosed_payment_interaction s"
  "snd (take_pending_server_discovery_tags common s) \<in> {[], common}"
  by (simp_all add: take_pending_server_discovery_tags_def)

lemma negotiate_rearms:
  assumes "extract_payment_interaction (im_tags m) = Some ''explicit_gating''"
    "opens m \<or> cs_effective_payment_interaction s \<noteq> Some (granted supports ''explicit_gating'')"
  shows "\<not> cs_has_disclosed_payment_interaction (fst (negotiate_message supports s m))"
  using assms
  by (auto simp: negotiate_message_def negotiate_payment_interaction_def opens_def asked_def granted_def
      Let_def apply_effective_def)

text \<open>The tags a sequence of answers carries, and the prices an answer brings with it.\<close>

primrec answer_all ::
  "tag list \<Rightarrow> tag list \<Rightarrow> (string \<times> string \<times> json_rpc_message) list \<Rightarrow> client_session \<Rightarrow> tag list list" where
  "answer_all common pricing [] s = []"
| "answer_all common pricing (answer # later) s =
     (case answer of (c, e, response) \<Rightarrow>
        let (s1, tags) = answer_tags common pricing c e response s in
        tags # answer_all common pricing later s1)"

definition prices_in :: "tag list \<Rightarrow> json_rpc_message \<Rightarrow> tag list" where
  "prices_in pricing response =
     (case response of
        Response r \<Rightarrow> if is_capability_list_result (rsp_result r) then pricing else []
      | _ \<Rightarrow> [])"

lemma negotiate_common_tags:
  "cs_has_sent_common_tags (fst (negotiate_message supports s m)) = cs_has_sent_common_tags s"
  by (auto simp: negotiate_message_def negotiate_payment_interaction_def Let_def apply_effective_def
      split: option.split)

lemma disclosing_answer:
  assumes "cs_requested_payment_interaction s = Some Explicit_Gating"
    "cs_effective_payment_interaction s = Some mode" "\<not> cs_has_disclosed_payment_interaction s"
    "extract_payment_interaction common = None"
  shows "answer_tags common pricing c e response s =
    (s\<lparr>cs_has_sent_common_tags := True, cs_has_disclosed_payment_interaction := True\<rparr>,
     create_response_tags c e @ (if cs_has_sent_common_tags s then [] else common) @
       payment_interaction_tag mode # prices_in pricing response)"
proof -
  have "\<not> same_name_and_value tag (payment_interaction_tag mode)"
    if "tag \<in> set (create_response_tags c e @ tags)" "tags \<in> {[], common}" for tag tags
    using same_tag_extracted [OF that(1)] that(2) assms(4)
    by (auto simp: extract_append) (simp add: extract_payment_interaction_def)
  then have "\<not> list_ex (\<lambda>tag. same_name_and_value tag (payment_interaction_tag mode)) (create_response_tags c e @ tags)"
    if "tags \<in> {[], common}" for tags
    using that by (auto simp: list_ex_iff)
  from this [of "[]"] this [of common] show ?thesis
    using assms(1-3)
    by (auto simp: answer_tags_def take_pending_server_discovery_tags_def prices_in_def
        take_payment_interaction_disclosure_def compose_response_tags_def compose_outbound_tags_def Let_def
        split: json_rpc_message.split)
qed

lemma later_answers:
  assumes "cs_has_sent_common_tags s" "cs_has_disclosed_payment_interaction s"
  shows "answer_all common pricing later s =
    map (\<lambda>(c, e, response). create_response_tags c e @ prices_in pricing response) later"
proof (induction later)
  case (Cons answer later)
  have "answer_tags common pricing c e response s =
      (s, create_response_tags c e @ prices_in pricing response)" for c e response
    using assms
    by (auto simp: answer_tags_def take_pending_server_discovery_tags_def prices_in_def
        take_payment_interaction_disclosure_def compose_response_tags_def compose_outbound_tags_def Let_def
        split: json_rpc_message.split option.split)
  then show ?case using Cons by (cases answer) simp
qed simp

text \<open>
  C37. A client that asks for \<open>explicit_gating\<close>, on a session that is not already in the mode it will
  get, is told the effective mode once: the next answer carries the routing tags, the discovery tags if the
  session has had no answer yet, the effective mode, and the prices when it is a capability list; every
  later answer, until the client negotiates again, carries the routing tags and the prices alone. Assumed:
  the discovery and pricing tags of the server contain no mode of their own, which the code would take
  for the disclosure.\<close>
theorem disclosure_read_once:
  assumes "extract_payment_interaction (im_tags m) = Some ''explicit_gating''"
    "opens m \<or> cs_effective_payment_interaction s \<noteq> Some (granted supports ''explicit_gating'')"
    "extract_payment_interaction common = None" "extract_payment_interaction pricing = None"
    "negotiate_message supports s m = (s1, outcome)"
  shows "answer_all common pricing ((c, e, response) # later) s1 =
      (create_response_tags c e @ (if cs_has_sent_common_tags s then [] else common) @
         payment_interaction_tag (granted supports ''explicit_gating'') # prices_in pricing response) #
      map (\<lambda>(c, e, response). create_response_tags c e @ prices_in pricing response) later \<and>
    map extract_payment_interaction (answer_all common pricing ((c, e, response) # later) s1) =
      Some (mode_value (granted supports ''explicit_gating'')) # map (\<lambda>_. None) later"
proof -
  have s1: "cs_requested_payment_interaction s1 = Some Explicit_Gating"
      "cs_effective_payment_interaction s1 = Some (granted supports ''explicit_gating'')"
      "\<not> cs_has_disclosed_payment_interaction s1" "cs_has_sent_common_tags s1 = cs_has_sent_common_tags s"
    using negotiate_message_session [of supports s m] negotiate_rearms [OF assms(1,2)] assms(1,5)
      negotiate_common_tags [of supports s m] by (simp_all add: asked_def)
  have "answer_all common pricing ((c, e, response) # later) s1 =
      (create_response_tags c e @ (if cs_has_sent_common_tags s then [] else common) @
         payment_interaction_tag (granted supports ''explicit_gating'') # prices_in pricing response) #
      map (\<lambda>(c, e, response). create_response_tags c e @ prices_in pricing response) later"
    using disclosing_answer [OF s1(1-3) assms(3)] s1(4) by (simp add: later_answers)
  moreover have "extract_payment_interaction (prices_in pricing response) = None" for response
    using assms(4) by (simp add: prices_in_def extract_payment_interaction_def split: json_rpc_message.split)
  moreover have "extract_payment_interaction (payment_interaction_tag mode # tags) = Some (mode_value mode)"
    for mode tags
    using extract_append [of "[payment_interaction_tag mode]" tags] by simp
  ultimately show ?thesis
    using assms(3) by (simp add: extract_append split_def) (simp add: extract_payment_interaction_def)
qed

theorem disclosure_read_once_witness:
  "map extract_payment_interaction (answer_all [[''name'', ''srv'']] [[''cap'', ''tool:x'', ''5'', ''sat'']]
      [(''c'', ''e'', Response \<lparr>rsp_jsonrpc = ''2.0'', rsp_id = JNull, rsp_result = JObject [(''tools'', JArray [])]\<rparr>),
       (''c'', ''f'', Response \<lparr>rsp_jsonrpc = ''2.0'', rsp_id = JNull, rsp_result = JNull\<rparr>)]
      (fst (negotiate_message True (client_session_new 0 True)
        \<lparr>im_tags = [[''payment_interaction'', ''explicit_gating'']], im_method = Some ''tools/list'',
         im_is_request = True\<rparr>))) = [Some ''explicit_gating'', None]"
proof -
  let ?m = "\<lparr>im_tags = [[''payment_interaction'', ''explicit_gating'']], im_method = Some ''tools/list'',
    im_is_request = True\<rparr>"
  obtain s1 r where s1: "negotiate_message True (client_session_new 0 True) ?m = (s1, r)" by fastforce
  let ?answers = "[(''c'', ''e'', Response \<lparr>rsp_jsonrpc = ''2.0'', rsp_id = JNull,
      rsp_result = JObject [(''tools'', JArray [])]\<rparr>),
    (''c'', ''f'', Response \<lparr>rsp_jsonrpc = ''2.0'', rsp_id = JNull, rsp_result = JNull\<rparr>)]"
  have "map extract_payment_interaction (answer_all [[''name'', ''srv'']] [[''cap'', ''tool:x'', ''5'', ''sat'']]
      ?answers s1) = Some (mode_value (granted True ''explicit_gating'')) # map (\<lambda>_. None) (tl ?answers)"
    unfolding list.sel(3)
    by (rule conjunct2 [OF disclosure_read_once [OF _ _ _ _ s1]])
      (simp_all add: extract_payment_interaction_def PAYMENT_INTERACTION_TAG_def client_session_new_def)
  then show ?thesis by (simp add: s1 granted_def asked_def del: answer_all.simps)
qed

end
