(* ===== verification/Server_State.thy ===== *)
theory Server_State
  imports Negotiation Oversized_Receiver Open_Stream_Session
begin

text \<open>
  The state of the server transport (\<open>src/transport/server/mod.rs\<close>) and the operations on its
  open-stream slots and payment route snapshots, each of which is one critical section of the code.

  The Nostr library is the parameter \<open>N\<close>: signature verification, decryption of a gift wrap, the
  reader of serialized events and the two hexadecimal readers. Public keys and event ids are their
  hexadecimal strings. The five LRU caches are the fields of the parameter \<open>C\<close>.
\<close>

section \<open>Events and configuration\<close>

record nostr_event =
  ev_id :: string
  ev_pubkey :: string
  ev_kind :: u16
  ev_tags :: "tag list"
  ev_content :: string

record nostr =
  nx_verify :: "nostr_event \<Rightarrow> bool"
  nx_decrypt :: "nostr_event \<Rightarrow> string option"
  nx_event_of_json :: "string \<Rightarrow> nostr_event option"
  nx_pubkey_ok :: "string \<Rightarrow> bool"
  nx_event_id_ok :: "string \<Rightarrow> bool"

text \<open>
  The fields of \<open>NostrServerTransportConfig\<close> that the modelled code reads, the tag sets that
  \<open>start\<close> takes from the announcement manager, and whether a callback and middlewares are installed.
\<close>

record server_config =
  sc_encryption_mode :: encryption_mode
  sc_gift_wrap_mode :: gift_wrap_mode
  sc_is_announced_server :: bool
  sc_allowed_public_keys :: "string list"
  sc_excluded_capabilities :: "capability_exclusion list"
  sc_max_sessions :: nat
  sc_session_timeout :: duration
  sc_request_timeout :: duration
  sc_oversized_enabled :: bool
  sc_oversized_threshold :: nat
  sc_transfer_policy :: transfer_policy
  sc_open_stream_enabled :: bool
  sc_supports_explicit_gating :: bool
  sc_common_tags :: "tag list"
  sc_refusal_tags :: "tag list"
  sc_pricing_tags :: "tag list"
  sc_on_evicted :: bool
  sc_middlewares :: bool

record route_snapshot =
  rsn_client_pubkey :: string
  rsn_original_request_id :: json
  rsn_is_encrypted :: bool
  rsn_mirrored_wrap_kind :: "u16 option"

record payment_route_snapshot =
  prs_snapshot :: route_snapshot
  prs_expires_at :: instant

text \<open>Of the writer in a slot the transport reads the progress token and whether it has started.\<close>

record open_stream_slot =
  sl_progress_token :: string
  sl_has_started :: bool
  sl_snapshot :: route_snapshot
  sl_pending_response :: "json_rpc_message option"
  sl_terminated :: bool
  sl_forwarded :: bool
  sl_live_chains :: nat

record ('s, 'r, 'g, 'p, 'o) caches =
  lc_sessions :: "('s, client_session) lru_ops"
  lc_routes :: "('r, route_entry) lru_ops"
  lc_seen :: "('g, unit) lru_ops"
  lc_snapshots :: "('p, payment_route_snapshot) lru_ops"
  lc_oversized :: "('o, receiver) lru_ops"

section \<open>What the server does\<close>

text \<open>
  \<open>send_mcp_message\<close> signs the message and wraps it when the policy says so; a publication is what
  reaches the relay pool.
\<close>

record publication =
  pb_message :: json_rpc_message
  pb_recipient :: string
  pb_tags :: "tag list"
  pb_wrap :: "u16 option"

record incoming_request =
  in_message :: json_rpc_message
  in_client_pubkey :: string
  in_event_id :: string
  in_is_encrypted :: bool
  in_event :: "nostr_event option"

record chain_context =
  cc_client_pmis :: "string list option"
  cc_payment_interaction :: payment_interaction_mode
  cc_mirrored_wrap_kind :: "u16 option"

datatype server_effect =
    Refused publication
  | Accept_Sent publication
  | Admitted incoming_request chain_context
  | Delivered incoming_request
  | Session_Evicted string
  | Stream_Frame json_rpc_notification string string bool
  | Answered string publication
  | Answered_In_Frames string string json_rpc_message string "tag list" "tag list" "u16 option"
  | Targeted string publication
  | Notified publication

record chain_run =
  cr_incoming :: incoming_request
  cr_forwarded :: bool
  cr_reached :: bool

datatype server_task =
    Chain chain_run
  | Sending_Response string route_entry
  | Sending_Deferred string "payment_route_snapshot option"

record ('s, 'r, 'g, 'p, 'o) server =
  sv_sessions :: 's
  sv_routes :: "'r route_store"
  sv_wrap_kinds :: "(string, u16 option) hash_map"
  sv_seen :: 'g
  sv_oversized :: 'o
  sv_slots :: "(string, open_stream_slot) hash_map"
  sv_token_to_event :: "(string, string) hash_map"
  sv_snapshots :: 'p
  sv_event_loop :: bool
  sv_tasks :: "(nat \<times> server_task) list"
  sv_next :: nat
  sv_out :: "server_effect list"

definition server_new ::
  "('s, 'r, 'g, 'p, 'o) caches \<Rightarrow> server_config \<Rightarrow> ('s, 'r, 'g, 'p, 'o) server" where
  "server_new C cfg =
     \<lparr>sv_sessions = with_capacity (lc_sessions C) (sc_max_sessions cfg),
      sv_routes = with_max_routes (lc_routes C) DEFAULT_LRU_SIZE, sv_wrap_kinds = [],
      sv_seen = lru_new (lc_seen C) DEFAULT_LRU_SIZE,
      sv_oversized = lru_new (lc_oversized C) (non_zero (sc_max_sessions cfg)),
      sv_slots = [], sv_token_to_event = [],
      sv_snapshots = lru_new (lc_snapshots C) DEFAULT_LRU_SIZE, sv_event_loop = True,
      sv_tasks = [], sv_next = 0, sv_out = []\<rparr>"

definition emit :: "server_effect \<Rightarrow> ('s, 'r, 'g, 'p, 'o) server \<Rightarrow> ('s, 'r, 'g, 'p, 'o) server" where
  "emit effect s = s\<lparr>sv_out := sv_out s @ [effect]\<rparr>"

definition spawn_server :: "server_task \<Rightarrow> ('s, 'r, 'g, 'p, 'o) server \<Rightarrow> ('s, 'r, 'g, 'p, 'o) server" where
  "spawn_server task s = s\<lparr>sv_tasks := (sv_next s, task) # sv_tasks s, sv_next := Suc (sv_next s)\<rparr>"

definition send_mcp_message ::
  "server_config \<Rightarrow> json_rpc_message \<Rightarrow> string \<Rightarrow> tag list \<Rightarrow> bool \<Rightarrow> u16 option \<Rightarrow> publication" where
  "send_mcp_message cfg message recipient tags is_encrypted gift_wrap_kind =
     \<lparr>pb_message = message, pb_recipient = recipient, pb_tags = tags,
      pb_wrap =
        (if should_encrypt (sc_encryption_mode cfg) CTXVM_MESSAGES_KIND (Some is_encrypted)
         then Some (case gift_wrap_kind of Some kind \<Rightarrow> kind | None \<Rightarrow> GIFT_WRAP_KIND) else None)\<rparr>"

section \<open>Open-stream slots\<close>

definition client_token_key :: "string \<Rightarrow> string \<Rightarrow> string" where
  "client_token_key client_pubkey_hex token = client_pubkey_hex @ '':'' @ token"

definition update_slot ::
  "string \<Rightarrow> (open_stream_slot \<Rightarrow> open_stream_slot) \<Rightarrow> ('s, 'r, 'g, 'p, 'o) server \<Rightarrow>
   ('s, 'r, 'g, 'p, 'o) server" where
  "update_slot event_id f s =
     (case map_of (sv_slots s) event_id of
        None \<Rightarrow> s
      | Some slot \<Rightarrow> s\<lparr>sv_slots := AList.update event_id (f slot) (sv_slots s)\<rparr>)"

definition mark_forwarded :: "string \<Rightarrow> ('s, 'r, 'g, 'p, 'o) server \<Rightarrow> ('s, 'r, 'g, 'p, 'o) server" where
  "mark_forwarded event_id s = update_slot event_id (\<lambda>slot. slot\<lparr>sl_forwarded := True\<rparr>) s"

definition enter_chain :: "string \<Rightarrow> ('s, 'r, 'g, 'p, 'o) server \<Rightarrow> ('s, 'r, 'g, 'p, 'o) server" where
  "enter_chain event_id s =
     update_slot event_id (\<lambda>slot. slot\<lparr>sl_live_chains := Suc (sl_live_chains slot)\<rparr>) s"

definition leave_chain ::
  "string \<Rightarrow> ('s, 'r, 'g, 'p, 'o) server \<Rightarrow> ('s, 'r, 'g, 'p, 'o) server \<times> open_stream_slot option" where
  "leave_chain event_id s =
     (case map_of (sv_slots s) event_id of
        None \<Rightarrow> (s, None)
      | Some slot \<Rightarrow>
          let slot1 = slot\<lparr>sl_live_chains := sl_live_chains slot - 1\<rparr> in
          if sl_live_chains slot1 = 0 \<and> \<not> sl_forwarded slot1
          then (s\<lparr>sv_slots := AList.delete event_id (sv_slots s)\<rparr>, Some slot1)
          else (s\<lparr>sv_slots := AList.update event_id slot1 (sv_slots s)\<rparr>, None))"

definition event_id_for_token :: "string \<Rightarrow> string \<Rightarrow> ('s, 'r, 'g, 'p, 'o) server \<Rightarrow> string option" where
  "event_id_for_token client_pubkey_hex token s =
     map_of (sv_token_to_event s) (client_token_key client_pubkey_hex token)"

definition drop_token :: "open_stream_slot \<Rightarrow> ('s, 'r, 'g, 'p, 'o) server \<Rightarrow> ('s, 'r, 'g, 'p, 'o) server" where
  "drop_token slot s =
     s\<lparr>sv_token_to_event := AList.delete
         (client_token_key (rsn_client_pubkey (sl_snapshot slot)) (sl_progress_token slot))
         (sv_token_to_event s)\<rparr>"

definition create_open_stream_writer ::
  "nostr \<Rightarrow> string \<Rightarrow> string \<Rightarrow> string \<Rightarrow> json \<Rightarrow> bool \<Rightarrow> u16 option \<Rightarrow> ('s, 'r, 'g, 'p, 'o) server \<Rightarrow>
   ('s, 'r, 'g, 'p, 'o) server" where
  "create_open_stream_writer N event_id client_pubkey_hex progress_token original_request_id is_encrypted
     mirrored_wrap_kind s =
     (if \<not> nx_pubkey_ok N client_pubkey_hex \<or> \<not> nx_event_id_ok N event_id
        \<or> contains_key (sv_slots s) event_id then s
      else
        s\<lparr>sv_slots := AList.update event_id
            \<lparr>sl_progress_token = progress_token, sl_has_started = False,
             sl_snapshot = \<lparr>rsn_client_pubkey = client_pubkey_hex,
               rsn_original_request_id = original_request_id, rsn_is_encrypted = is_encrypted,
               rsn_mirrored_wrap_kind = mirrored_wrap_kind\<rparr>,
             sl_pending_response = None, sl_terminated = False, sl_forwarded = False,
             sl_live_chains = 0\<rparr> (sv_slots s),
          sv_token_to_event := AList.update (client_token_key client_pubkey_hex progress_token) event_id
            (sv_token_to_event s)\<rparr>)"

section \<open>Payment route snapshots\<close>

definition take_payment_route_snapshot ::
  "('s, 'r, 'g, 'p, 'o) caches \<Rightarrow> string \<Rightarrow> ('s, 'r, 'g, 'p, 'o) server \<Rightarrow>
   ('s, 'r, 'g, 'p, 'o) server \<times> payment_route_snapshot option" where
  "take_payment_route_snapshot C event_id s =
     (let (c, entry) = lru_pop (lc_snapshots C) (sv_snapshots s) event_id in
      (s\<lparr>sv_snapshots := c\<rparr>, entry))"

definition reinsert_payment_route_snapshot ::
  "('s, 'r, 'g, 'p, 'o) caches \<Rightarrow> string \<Rightarrow> payment_route_snapshot \<Rightarrow> ('s, 'r, 'g, 'p, 'o) server \<Rightarrow>
   ('s, 'r, 'g, 'p, 'o) server" where
  "reinsert_payment_route_snapshot C event_id entry s =
     s\<lparr>sv_snapshots := lru_put (lc_snapshots C) (sv_snapshots s) event_id entry\<rparr>"

definition record_payment_route_snapshot ::
  "('s, 'r, 'g, 'p, 'o) caches \<Rightarrow> instant \<Rightarrow> string \<Rightarrow> route_snapshot \<Rightarrow> instant \<Rightarrow>
   ('s, 'r, 'g, 'p, 'o) server \<Rightarrow> ('s, 'r, 'g, 'p, 'o) server" where
  "record_payment_route_snapshot C now event_id snapshot expires_at s =
     (let P = lc_snapshots C; cache = sv_snapshots s;
          entry = \<lparr>prs_snapshot = snapshot, prs_expires_at = expires_at\<rparr> in
      if lru_contains P cache event_id
      then s\<lparr>sv_snapshots := lru_peek_mut P cache event_id (\<lambda>existing.
               if prs_expires_at existing < expires_at then existing\<lparr>prs_expires_at := expires_at\<rparr>
               else existing)\<rparr>
      else if lru_len P cache = lru_cap P cache then
        (case find (\<lambda>(key, e). prs_expires_at e \<le> now) (lru_iter P cache) of
           Some (key, e) \<Rightarrow>
             s\<lparr>sv_snapshots := lru_put P (fst (lru_pop P cache key)) event_id entry\<rparr>
         | None \<Rightarrow> s)
      else s\<lparr>sv_snapshots := lru_put P cache event_id entry\<rparr>)"

definition purge_payment_snapshots ::
  "('s, 'r, 'g, 'p, 'o) caches \<Rightarrow> instant \<Rightarrow> ('s, 'r, 'g, 'p, 'o) server \<Rightarrow> ('s, 'r, 'g, 'p, 'o) server" where
  "purge_payment_snapshots C now s =
     (let P = lc_snapshots C;
          expired = map fst (filter (\<lambda>(key, entry). prs_expires_at entry \<le> now)
                      (lru_iter P (sv_snapshots s))) in
      s\<lparr>sv_snapshots := pop_all P expired (sv_snapshots s)\<rparr>)"

section \<open>Frames\<close>

text \<open>Which parts of the state an operation leaves alone.\<close>

named_theorems server_frame

lemma emit_frame [server_frame]:
  "sv_sessions (emit x s) = sv_sessions s" "sv_routes (emit x s) = sv_routes s"
  "sv_wrap_kinds (emit x s) = sv_wrap_kinds s" "sv_seen (emit x s) = sv_seen s"
  "sv_oversized (emit x s) = sv_oversized s" "sv_slots (emit x s) = sv_slots s"
  "sv_token_to_event (emit x s) = sv_token_to_event s" "sv_snapshots (emit x s) = sv_snapshots s"
  "sv_event_loop (emit x s) = sv_event_loop s" "sv_tasks (emit x s) = sv_tasks s"
  "sv_next (emit x s) = sv_next s" "sv_out (emit x s) = sv_out s @ [x]"
  by (simp_all add: emit_def)

lemma spawn_frame [server_frame]:
  "sv_sessions (spawn_server t s) = sv_sessions s" "sv_routes (spawn_server t s) = sv_routes s"
  "sv_wrap_kinds (spawn_server t s) = sv_wrap_kinds s" "sv_seen (spawn_server t s) = sv_seen s"
  "sv_oversized (spawn_server t s) = sv_oversized s" "sv_slots (spawn_server t s) = sv_slots s"
  "sv_token_to_event (spawn_server t s) = sv_token_to_event s"
  "sv_snapshots (spawn_server t s) = sv_snapshots s" "sv_event_loop (spawn_server t s) = sv_event_loop s"
  "sv_tasks (spawn_server t s) = (sv_next s, t) # sv_tasks s"
  "sv_next (spawn_server t s) = Suc (sv_next s)" "sv_out (spawn_server t s) = sv_out s"
  by (simp_all add: spawn_server_def)

lemma update_slot_frame [server_frame]:
  "sv_sessions (update_slot e f s) = sv_sessions s" "sv_routes (update_slot e f s) = sv_routes s"
  "sv_wrap_kinds (update_slot e f s) = sv_wrap_kinds s" "sv_seen (update_slot e f s) = sv_seen s"
  "sv_oversized (update_slot e f s) = sv_oversized s"
  "sv_token_to_event (update_slot e f s) = sv_token_to_event s"
  "sv_snapshots (update_slot e f s) = sv_snapshots s" "sv_event_loop (update_slot e f s) = sv_event_loop s"
  "sv_tasks (update_slot e f s) = sv_tasks s" "sv_next (update_slot e f s) = sv_next s"
  "sv_out (update_slot e f s) = sv_out s"
  by (simp_all add: update_slot_def split: option.split)

lemma update_slot_slots:
  "map_of (sv_slots (update_slot e f s)) =
     (map_of (sv_slots s))(e := map_option f (map_of (sv_slots s) e))"
  by (auto simp: update_slot_def update_conv fun_eq_iff split: option.split)

lemma drop_token_frame [server_frame]:
  "sv_sessions (drop_token x s) = sv_sessions s" "sv_routes (drop_token x s) = sv_routes s"
  "sv_wrap_kinds (drop_token x s) = sv_wrap_kinds s" "sv_seen (drop_token x s) = sv_seen s"
  "sv_oversized (drop_token x s) = sv_oversized s" "sv_slots (drop_token x s) = sv_slots s"
  "sv_snapshots (drop_token x s) = sv_snapshots s" "sv_event_loop (drop_token x s) = sv_event_loop s"
  "sv_tasks (drop_token x s) = sv_tasks s" "sv_next (drop_token x s) = sv_next s"
  "sv_out (drop_token x s) = sv_out s"
  by (simp_all add: drop_token_def)

lemma create_open_stream_writer_frame [server_frame]:
  "sv_sessions (create_open_stream_writer N e c t i b k s) = sv_sessions s"
  "sv_routes (create_open_stream_writer N e c t i b k s) = sv_routes s"
  "sv_wrap_kinds (create_open_stream_writer N e c t i b k s) = sv_wrap_kinds s"
  "sv_seen (create_open_stream_writer N e c t i b k s) = sv_seen s"
  "sv_oversized (create_open_stream_writer N e c t i b k s) = sv_oversized s"
  "sv_snapshots (create_open_stream_writer N e c t i b k s) = sv_snapshots s"
  "sv_event_loop (create_open_stream_writer N e c t i b k s) = sv_event_loop s"
  "sv_tasks (create_open_stream_writer N e c t i b k s) = sv_tasks s"
  "sv_next (create_open_stream_writer N e c t i b k s) = sv_next s"
  "sv_out (create_open_stream_writer N e c t i b k s) = sv_out s"
  by (simp_all add: create_open_stream_writer_def)

lemma snapshot_frame [server_frame]:
  "sv_slots (reinsert_payment_route_snapshot C e p s) = sv_slots s"
  "sv_sessions (reinsert_payment_route_snapshot C e p s) = sv_sessions s"
  "sv_routes (reinsert_payment_route_snapshot C e p s) = sv_routes s"
  "sv_seen (reinsert_payment_route_snapshot C e p s) = sv_seen s"
  "sv_oversized (reinsert_payment_route_snapshot C e p s) = sv_oversized s"
  "sv_tasks (reinsert_payment_route_snapshot C e p s) = sv_tasks s"
  "sv_next (reinsert_payment_route_snapshot C e p s) = sv_next s"
  "sv_out (reinsert_payment_route_snapshot C e p s) = sv_out s"
  "sv_slots (record_payment_route_snapshot C now e r x s) = sv_slots s"
  "sv_sessions (record_payment_route_snapshot C now e r x s) = sv_sessions s"
  "sv_routes (record_payment_route_snapshot C now e r x s) = sv_routes s"
  "sv_seen (record_payment_route_snapshot C now e r x s) = sv_seen s"
  "sv_oversized (record_payment_route_snapshot C now e r x s) = sv_oversized s"
  "sv_tasks (record_payment_route_snapshot C now e r x s) = sv_tasks s"
  "sv_next (record_payment_route_snapshot C now e r x s) = sv_next s"
  "sv_out (record_payment_route_snapshot C now e r x s) = sv_out s"
  "sv_slots (purge_payment_snapshots C now s) = sv_slots s"
  "sv_sessions (purge_payment_snapshots C now s) = sv_sessions s"
  "sv_routes (purge_payment_snapshots C now s) = sv_routes s"
  "sv_seen (purge_payment_snapshots C now s) = sv_seen s"
  "sv_oversized (purge_payment_snapshots C now s) = sv_oversized s"
  "sv_tasks (purge_payment_snapshots C now s) = sv_tasks s"
  "sv_next (purge_payment_snapshots C now s) = sv_next s"
  "sv_out (purge_payment_snapshots C now s) = sv_out s"
  by (simp_all add: reinsert_payment_route_snapshot_def record_payment_route_snapshot_def
      purge_payment_snapshots_def Let_def split: option.split prod.split)

end
