(* ===== verification/Client_State.thy ===== *)
theory Client_State
  imports Client_Payments Server_State Open_Stream_Registry Oversized_Transfer
begin

text \<open>
  The client transport (\<open>src/transport/client/mod.rs\<close>): its configuration, its state, the records it
  keeps about the server, and what it sends to its local consumer.

  The components it owns are those of their own theories: the pending requests, the oversized
  receiver, the registry of reader sessions and the payment engine. The Nostr library is the parameter
  \<open>N\<close> and the four LRU caches are the fields of the parameter \<open>K\<close>. A oneshot sender is known by a number: an
  \<open>accept\<close> waiter by the task that waits, a stream placeholder by the number its caller chose. A call of
  \<open>send\<close> is a task, cut where it waits for the signer or for the relays.
\<close>

section \<open>Configuration and state\<close>

text \<open>The fields of \<open>NostrClientTransportConfig\<close> that are read after the relays are resolved, with the
  parsed server key, and the protocol version of the MCP library.\<close>

record client_config =
  cf_server_pubkey :: string
  cf_encryption_mode :: encryption_mode
  cf_gift_wrap_mode :: gift_wrap_mode
  cf_is_stateless :: bool
  cf_timeout :: duration
  cf_oversized :: oversized_config
  cf_open_stream :: open_stream_config
  cf_payment_interaction :: "payment_interaction_mode option"
  cf_pmis :: "string list"
  cf_protocol_version :: string

record client_negotiation_state =
  ng_pmis :: "string list"
  ng_requested :: "payment_interaction_mode option"
  ng_last_sent :: "payment_interaction_mode option"
  ng_effective :: "payment_interaction_mode option"

record ('k, 'g, 't, 'c) client_caches =
  kc_pending :: "'k pending_lru"
  kc_seen :: "('g, unit) lru_ops"
  kc_originals :: "('t, json) lru_ops"
  kc_raw :: "'c raw_lru"

datatype client_error = Nostr_Error string | Oversized_Error oversized_error

datatype send_owner = By_Application nat | By_Engine nat

text \<open>A message with the tags and the wrap kind chosen for it; \<open>og_token\<close> makes it eligible for
  fragmentation.\<close>

record outgoing =
  og_message :: json_rpc_message
  og_base_tags :: "tag list"
  og_tags :: "tag list"
  og_wrap :: u16
  og_discovery_sent :: bool
  og_mode :: "payment_interaction_mode option"
  og_token :: "string option"

text \<open>An oversized request on its way: \<open>fr_todo\<close> are the frames after the one in flight.\<close>

datatype frame_phase = Start_In_Flight | Waiting_For_Accept | Frame_In_Flight

record frame_run =
  fr_phase :: frame_phase
  fr_token :: string
  fr_needs_accept :: bool
  fr_accepted :: bool
  fr_todo :: "json_rpc_notification list"
  fr_wrap :: u16

datatype client_task =
    Preparing send_owner outgoing
  | Sizing send_owner outgoing string bool u16
  | Publishing send_owner outgoing string
  | Sending_Frames send_owner outgoing frame_run
  | Aborting_Stream string "string option"

text \<open>
  What leaves the transport, in order. \<open>Emulated\<close>, \<open>Progress\<close>, \<open>Reassembled\<close>, \<open>Answered_To\<close> and
  \<open>Passed_On\<close> are the messages of the consumer's channel, with the \<open>e\<close> tag they came with; the engine
  adds its own through \<open>Engine_Did\<close>. \<open>Registered\<close> is an entry of the correlation store.
\<close>

datatype client_effect =
    Emulated json_rpc_message
  | Progress json_rpc_message
  | Reassembled "string option" json_rpc_message
  | Answered_To string json_rpc_message
  | Passed_On "string option" json_rpc_message
  | Engine_Did engine_effect
  | Registered string json
  | Sent string publication
  | Frame_Sent nat publication
  | Control_Sent publication
  | Bound nat "(open_stream_error, string \<times> handle) result"
  | Returned_To nat "(client_error, unit) result"

record ('k, 'g, 't, 'c) client =
  cl_pending :: 'k
  cl_has_sent_discovery_tags :: bool
  cl_discovered :: peer_capabilities
  cl_initialize_event :: "nostr_event option"
  cl_negotiation :: client_negotiation_state
  cl_supports_ephemeral :: bool
  cl_seen :: 'g
  cl_receiver :: receiver
  cl_accept_waiters :: "(string, nat) hash_map"
  cl_originals :: 't
  cl_registry :: registry
  cl_publishers :: "(handle, u16) hash_map"
  cl_placeholders :: "nat list"
  cl_control_progress :: u64
  cl_payments :: "(client_payments_options \<times> 'c engine) option"
  cl_started :: bool
  cl_event_loop :: bool
  cl_open :: bool
  cl_tasks :: "(nat \<times> client_task) list"
  cl_next :: nat
  cl_out :: "client_effect list"

definition no_capabilities :: peer_capabilities where
  "no_capabilities = \<lparr>pc_supports_encryption = False, pc_supports_ephemeral_encryption = False,
     pc_supports_oversized_transfer = False, pc_supports_open_stream = False\<rparr>"

definition client_new :: "('k, 'g, 't, 'c) client_caches \<Rightarrow> client_config \<Rightarrow> ('k, 'g, 't, 'c) client" where
  "client_new K cfg =
     \<lparr>cl_pending = with_max_pending (kc_pending K) DEFAULT_LRU_SIZE, cl_has_sent_discovery_tags = False,
      cl_discovered = no_capabilities, cl_initialize_event = None,
      cl_negotiation = \<lparr>ng_pmis = cf_pmis cfg, ng_requested = cf_payment_interaction cfg,
        ng_last_sent = None, ng_effective = None\<rparr>,
      cl_supports_ephemeral = False, cl_seen = lru_new (kc_seen K) DEFAULT_LRU_SIZE,
      cl_receiver = with_policy (policy_of_config (cf_oversized cfg)), cl_accept_waiters = [],
      cl_originals = lru_new (kc_originals K) DEFAULT_LRU_SIZE,
      cl_registry = registry_with_policy (registry_policy_of_config (cf_open_stream cfg)),
      cl_publishers = [], cl_placeholders = [], cl_control_progress = 0, cl_payments = None,
      cl_started = False, cl_event_loop = False, cl_open = True, cl_tasks = [], cl_next = 0, cl_out = []\<rparr>"

definition report :: "client_effect \<Rightarrow> ('k, 'g, 't, 'c) client \<Rightarrow> ('k, 'g, 't, 'c) client" where
  "report x s = s\<lparr>cl_out := cl_out s @ [x]\<rparr>"

definition run_task :: "client_task \<Rightarrow> ('k, 'g, 't, 'c) client \<Rightarrow> ('k, 'g, 't, 'c) client" where
  "run_task task s = s\<lparr>cl_tasks := (cl_next s, task) # cl_tasks s, cl_next := Suc (cl_next s)\<rparr>"

definition end_task :: "nat \<Rightarrow> ('k, 'g, 't, 'c) client \<Rightarrow> ('k, 'g, 't, 'c) client" where
  "end_task n s = s\<lparr>cl_tasks := AList.delete n (cl_tasks s)\<rparr>"

text \<open>A call of the payment engine, when there is one; what it put out goes to the same channels.\<close>

definition run_engine ::
  "(client_payments_options \<Rightarrow> 'c engine \<Rightarrow> 'c engine) \<Rightarrow> ('k, 'g, 't, 'c) client \<Rightarrow> ('k, 'g, 't, 'c) client" where
  "run_engine f s =
     (case cl_payments s of
        None \<Rightarrow> s
      | Some (options, e) \<Rightarrow>
          let e' = f options e in
          s\<lparr>cl_payments := Some (options, e'),
            cl_out := cl_out s @ map Engine_Did (drop (length (ce_out e)) (ce_out e'))\<rparr>)"

section \<open>Gift wraps\<close>

definition is_gift_wrap_kind :: "u16 \<Rightarrow> bool" where
  "is_gift_wrap_kind kind \<longleftrightarrow> kind = GIFT_WRAP_KIND \<or> kind = EPHEMERAL_GIFT_WRAP_KIND"

definition outbound_gift_wrap_kind :: "gift_wrap_mode \<Rightarrow> bool \<Rightarrow> u16" where
  "outbound_gift_wrap_kind mode server_supports_ephemeral =
     (case mode of
        WrapPersistent \<Rightarrow> GIFT_WRAP_KIND
      | WrapEphemeral \<Rightarrow> EPHEMERAL_GIFT_WRAP_KIND
      | WrapOptional \<Rightarrow> if server_supports_ephemeral then EPHEMERAL_GIFT_WRAP_KIND else GIFT_WRAP_KIND)"

definition violates_encryption_policy :: "u16 \<Rightarrow> encryption_mode \<Rightarrow> bool" where
  "violates_encryption_policy kind mode \<longleftrightarrow>
     is_gift_wrap_kind kind \<and> mode = EncDisabled \<or> \<not> is_gift_wrap_kind kind \<and> mode = EncRequired"

definition choose_outbound_gift_wrap_kind :: "client_config \<Rightarrow> ('k, 'g, 't, 'c) client \<Rightarrow> u16" where
  "choose_outbound_gift_wrap_kind cfg s =
     outbound_gift_wrap_kind (cf_gift_wrap_mode cfg) (cl_supports_ephemeral s)"

text \<open>What \<open>prepare_mcp_message\<close> makes of a message to the server.\<close>

definition to_server :: "client_config \<Rightarrow> json_rpc_message \<Rightarrow> tag list \<Rightarrow> u16 \<Rightarrow> publication" where
  "to_server cfg message tags gift_wrap_kind =
     \<lparr>pb_message = message, pb_recipient = cf_server_pubkey cfg, pb_tags = tags,
      pb_wrap = (if should_encrypt (cf_encryption_mode cfg) CTXVM_MESSAGES_KIND None
                 then Some gift_wrap_kind else None)\<rparr>"

section \<open>Progress tokens\<close>

definition record_original_progress_token ::
  "('k, 'g, 't, 'c) client_caches \<Rightarrow> string \<Rightarrow> json \<Rightarrow> ('k, 'g, 't, 'c) client \<Rightarrow> ('k, 'g, 't, 'c) client" where
  "record_original_progress_token K token original s =
     s\<lparr>cl_originals := fst (lru_push (kc_originals K) (cl_originals s) token original)\<rparr>"

definition remove_original_progress_token ::
  "('k, 'g, 't, 'c) client_caches \<Rightarrow> string option \<Rightarrow> ('k, 'g, 't, 'c) client \<Rightarrow> ('k, 'g, 't, 'c) client" where
  "remove_original_progress_token K token s =
     (case token of
        None \<Rightarrow> s
      | Some t \<Rightarrow> s\<lparr>cl_originals := fst (lru_pop (kc_originals K) (cl_originals s) t)\<rparr>)"

definition original_progress_token ::
  "('k, 'g, 't, 'c) client_caches \<Rightarrow> string \<Rightarrow> ('k, 'g, 't, 'c) client \<Rightarrow>
   ('k, 'g, 't, 'c) client \<times> json option" where
  "original_progress_token K token s =
     (let (c, original) = lru_get (kc_originals K) (cl_originals s) token in
      (s\<lparr>cl_originals := c\<rparr>, original))"

definition stripped_progress_notification :: "json \<Rightarrow> json \<Rightarrow> json_rpc_message option" where
  "stripped_progress_notification params original_token =
     (case json_get params ''progress'' of
        None \<Rightarrow> None
      | Some progress \<Rightarrow>
          Some (Notification \<lparr>ntf_jsonrpc = ''2.0'', ntf_method = NOTIFICATIONS_PROGRESS_METHOD,
            ntf_params = Some (JObject (
              [(''progressToken'', original_token), (''progress'', progress)] @
              opt_entry ''total'' (\<lambda>v. v) (json_get params ''total'') @
              opt_entry ''message'' (\<lambda>v. v) (json_get params ''message'')))\<rparr>))"

definition forward_stripped_progress ::
  "('k, 'g, 't, 'c) client_caches \<Rightarrow> json_rpc_notification \<Rightarrow> string \<Rightarrow> ('k, 'g, 't, 'c) client \<Rightarrow>
   ('k, 'g, 't, 'c) client" where
  "forward_stripped_progress K notif token s =
     (case ntf_params notif of
        None \<Rightarrow> s
      | Some params \<Rightarrow>
          let (s1, recorded) = original_progress_token K token s in
          (case (case recorded of Some v \<Rightarrow> Some v | None \<Rightarrow> json_get params ''progressToken'') of
             None \<Rightarrow> s1
           | Some original \<Rightarrow>
               (case stripped_progress_notification params original of
                  None \<Rightarrow> s1
                | Some stripped \<Rightarrow> report (Progress stripped) s1)))"

section \<open>What the server discloses\<close>

definition event_has_initialize_result :: "ext \<Rightarrow> nostr_event \<Rightarrow> bool" where
  "event_has_initialize_result X event \<longleftrightarrow>
     Option.bind (json_from_str X (ev_content event)) (\<lambda>content.
       Option.bind (json_get content ''result'') (\<lambda>result. json_get result ''protocolVersion'')) \<noteq> None"

definition learn_server_discovery ::
  "ext \<Rightarrow> nostr_event \<Rightarrow> ('k, 'g, 't, 'c) client \<Rightarrow> ('k, 'g, 't, 'c) client" where
  "learn_server_discovery X event s =
     (let discovered = parse_discovered_peer_capabilities (ev_tags event);
          found = dpc_capabilities discovered; caps = cl_discovered s; ng = cl_negotiation s in
      if dpc_discovery_tags discovered = [] then s
      else
        s\<lparr>cl_discovered :=
            \<lparr>pc_supports_encryption = pc_supports_encryption caps \<or> pc_supports_encryption found,
             pc_supports_ephemeral_encryption =
               pc_supports_ephemeral_encryption caps \<or> pc_supports_ephemeral_encryption found,
             pc_supports_oversized_transfer =
               pc_supports_oversized_transfer caps \<or> pc_supports_oversized_transfer found,
             pc_supports_open_stream = pc_supports_open_stream caps \<or> pc_supports_open_stream found\<rparr>,
          cl_negotiation :=
            (if ng_requested ng = Some Explicit_Gating
             then (case Option.bind (extract_payment_interaction (ev_tags event)) parse_payment_interaction_value of
                     Some mode \<Rightarrow> ng\<lparr>ng_effective := Some mode\<rparr>
                   | None \<Rightarrow> ng)
             else ng),
          cl_initialize_event :=
            (case cl_initialize_event s of
               None \<Rightarrow> Some event
             | Some existing \<Rightarrow>
                 if \<not> event_has_initialize_result X existing \<and> event_has_initialize_result X event
                 then Some event else Some existing)\<rparr>)"

definition has_support_ephemeral_tag :: "tag list \<Rightarrow> bool" where
  "has_support_ephemeral_tag tags =
     list_ex (\<lambda>tag. case tag of name # _ \<Rightarrow> name = SUPPORT_ENCRYPTION_EPHEMERAL | [] \<Rightarrow> False) tags"

definition should_learn_ephemeral_support ::
  "string \<Rightarrow> string \<Rightarrow> u16 option \<Rightarrow> tag list \<Rightarrow> bool" where
  "should_learn_ephemeral_support actual_pubkey server_pubkey event_kind tags \<longleftrightarrow>
     actual_pubkey = server_pubkey \<and>
     (event_kind = Some EPHEMERAL_GIFT_WRAP_KIND \<or> has_support_ephemeral_tag tags)"

section \<open>What the client asks for\<close>

definition set_payment_interaction ::
  "payment_interaction_mode \<Rightarrow> ('k, 'g, 't, 'c) client \<Rightarrow> ('k, 'g, 't, 'c) client" where
  "set_payment_interaction mode s = s\<lparr>cl_negotiation := (cl_negotiation s)\<lparr>ng_requested := Some mode\<rparr>\<rparr>"

definition set_client_pmis :: "string list \<Rightarrow> ('k, 'g, 't, 'c) client \<Rightarrow> ('k, 'g, 't, 'c) client" where
  "set_client_pmis pmis s = s\<lparr>cl_negotiation := (cl_negotiation s)\<lparr>ng_pmis := pmis\<rparr>\<rparr>"

definition with_client_payments ::
  "('k, 'g, 't, 'c) client_caches \<Rightarrow> client_config \<Rightarrow> client_payments_options \<Rightarrow> ('k, 'g, 't, 'c) client \<Rightarrow>
   ('k, 'g, 't, 'c) client \<times> (string, unit) result" where
  "with_client_payments K cfg options s =
     (if cl_started s then (s, Err ''with_client_payments must be called before start()'')
      else if \<not> cl_open s then (s, Err ''with_client_payments cannot register on a closed transport'')
      else if cl_payments s \<noteq> None then
        (s, Err (''client payments are already registered on this transport; '' @
                 ''with_client_payments registers once and owns the payment surface''))
      else
        let s1 = set_client_pmis (map ph_pmi (cpo_handlers options)) s;
            s2 = (case cpo_payment_interaction options of
                    Some mode \<Rightarrow> set_payment_interaction mode s1 | None \<Rightarrow> s1) in
        (s2\<lparr>cl_payments := Some (options, engine_new (kc_raw K) options (cf_timeout cfg))\<rparr>, Ok ()))"

definition get_client_capability_tags :: "client_config \<Rightarrow> tag list" where
  "get_client_capability_tags cfg =
     (if cf_encryption_mode cfg \<noteq> EncDisabled
      then [SUPPORT_ENCRYPTION] #
           (if cf_gift_wrap_mode cfg \<noteq> WrapPersistent then [[SUPPORT_ENCRYPTION_EPHEMERAL]] else [])
      else []) @
     (if oc_enabled (cf_oversized cfg) then [[SUPPORT_OVERSIZED_TRANSFER]] else []) @
     (if osc_enabled (cf_open_stream cfg) then [[SUPPORT_OPEN_STREAM]] else [])"

definition get_pending_client_discovery_tags :: "client_config \<Rightarrow> ('k, 'g, 't, 'c) client \<Rightarrow> tag list" where
  "get_pending_client_discovery_tags cfg s =
     (if cl_has_sent_discovery_tags s then [] else get_client_capability_tags cfg)"

definition get_pending_negotiation_tags ::
  "client_negotiation_state \<Rightarrow> tag list \<times> payment_interaction_mode option" where
  "get_pending_negotiation_tags state =
     (let pending_mode = (case ng_requested state of
            Some mode \<Rightarrow> if Some mode \<noteq> ng_last_sent state then Some mode else None
          | None \<Rightarrow> None) in
      (pmi_tags (ng_pmis state) @
         (case pending_mode of Some mode \<Rightarrow> [payment_interaction_tag mode] | None \<Rightarrow> []),
       pending_mode))"

definition mark_payment_interaction_sent ::
  "payment_interaction_mode option \<Rightarrow> ('k, 'g, 't, 'c) client \<Rightarrow> ('k, 'g, 't, 'c) client" where
  "mark_payment_interaction_sent sent s =
     (case sent of
        None \<Rightarrow> s
      | Some mode \<Rightarrow> s\<lparr>cl_negotiation := (cl_negotiation s)\<lparr>ng_last_sent := Some mode\<rparr>\<rparr>)"

end
