(* ===== verification/Client_Outbound.thy ===== *)
theory Client_Outbound
  imports Client_State
begin

text \<open>
  What the client transport sends (\<open>ClientSendParts::send\<close> and what it calls in
  \<open>src/transport/client/mod.rs\<close>). A send is a task. It chooses the tags and is cut where it waits: for the
  signer (\<open>Preparing\<close>, \<open>Sizing\<close>), for the relays (\<open>Publishing\<close>, a frame in flight) and for the server's
  \<open>accept\<close>. What it waited for is an argument of the function that resumes it.
\<close>

section \<open>The end of a send\<close>

definition oversized_error_text :: "oversized_error \<Rightarrow> string" where
  "oversized_error_text e =
     (case e of
        OtAbort token reason \<Rightarrow> ''Transfer aborted (token: '' @ token @ '')'' @
          (case reason of Some r \<Rightarrow> '': '' @ r | None \<Rightarrow> '''')
      | OtPolicy m \<Rightarrow> ''Oversized transfer policy violation: '' @ m
      | OtDigest m \<Rightarrow> ''Oversized transfer integrity error: '' @ m
      | OtReassembly m \<Rightarrow> ''Oversized transfer reassembly error: '' @ m
      | OtSequence m \<Rightarrow> ''Oversized transfer sequence error: '' @ m)"

fun client_error_text :: "client_error \<Rightarrow> string" where
  "client_error_text (Nostr_Error text) = text"
| "client_error_text (Oversized_Error e) = ''Oversized transfer error: '' @ oversized_error_text e"

text \<open>A send returns to the application or to the engine's task that retries a request.\<close>

definition send_returned ::
  "ext \<Rightarrow> ('k, 'g, 't, 'c) client_caches \<Rightarrow> send_owner \<Rightarrow> (client_error, unit) result \<Rightarrow>
   ('k, 'g, 't, 'c) client \<Rightarrow> ('k, 'g, 't, 'c) client" where
  "send_returned X K owner r s =
     (case owner of
        By_Application call \<Rightarrow> report (Returned_To call r) s
      | By_Engine n \<Rightarrow>
          run_engine (\<lambda>options e.
            engine_step X (kc_raw K) options e
              (if map_of (ce_tasks e) n = Some Awaiting_Paid_Send then Paid_Send_Returned n
               else Retry_Send_Returned n
                      (case r of Err error \<Rightarrow> Some (client_error_text error) | Ok _ \<Rightarrow> None))) s)"

definition request_progress_token :: "json_rpc_request \<Rightarrow> json option" where
  "request_progress_token req =
     Option.bind (req_params req) (\<lambda>params.
       Option.bind (json_get params ''_meta'') (\<lambda>m. json_get m ''progressToken''))"

definition register_request ::
  "('k, 'g, 't, 'c) client_caches \<Rightarrow> instant \<Rightarrow> string \<Rightarrow> json_rpc_message \<Rightarrow> ('k, 'g, 't, 'c) client \<Rightarrow>
   ('k, 'g, 't, 'c) client" where
  "register_request K now event_id message s =
     (case message of
        Request req \<Rightarrow>
          report (Registered event_id (req_id req))
            (s\<lparr>cl_pending := register_pending (kc_pending K) (cl_pending s) now event_id (req_id req)
                (req_method req = ''initialize'') (request_progress_token req)\<rparr>)
      | _ \<Rightarrow> s)"

text \<open>The two latches, flipped after a successful publish.\<close>

definition mark_sent :: "outgoing \<Rightarrow> ('k, 'g, 't, 'c) client \<Rightarrow> ('k, 'g, 't, 'c) client" where
  "mark_sent og s =
     mark_payment_interaction_sent (og_mode og)
       (if og_discovery_sent og then s\<lparr>cl_has_sent_discovery_tags := True\<rparr> else s)"

section \<open>One event\<close>

definition publish_single_event ::
  "('k, 'g, 't, 'c) client_caches \<Rightarrow> client_config \<Rightarrow> instant \<Rightarrow> send_owner \<Rightarrow> outgoing \<Rightarrow> string \<Rightarrow>
   ('k, 'g, 't, 'c) client \<Rightarrow> ('k, 'g, 't, 'c) client" where
  "publish_single_event K cfg now owner og event_id s =
     run_task (Publishing owner og event_id)
       (report (Sent event_id (to_server cfg (og_message og) (og_tags og) (og_wrap og)))
          (register_request K now event_id (og_message og) s))"

definition publish_returned ::
  "ext \<Rightarrow> ('k, 'g, 't, 'c) client_caches \<Rightarrow> nat \<Rightarrow> send_owner \<Rightarrow> outgoing \<Rightarrow> string \<Rightarrow> (string, unit) result \<Rightarrow>
   ('k, 'g, 't, 'c) client \<Rightarrow> ('k, 'g, 't, 'c) client" where
  "publish_returned X K n owner og event_id r s =
     (case r of
        Err error \<Rightarrow>
          send_returned X K owner (Err (Nostr_Error error))
            ((end_task n s)\<lparr>cl_pending := fst (remove_pending (kc_pending K) (cl_pending s) event_id)\<rparr>)
      | Ok _ \<Rightarrow> send_returned X K owner (Ok ()) (mark_sent og (end_task n s)))"

section \<open>Oversized requests\<close>

text \<open>Up to the first measurement of a probe.\<close>

definition send_oversized_request ::
  "client_config \<Rightarrow> send_owner \<Rightarrow> outgoing \<Rightarrow> string \<Rightarrow> ('k, 'g, 't, 'c) client \<Rightarrow> ('k, 'g, 't, 'c) client" where
  "send_oversized_request cfg owner og token s =
     run_task (Sizing owner og token (\<not> pc_supports_oversized_transfer (cl_discovered s))
       (choose_outbound_gift_wrap_kind cfg s)) s"

definition message_text :: "ext \<Rightarrow> json_rpc_message \<Rightarrow> string" where
  "message_text X message = json_to_string X (message_to_value message)"

text \<open>The measurements are done: frames, waiter, and \<open>start\<close> with the tags of the request.\<close>

definition sized ::
  "ext \<Rightarrow> ('k, 'g, 't, 'c) client_caches \<Rightarrow> client_config \<Rightarrow> nat \<Rightarrow> send_owner \<Rightarrow> outgoing \<Rightarrow> string \<Rightarrow> bool \<Rightarrow>
   u16 \<Rightarrow> (json_rpc_notification \<Rightarrow> nat option) \<Rightarrow> ('k, 'g, 't, 'c) client \<Rightarrow> ('k, 'g, 't, 'c) client" where
  "sized X K cfg n owner og token needs_accept gift_wrap_kind measure_size s =
     (let chunk_size = resolve_safe_chunk_size measure_size (oc_chunk_size (cf_oversized cfg))
            (oc_threshold (cf_oversized cfg)) in
      case build_oversized_frames X (message_text X (og_message og))
             \<lparr>so_progress_token = token, so_chunk_size_bytes = chunk_size,
              so_needs_accept_handshake = needs_accept\<rparr> of
        Err e \<Rightarrow> send_returned X K owner (Err (Oversized_Error e)) (end_task n s)
      | Ok frames \<Rightarrow>
          let s1 = (if needs_accept
                    then s\<lparr>cl_accept_waiters := AList.update token n (cl_accept_waiters s)\<rparr> else s);
              run = \<lparr>fr_phase = Start_In_Flight, fr_token = token, fr_needs_accept = needs_accept,
                fr_accepted = False, fr_todo = bf_chunks frames @ [bf_end frames], fr_wrap = gift_wrap_kind\<rparr> in
          report (Frame_Sent n (to_server cfg (Notification (bf_start frames)) (og_tags og) gift_wrap_kind))
            (s1\<lparr>cl_tasks := AList.update n (Sending_Frames owner og run) (cl_tasks s1)\<rparr>))"

definition end_frames ::
  "ext \<Rightarrow> ('k, 'g, 't, 'c) client_caches \<Rightarrow> instant \<Rightarrow> nat \<Rightarrow> send_owner \<Rightarrow> outgoing \<Rightarrow> frame_run \<Rightarrow>
   (client_error, string) result \<Rightarrow> ('k, 'g, 't, 'c) client \<Rightarrow> ('k, 'g, 't, 'c) client" where
  "end_frames X K now n owner og run r s =
     (let s0 = end_task n s;
          s1 = (if fr_needs_accept run
                then s0\<lparr>cl_accept_waiters := AList.delete (fr_token run) (cl_accept_waiters s0)\<rparr> else s0) in
      case r of
        Err error \<Rightarrow> send_returned X K owner (Err error) s1
      | Ok end_id \<Rightarrow>
          send_returned X K owner (Ok ()) (mark_sent og (register_request K now end_id (og_message og) s1)))"

definition next_frame ::
  "client_config \<Rightarrow> nat \<Rightarrow> send_owner \<Rightarrow> outgoing \<Rightarrow> frame_run \<Rightarrow> json_rpc_notification \<Rightarrow>
   json_rpc_notification list \<Rightarrow> ('k, 'g, 't, 'c) client \<Rightarrow> ('k, 'g, 't, 'c) client" where
  "next_frame cfg n owner og run frame rest s =
     report (Frame_Sent n (to_server cfg (Notification frame) (og_base_tags og) (fr_wrap run)))
       (s\<lparr>cl_tasks := AList.update n
           (Sending_Frames owner og (run\<lparr>fr_phase := Frame_In_Flight, fr_todo := rest\<rparr>)) (cl_tasks s)\<rparr>)"

text \<open>The frame in flight was published under the returned event id, or not.\<close>

definition frame_returned ::
  "ext \<Rightarrow> ('k, 'g, 't, 'c) client_caches \<Rightarrow> client_config \<Rightarrow> instant \<Rightarrow> nat \<Rightarrow> send_owner \<Rightarrow> outgoing \<Rightarrow> frame_run \<Rightarrow>
   (string, string) result \<Rightarrow> ('k, 'g, 't, 'c) client \<Rightarrow> ('k, 'g, 't, 'c) client" where
  "frame_returned X K cfg now n owner og run r s =
     (case r of
        Err error \<Rightarrow> end_frames X K now n owner og run (Err (Nostr_Error error)) s
      | Ok event_id \<Rightarrow>
          if fr_phase run = Start_In_Flight \<and> fr_needs_accept run
          then s\<lparr>cl_tasks := AList.update n
                   (Sending_Frames owner og (run\<lparr>fr_phase := Waiting_For_Accept\<rparr>)) (cl_tasks s)\<rparr>
          else
            (case fr_todo run of
               [] \<Rightarrow> end_frames X K now n owner og run (Ok event_id) s
             | frame # rest \<Rightarrow> next_frame cfg n owner og run frame rest s))"

text \<open>The wait for \<open>accept\<close> is over: the waiter fired, was dropped, or the timeout elapsed.\<close>

definition accept_wait_over ::
  "ext \<Rightarrow> ('k, 'g, 't, 'c) client_caches \<Rightarrow> client_config \<Rightarrow> instant \<Rightarrow> nat \<Rightarrow> send_owner \<Rightarrow> outgoing \<Rightarrow> frame_run \<Rightarrow>
   ('k, 'g, 't, 'c) client \<Rightarrow> ('k, 'g, 't, 'c) client" where
  "accept_wait_over X K cfg now n owner og run s =
     (if \<not> fr_accepted run then
        end_frames X K now n owner og run
          (Err (Oversized_Error (OtAbort (fr_token run) (Some ''timed out waiting for accept frame'')))) s
      else
        (case fr_todo run of
           [] \<Rightarrow> s
         | frame # rest \<Rightarrow> next_frame cfg n owner og run frame rest s))"

section \<open>Send\<close>

definition emulate_initialize_response :: "client_config \<Rightarrow> json \<Rightarrow> json_rpc_message" where
  "emulate_initialize_response cfg request_id =
     Response \<lparr>rsp_jsonrpc = ''2.0'', rsp_id = request_id, rsp_result = JObject
       [(''protocolVersion'', JString (cf_protocol_version cfg)),
        (''serverInfo'', JObject [(''name'', JString ''Emulated-Stateless-Server''), (''version'', JString ''1.0.0'')]),
        (''capabilities'', JObject
          [(''tools'', JObject [(''listChanged'', JBool True)]),
           (''prompts'', JObject [(''listChanged'', JBool True)]),
           (''resources'', JObject [(''subscribe'', JBool True), (''listChanged'', JBool True)])])]\<rparr>"

definition create_outbound_open_stream_session ::
  "client_config \<Rightarrow> instant \<Rightarrow> string \<Rightarrow> ('k, 'g, 't, 'c) client \<Rightarrow>
   ('k, 'g, 't, 'c) client \<times> (open_stream_error, handle) result" where
  "create_outbound_open_stream_session cfg now token s =
     (case Open_Stream_Registry.get_session (cl_registry s) token of
        Some existing \<Rightarrow> (s, Ok existing)
      | None \<Rightarrow>
          let (rg, r) = create_session_with (cl_registry s) now token
                \<lparr>si_has_publisher = True, si_on_close = None, si_on_abort = None\<rparr> in
          (s\<lparr>cl_registry := rg, cl_publishers :=
               (case r of
                  Ok h \<Rightarrow> AList.update h (choose_outbound_gift_wrap_kind cfg s) (cl_publishers s)
                | Err e \<Rightarrow> cl_publishers s)\<rparr>, r))"

definition bind_pending_outbound_open_stream ::
  "('k, 'g, 't, 'c) client_caches \<Rightarrow> client_config \<Rightarrow> instant \<Rightarrow> string \<Rightarrow> json \<Rightarrow> ('k, 'g, 't, 'c) client \<Rightarrow>
   ('k, 'g, 't, 'c) client" where
  "bind_pending_outbound_open_stream K cfg now token original s =
     (case cl_placeholders s of
        [] \<Rightarrow> s
      | waiter # rest \<Rightarrow>
          let (s1, r) = create_outbound_open_stream_session cfg now token
                (record_original_progress_token K token original (s\<lparr>cl_placeholders := rest\<rparr>)) in
          report (Bound waiter (case r of Ok h \<Rightarrow> Ok (token, h) | Err e \<Rightarrow> Err e)) s1)"

fun original_token_of :: "json_rpc_message \<Rightarrow> json option" where
  "original_token_of (Request req) = request_progress_token req"
| "original_token_of _ = None"

fun is_request :: "json_rpc_message \<Rightarrow> bool" where
  "is_request (Request req) = True"
| "is_request _ = False"

text \<open>The three answers of a stateless client that never reach the network.\<close>

definition handled_locally :: "client_config \<Rightarrow> json_rpc_message \<Rightarrow> bool" where
  "handled_locally cfg message \<longleftrightarrow> cf_is_stateless cfg \<and>
     (case message of
        Request req \<Rightarrow> req_method req = ''initialize''
      | Notification n \<Rightarrow> ntf_method n = ''notifications/initialized''
      | _ \<Rightarrow> False)"

definition bind_stream ::
  "ext \<Rightarrow> ('k, 'g, 't, 'c) client_caches \<Rightarrow> client_config \<Rightarrow> instant \<Rightarrow> json_rpc_message \<Rightarrow>
   ('k, 'g, 't, 'c) client \<Rightarrow> ('k, 'g, 't, 'c) client" where
  "bind_stream X K cfg now message s =
     (if osc_enabled (cf_open_stream cfg) \<and> message_method message = Some ''tools/call''
      then (case original_token_of message of
              None \<Rightarrow> s
            | Some original \<Rightarrow>
                (case progress_token_string X original of
                   None \<Rightarrow> s
                 | Some token \<Rightarrow> bind_pending_outbound_open_stream K cfg now token original s))
      else s)"

definition outgoing_of ::
  "ext \<Rightarrow> client_config \<Rightarrow> json_rpc_message \<Rightarrow> ('k, 'g, 't, 'c) client \<Rightarrow> outgoing" where
  "outgoing_of X cfg message s =
     (let base_tags = create_recipient_tags (cf_server_pubkey cfg);
          discovery_tags = (if is_request message then get_pending_client_discovery_tags cfg s else []);
          (negotiation_tags, pending_payment_interaction) =
            (if is_request message then get_pending_negotiation_tags (cl_negotiation s) else ([], None)) in
      \<lparr>og_message = message, og_base_tags = base_tags,
       og_tags = compose_outbound_tags base_tags discovery_tags negotiation_tags,
       og_wrap = choose_outbound_gift_wrap_kind cfg s, og_discovery_sent = (discovery_tags \<noteq> []),
       og_mode = pending_payment_interaction,
       og_token = (if oc_enabled (cf_oversized cfg)
                   then Option.bind (original_token_of message) (progress_token_string X) else None)\<rparr>)"

definition send_parts_send ::
  "ext \<Rightarrow> ('k, 'g, 't, 'c) client_caches \<Rightarrow> client_config \<Rightarrow> instant \<Rightarrow> send_owner \<Rightarrow> json_rpc_message \<Rightarrow>
   ('k, 'g, 't, 'c) client \<Rightarrow> ('k, 'g, 't, 'c) client" where
  "send_parts_send X K cfg now owner message s =
     (if handled_locally cfg message then
        send_returned X K owner (Ok ())
          (case message of
             Request req \<Rightarrow>
               if cl_open s \<or> (case owner of By_Engine n \<Rightarrow> True | By_Application call \<Rightarrow> False)
               then report (Emulated (emulate_initialize_response cfg (req_id req))) s else s
           | _ \<Rightarrow> s)
      else
        let s1 = bind_stream X K cfg now message s;
            og = outgoing_of X cfg message s1 in
        case (og_token og, original_token_of message) of
          (Some token, Some original) \<Rightarrow>
            let s2 = record_original_progress_token K token original s1 in
            if oc_threshold (cf_oversized cfg) \<le> length (message_text X message)
            then send_oversized_request cfg owner og token s2
            else run_task (Preparing owner og) s2
        | _ \<Rightarrow> run_task (Preparing owner og) s1)"

text \<open>The event of the message: its id and the size at which it would be published, or an error.\<close>

definition prepared ::
  "ext \<Rightarrow> ('k, 'g, 't, 'c) client_caches \<Rightarrow> client_config \<Rightarrow> instant \<Rightarrow> nat \<Rightarrow> send_owner \<Rightarrow> outgoing \<Rightarrow>
   (string, string \<times> nat) result \<Rightarrow> ('k, 'g, 't, 'c) client \<Rightarrow> ('k, 'g, 't, 'c) client" where
  "prepared X K cfg now n owner og r s =
     (case (og_token og, r) of
        (Some token, Ok (event_id, published_len)) \<Rightarrow>
          if oc_threshold (cf_oversized cfg) < published_len
          then send_oversized_request cfg owner og token (end_task n s)
          else publish_single_event K cfg now owner og event_id (end_task n s)
      | (Some token, Err error) \<Rightarrow> send_oversized_request cfg owner og token (end_task n s)
      | (None, Ok (event_id, published_len)) \<Rightarrow>
          publish_single_event K cfg now owner og event_id (end_task n s)
      | (None, Err error) \<Rightarrow> send_returned X K owner (Err (Nostr_Error error)) (end_task n s))"

definition client_send ::
  "ext \<Rightarrow> ('k, 'g, 't, 'c) client_caches \<Rightarrow> client_config \<Rightarrow> instant \<Rightarrow> nat \<Rightarrow> json_rpc_message \<Rightarrow>
   ('k, 'g, 't, 'c) client \<Rightarrow> ('k, 'g, 't, 'c) client" where
  "client_send X K cfg now call message s =
     send_parts_send X K cfg now (By_Application call) message
       (run_engine (\<lambda>options e. engine_step X (kc_raw K) options e (Out_Request message)) s)"

end
