(* ===== verification/Client_Inbound.thy ===== *)
theory Client_Inbound
  imports Client_Outbound
begin

text \<open>
  What the client transport does with an event from a relay (\<open>handle_notification\<close> of
  \<open>src/transport/client/mod.rs\<close>), on its sweep timer and on \<open>close\<close>, and the transport as a state machine
  whose steps are the resumptions of its tasks. The event loop is one task; the results of the frames it
  publishes are ignored by the code. A panic ends the loop.

  A plain event is not verified here: the relay pool hands out verified events only.
\<close>

section \<open>Receiving\<close>

definition receive_notification ::
  "('k, 'g, 't, 'c) client_caches \<Rightarrow> nostr \<Rightarrow> client_config \<Rightarrow> nostr_event \<Rightarrow> ('k, 'g, 't, 'c) client \<Rightarrow>
   ('k, 'g, 't, 'c) client \<times> nostr_event option" where
  "receive_notification K N cfg event s =
     (if violates_encryption_policy (ev_kind event) (cf_encryption_mode cfg) then (s, None)
      else if is_gift_wrap_kind (ev_kind event) \<and> \<not> allows_kind (cf_gift_wrap_mode cfg) (ev_kind event)
      then (s, None)
      else if is_gift_wrap_kind (ev_kind event) then
        if lru_contains (kc_seen K) (cl_seen s) (ev_id event) then (s, None)
        else
          (case nx_decrypt N event of
             None \<Rightarrow> (s, None)
           | Some decrypted_json \<Rightarrow>
               (case nx_event_of_json N decrypted_json of
                  None \<Rightarrow> (s, None)
                | Some inner \<Rightarrow>
                    if \<not> nx_verify N inner then (s, None)
                    else (s\<lparr>cl_seen := lru_put (kc_seen K) (cl_seen s) (ev_id event) ()\<rparr>, Some inner)))
      else (s, Some event))"

definition wire_token :: "ext \<Rightarrow> json_rpc_notification \<Rightarrow> string option" where
  "wire_token X notif =
     Option.bind (ntf_params notif) (\<lambda>p. Option.bind (json_get p ''progressToken'') (progress_token_string X))"

definition touch_correlated ::
  "('k, 'g, 't, 'c) client_caches \<Rightarrow> instant \<Rightarrow> string option \<Rightarrow> ('k, 'g, 't, 'c) client \<Rightarrow>
   ('k, 'g, 't, 'c) client" where
  "touch_correlated K now e_tag s =
     (case e_tag of
        Some correlated \<Rightarrow> s\<lparr>cl_pending := fst (touch_pending (kc_pending K) (cl_pending s) now correlated)\<rparr>
      | None \<Rightarrow> s)"

section \<open>Open streams\<close>

definition send_control ::
  "client_config \<Rightarrow> open_stream_frame \<Rightarrow> string \<Rightarrow> ('k, 'g, 't, 'c) client \<Rightarrow> ('k, 'g, 't, 'c) client" where
  "send_control cfg frame token s =
     (let progress = cl_control_progress s + 1 in
      report (Control_Sent (to_server cfg
          (Notification (os_into_progress_notification frame token progress None))
          (create_recipient_tags (cf_server_pubkey cfg)) (choose_outbound_gift_wrap_kind cfg s)))
        (s\<lparr>cl_control_progress := progress\<rparr>))"

definition handle_inbound_open_stream_frame ::
  "ext \<Rightarrow> ('k, 'g, 't, 'c) client_caches \<Rightarrow> client_config \<Rightarrow> instant \<Rightarrow> json_rpc_notification \<Rightarrow>
   string option \<Rightarrow> ('k, 'g, 't, 'c) client \<Rightarrow> ('k, 'g, 't, 'c) client" where
  "handle_inbound_open_stream_frame X K cfg now notif e_tag s =
     (let token = wire_token X notif;
          s1 = touch_correlated K now e_tag s;
          (rg, hooks, outcome) = registry_process_frame X (cl_registry s1) now notif;
          s2 = s1\<lparr>cl_registry := rg\<rparr>;
          s3 = (case (outcome, token) of
                  (Ok (SendPong nonce), Some t) \<Rightarrow> send_control cfg (OsPong nonce) t s2
                | _ \<Rightarrow> s2);
          s4 = (case token of Some t \<Rightarrow> forward_stripped_progress K notif t s3 | None \<Rightarrow> s3) in
      case outcome of
        Ok OutClosed \<Rightarrow> remove_original_progress_token K token s4
      | Ok (OutAborted reason) \<Rightarrow> remove_original_progress_token K token s4
      | Err error \<Rightarrow> remove_original_progress_token K token s4
      | Ok other \<Rightarrow> s4)"

definition sweep_client_open_stream_sessions ::
  "client_config \<Rightarrow> instant \<Rightarrow> ('k, 'g, 't, 'c) client \<Rightarrow> ('k, 'g, 't, 'c) client" where
  "sweep_client_open_stream_sessions cfg now s =
     (let (rg, actions) = tick_all (cl_registry s) now in
      fold (\<lambda>(token, action) s.
          case action of SendPing nonce \<Rightarrow> send_control cfg (OsPing nonce) token s | _ \<Rightarrow> s)
        actions (s\<lparr>cl_registry := rg\<rparr>))"

section \<open>Oversized transfers\<close>

definition is_accept_frame :: "json_rpc_notification \<Rightarrow> bool" where
  "is_accept_frame notif \<longleftrightarrow>
     Option.bind (ntf_params notif) (\<lambda>p. Option.bind (json_get p ''cvm'') from_cvm_value) = Some Accept"

definition fire_waiter :: "nat \<Rightarrow> ('k, 'g, 't, 'c) client \<Rightarrow> ('k, 'g, 't, 'c) client" where
  "fire_waiter n s =
     (case map_of (cl_tasks s) n of
        Some (Sending_Frames owner og run) \<Rightarrow>
          s\<lparr>cl_tasks := AList.update n (Sending_Frames owner og (run\<lparr>fr_accepted := True\<rparr>)) (cl_tasks s)\<rparr>
      | _ \<Rightarrow> s)"

definition accept_arrived ::
  "('k, 'g, 't, 'c) client_caches \<Rightarrow> json_rpc_notification \<Rightarrow> string option \<Rightarrow> ('k, 'g, 't, 'c) client \<Rightarrow>
   ('k, 'g, 't, 'c) client" where
  "accept_arrived K notif token s =
     (case token of
        None \<Rightarrow> s
      | Some t \<Rightarrow>
          (case map_of (cl_accept_waiters s) t of
             None \<Rightarrow> s
           | Some n \<Rightarrow>
               forward_stripped_progress K notif t
                 (fire_waiter n (s\<lparr>cl_accept_waiters := AList.delete t (cl_accept_waiters s)\<rparr>))))"

fun is_terminal :: "json_rpc_message \<Rightarrow> bool" where
  "is_terminal (Response r) = True"
| "is_terminal (ErrorResponse r) = True"
| "is_terminal _ = False"

definition consume_terminal_response ::
  "ext \<Rightarrow> ('k, 'g, 't, 'c) client_caches \<Rightarrow> string option \<Rightarrow> json_rpc_message \<Rightarrow> ('k, 'g, 't, 'c) client \<Rightarrow>
   ('k, 'g, 't, 'c) client \<times> json_rpc_message option" where
  "consume_terminal_response X K e_tag message s =
     (let (c, entry) = (case e_tag of
            Some correlated_id \<Rightarrow>
              if is_terminal message then remove_pending (kc_pending K) (cl_pending s) correlated_id
              else (cl_pending s, None)
          | None \<Rightarrow> (cl_pending s, None));
          s1 = s\<lparr>cl_pending := c\<rparr> in
      (run_engine (\<lambda>options e. engine_step X (kc_raw K) options e (In_Terminal entry e_tag message)) s1,
       case cl_payments s of
         None \<Rightarrow> Some message
       | Some (options, e) \<Rightarrow> snd (on_terminal_response X (kc_raw K) options entry e_tag message e)))"

definition handle_oversized ::
  "ext \<Rightarrow> ('k, 'g, 't, 'c) client_caches \<Rightarrow> instant \<Rightarrow> json_rpc_notification \<Rightarrow> string option \<Rightarrow>
   ('k, 'g, 't, 'c) client \<Rightarrow> ('k, 'g, 't, 'c) client" where
  "handle_oversized X K now notif e_tag s =
     (let token = wire_token X notif in
      if is_accept_frame notif then accept_arrived K notif token s
      else
        let s1 = touch_correlated K now e_tag s;
            (r, outcome) = receiver_process_frame X (cl_receiver s1) now notif;
            s2 = s1\<lparr>cl_receiver := r\<rparr> in
        case outcome of
          Ok None \<Rightarrow>
            (case token of
               Some t \<Rightarrow> if is_tracking r t then forward_stripped_progress K notif t s2 else s2
             | None \<Rightarrow> s2)
        | Ok (Some message) \<Rightarrow>
            (case consume_terminal_response X K e_tag message (remove_original_progress_token K token s2) of
               (s3, Some deliverable) \<Rightarrow> report (Reassembled e_tag deliverable) s3
             | (s3, None) \<Rightarrow> s3)
        | Err error \<Rightarrow> remove_original_progress_token K token s2)"

section \<open>Responses and notifications\<close>

definition handle_answer ::
  "ext \<Rightarrow> ('k, 'g, 't, 'c) client_caches \<Rightarrow> string option \<Rightarrow> json_rpc_message \<Rightarrow> ('k, 'g, 't, 'c) client \<Rightarrow>
   ('k, 'g, 't, 'c) client" where
  "handle_answer X K e_tag message s =
     (case e_tag of
        None \<Rightarrow> s
      | Some correlated_id \<Rightarrow>
          (case consume_terminal_response X K e_tag message s of
             (s1, Some deliverable) \<Rightarrow> report (Answered_To correlated_id deliverable) s1
           | (s1, None) \<Rightarrow> s1))"

definition handle_plain_notification ::
  "ext \<Rightarrow> ('k, 'g, 't, 'c) client_caches \<Rightarrow> instant \<Rightarrow> string option \<Rightarrow> json_rpc_notification \<Rightarrow>
   ('k, 'g, 't, 'c) client \<Rightarrow> ('k, 'g, 't, 'c) client" where
  "handle_plain_notification X K now e_tag n s =
     (let s1 = (if ntf_method n = PAYMENT_REQUIRED_METHOD then touch_correlated K now e_tag s else s);
          pass = report (Passed_On e_tag (Notification n)) in
      case (cl_payments s1, e_tag) of
        (Some (options, e), Some correlated_id) \<Rightarrow>
          if is_payment_notification_method (ntf_method n) then
            let entry = peek_pending (kc_pending K) (cl_pending s1) correlated_id;
                requested_gating = (ng_requested (cl_negotiation s1) = Some Explicit_Gating);
                effective_gating = (ng_effective (cl_negotiation s1) = Some Explicit_Gating);
                s2 = run_engine (\<lambda>options e. engine_step X (kc_raw K) options e
                       (In_Notification now n correlated_id entry requested_gating effective_gating)) s1 in
            (case snd (handle_payment_notification X (kc_raw K) options now n correlated_id entry
                    requested_gating effective_gating e) of
               Returned forward \<Rightarrow> if forward then pass s2 else s2
             | Panicked \<Rightarrow> s2\<lparr>cl_event_loop := False\<rparr>)
          else pass s1
      | _ \<Rightarrow> pass s1)"

definition handle_correlated ::
  "ext \<Rightarrow> ('k, 'g, 't, 'c) client_caches \<Rightarrow> instant \<Rightarrow> string \<Rightarrow> string option \<Rightarrow> ('k, 'g, 't, 'c) client \<Rightarrow>
   ('k, 'g, 't, 'c) client" where
  "handle_correlated X K now content e_tag s =
     (if (case e_tag of Some i \<Rightarrow> \<not> contains_pending (kc_pending K) (cl_pending s) i | None \<Rightarrow> False) then s
      else
        (case validate_and_parse X content of
           None \<Rightarrow> s
         | Some (Request r) \<Rightarrow> s
         | Some (Notification n) \<Rightarrow> handle_plain_notification X K now e_tag n s
         | Some message \<Rightarrow> handle_answer X K e_tag message s))"

definition handle_content ::
  "ext \<Rightarrow> ('k, 'g, 't, 'c) client_caches \<Rightarrow> client_config \<Rightarrow> instant \<Rightarrow> string \<Rightarrow> string option \<Rightarrow>
   ('k, 'g, 't, 'c) client \<Rightarrow> ('k, 'g, 't, 'c) client" where
  "handle_content X K cfg now content e_tag s =
     (case Option.bind (json_from_str X content) notification_of_value of
        Some notif \<Rightarrow>
          if osc_enabled (cf_open_stream cfg) \<and> ntf_method notif = NOTIFICATIONS_PROGRESS_METHOD \<and>
             is_open_stream_progress notif
          then handle_inbound_open_stream_frame X K cfg now notif e_tag s
          else if ntf_method notif = NOTIFICATIONS_PROGRESS_METHOD \<and> is_oversized_frame notif
          then handle_oversized X K now notif e_tag s
          else handle_correlated X K now content e_tag s
      | None \<Rightarrow> handle_correlated X K now content e_tag s)"

definition learn_from ::
  "ext \<Rightarrow> client_config \<Rightarrow> u16 \<Rightarrow> nostr_event \<Rightarrow> ('k, 'g, 't, 'c) client \<Rightarrow> ('k, 'g, 't, 'c) client" where
  "learn_from X cfg outer_kind source s =
     (let s1 = learn_server_discovery X source s in
      if should_learn_ephemeral_support (ev_pubkey source) (cf_server_pubkey cfg)
           (if is_gift_wrap_kind outer_kind then Some outer_kind else None) (ev_tags source)
      then s1\<lparr>cl_supports_ephemeral := True\<rparr> else s1)"

definition handle_notification ::
  "ext \<Rightarrow> ('k, 'g, 't, 'c) client_caches \<Rightarrow> nostr \<Rightarrow> client_config \<Rightarrow> instant \<Rightarrow> nostr_event \<Rightarrow>
   ('k, 'g, 't, 'c) client \<Rightarrow> ('k, 'g, 't, 'c) client" where
  "handle_notification X K N cfg now event s =
     (case receive_notification K N cfg event s of
        (s1, None) \<Rightarrow> s1
      | (s1, Some source) \<Rightarrow>
          if ev_pubkey source \<noteq> cf_server_pubkey cfg then s1
          else handle_content X K cfg now (ev_content source) (get_tag_value (ev_tags source) ''e'')
                 (learn_from X cfg (ev_kind event) source s1))"

section \<open>Timer, streams and close\<close>

definition client_sweep ::
  "('k, 'g, 't, 'c) client_caches \<Rightarrow> client_config \<Rightarrow> instant \<Rightarrow> ('k, 'g, 't, 'c) client \<Rightarrow>
   ('k, 'g, 't, 'c) client" where
  "client_sweep K cfg now s =
     (let s1 = s\<lparr>cl_pending := fst (sweep_expired (kc_pending K) (cl_pending s) now (cf_timeout cfg))\<rparr>;
          s2 = (if oc_enabled (cf_oversized cfg)
                then s1\<lparr>cl_receiver := fst (remove_expired (cl_receiver s1) now)\<rparr> else s1) in
      if osc_enabled (cf_open_stream cfg) then sweep_client_open_stream_sessions cfg now s2 else s2)"

definition prepare_outbound_open_stream_session ::
  "nat \<Rightarrow> ('k, 'g, 't, 'c) client \<Rightarrow> ('k, 'g, 't, 'c) client" where
  "prepare_outbound_open_stream_session waiter s = s\<lparr>cl_placeholders := cl_placeholders s @ [waiter]\<rparr>"

definition cancel_outbound :: "('k, 'g, 't, 'c) client \<Rightarrow> ('k, 'g, 't, 'c) client" where
  "cancel_outbound s = s\<lparr>cl_placeholders := butlast (cl_placeholders s)\<rparr>"

text \<open>\<open>abort_open_stream\<close> up to the publication of its frame, and after it.\<close>

definition abort_open_stream ::
  "client_config \<Rightarrow> string \<Rightarrow> string option \<Rightarrow> ('k, 'g, 't, 'c) client \<Rightarrow> ('k, 'g, 't, 'c) client" where
  "abort_open_stream cfg token reason s =
     run_task (Aborting_Stream token reason)
       (case Open_Stream_Registry.get_session (cl_registry s) token of
          None \<Rightarrow> s
        | Some h \<Rightarrow>
            (case handle_step (cl_registry s) h (SAbort reason) of
               (rg, SPublish (Some frame)) \<Rightarrow>
                 report (Control_Sent (to_server cfg (Notification frame)
                     (create_recipient_tags (cf_server_pubkey cfg))
                     (case map_of (cl_publishers s) h of Some kind \<Rightarrow> kind | None \<Rightarrow> GIFT_WRAP_KIND)))
                   (s\<lparr>cl_registry := rg\<rparr>)
             | (rg, _) \<Rightarrow> s\<lparr>cl_registry := rg\<rparr>))"

definition abort_published ::
  "nat \<Rightarrow> string \<Rightarrow> string option \<Rightarrow> ('k, 'g, 't, 'c) client \<Rightarrow> ('k, 'g, 't, 'c) client" where
  "abort_published n token reason s =
     (end_task n s)\<lparr>cl_registry := fst (consumer_abort (cl_registry s) token reason)\<rparr>"

definition close_client ::
  "ext \<Rightarrow> ('k, 'g, 't, 'c) client_caches \<Rightarrow> ('k, 'g, 't, 'c) client \<Rightarrow> ('k, 'g, 't, 'c) client" where
  "close_client X K s =
     (let s1 = run_engine (\<lambda>options e. engine_step X (kc_raw K) options e Dispose_Engine) s in
      s1\<lparr>cl_started := False, cl_event_loop := False, cl_open := False,
         cl_receiver := clear_receiver (cl_receiver s1), cl_accept_waiters := [],
         cl_originals := lru_clear (kc_originals K) (cl_originals s1),
         cl_registry := registry_clear (cl_registry s1), cl_placeholders := []\<rparr>)"

section \<open>The payment engine's tasks\<close>

text \<open>A task of the engine resumes. When it sends a request, the send runs on as part of that task.\<close>

fun resumed_task :: "engine_event \<Rightarrow> nat option" where
  "resumed_task (Policy_Returned n verdict) = Some n"
| "resumed_task (Can_Handle_Returned n verdict) = Some n"
| "resumed_task (Wallet_Returned n) = Some n"
| "resumed_task (Approval_Returned n outcome) = Some n"
| "resumed_task (Backoff_Elapsed n) = Some n"
| "resumed_task _ = None"

fun sends_of :: "client_effect list \<Rightarrow> json_rpc_request list" where
  "sends_of [] = []"
| "sends_of (Engine_Did (Sends request) # xs) = request # sends_of xs"
| "sends_of (x # xs) = sends_of xs"

definition engine_resumed ::
  "ext \<Rightarrow> ('k, 'g, 't, 'c) client_caches \<Rightarrow> client_config \<Rightarrow> instant \<Rightarrow> engine_event \<Rightarrow> ('k, 'g, 't, 'c) client \<Rightarrow>
   ('k, 'g, 't, 'c) client" where
  "engine_resumed X K cfg now ev s =
     (case resumed_task ev of
        None \<Rightarrow> s
      | Some n \<Rightarrow>
          let s1 = run_engine (\<lambda>options e. engine_step X (kc_raw K) options e ev) s in
          fold (\<lambda>request. send_parts_send X K cfg now (By_Engine n) (Request request))
            (sends_of (drop (length (cl_out s)) (cl_out s1))) s1)"

text \<open>One round of a touch loop: the entry is touched while the loop is neither stopped nor over.\<close>

definition touch_loop ::
  "ext \<Rightarrow> ('k, 'g, 't, 'c) client_caches \<Rightarrow> nat \<Rightarrow> instant \<Rightarrow> ('k, 'g, 't, 'c) client \<Rightarrow>
   ('k, 'g, 't, 'c) client" where
  "touch_loop X K n now s =
     (case cl_payments s of
        None \<Rightarrow> s
      | Some (options, e) \<Rightarrow>
          (case map_of (ce_tasks e) n of
             Some (Touching event_id stop_at) \<Rightarrow>
               if ce_cancelled e \<or> n \<in> set (ce_stopped e) \<or> stop_at \<le> now
               then run_engine (\<lambda>options e. engine_step X (kc_raw K) options e (Touch_Round n now True)) s
               else
                 let (c, touched) = touch_pending (kc_pending K) (cl_pending s) now event_id in
                 run_engine (\<lambda>options e. engine_step X (kc_raw K) options e (Touch_Round n now touched))
                   (s\<lparr>cl_pending := c\<rparr>)
           | _ \<Rightarrow> s))"

section \<open>The transport\<close>

datatype client_event =
    Install_Payments client_payments_options
  | Start_Client
  | App_Send nat json_rpc_message instant
  | Prepared nat "(string, string \<times> nat) result" instant
  | Sized nat "json_rpc_notification \<Rightarrow> nat option"
  | Publish_Returned nat "(string, unit) result"
  | Frame_Returned nat "(string, string) result" instant
  | Accept_Wait_Over nat instant
  | In_Event nostr_event instant
  | Sweep_Timer instant
  | Engine_Resumed engine_event instant
  | Heartbeat_Tick instant
  | Touch_Tick nat instant
  | Prepare_Stream nat
  | Cancel_Prepared_Stream
  | Abort_Stream string "string option"
  | Abort_Published nat
  | Read_Stream handle
  | Await_Stream_End handle
  | Request_Mode payment_interaction_mode
  | Set_Pmis "string list"
  | Close_Client

fun client_step ::
  "ext \<Rightarrow> ('k, 'g, 't, 'c) client_caches \<Rightarrow> nostr \<Rightarrow> client_config \<Rightarrow> ('k, 'g, 't, 'c) client \<Rightarrow> client_event \<Rightarrow>
   ('k, 'g, 't, 'c) client" where
  "client_step X K N cfg s (Install_Payments options) = fst (with_client_payments K cfg options s)"
| "client_step X K N cfg s Start_Client =
     (if cl_open s \<and> \<not> cl_started s then s\<lparr>cl_started := True, cl_event_loop := True\<rparr> else s)"
| "client_step X K N cfg s (App_Send call message now) = client_send X K cfg now call message s"
| "client_step X K N cfg s (Prepared n r now) =
     (case map_of (cl_tasks s) n of
        Some (Preparing owner og) \<Rightarrow> prepared X K cfg now n owner og r s | _ \<Rightarrow> s)"
| "client_step X K N cfg s (Sized n measure_size) =
     (case map_of (cl_tasks s) n of
        Some (Sizing owner og token needs_accept kind) \<Rightarrow>
          sized X K cfg n owner og token needs_accept kind measure_size s
      | _ \<Rightarrow> s)"
| "client_step X K N cfg s (Publish_Returned n r) =
     (case map_of (cl_tasks s) n of
        Some (Publishing owner og event_id) \<Rightarrow> publish_returned X K n owner og event_id r s | _ \<Rightarrow> s)"
| "client_step X K N cfg s (Frame_Returned n r now) =
     (case map_of (cl_tasks s) n of
        Some (Sending_Frames owner og run) \<Rightarrow>
          if fr_phase run = Waiting_For_Accept then s else frame_returned X K cfg now n owner og run r s
      | _ \<Rightarrow> s)"
| "client_step X K N cfg s (Accept_Wait_Over n now) =
     (case map_of (cl_tasks s) n of
        Some (Sending_Frames owner og run) \<Rightarrow>
          if fr_phase run = Waiting_For_Accept then accept_wait_over X K cfg now n owner og run s else s
      | _ \<Rightarrow> s)"
| "client_step X K N cfg s (In_Event event now) =
     (if cl_event_loop s then handle_notification X K N cfg now event s else s)"
| "client_step X K N cfg s (Sweep_Timer now) = (if cl_event_loop s then client_sweep K cfg now s else s)"
| "client_step X K N cfg s (Engine_Resumed ev now) = engine_resumed X K cfg now ev s"
| "client_step X K N cfg s (Heartbeat_Tick now) =
     run_engine (\<lambda>options e. engine_step X (kc_raw K) options e (Scheduler_Tick now)) s"
| "client_step X K N cfg s (Touch_Tick n now) = touch_loop X K n now s"
| "client_step X K N cfg s (Prepare_Stream waiter) = prepare_outbound_open_stream_session waiter s"
| "client_step X K N cfg s Cancel_Prepared_Stream = cancel_outbound s"
| "client_step X K N cfg s (Abort_Stream token reason) = abort_open_stream cfg token reason s"
| "client_step X K N cfg s (Abort_Published n) =
     (case map_of (cl_tasks s) n of
        Some (Aborting_Stream token reason) \<Rightarrow> abort_published n token reason s | _ \<Rightarrow> s)"
| "client_step X K N cfg s (Read_Stream h) =
     s\<lparr>cl_registry := fst (handle_step (cl_registry s) h SPoll)\<rparr>"
| "client_step X K N cfg s (Await_Stream_End h) =
     s\<lparr>cl_registry := fst (handle_step (cl_registry s) h SPollClosed)\<rparr>"
| "client_step X K N cfg s (Request_Mode mode) = set_payment_interaction mode s"
| "client_step X K N cfg s (Set_Pmis pmis) = set_client_pmis pmis s"
| "client_step X K N cfg s Close_Client = close_client X K s"

definition client_run ::
  "ext \<Rightarrow> ('k, 'g, 't, 'c) client_caches \<Rightarrow> nostr \<Rightarrow> client_config \<Rightarrow> client_event list \<Rightarrow>
   ('k, 'g, 't, 'c) client" where
  "client_run X K N cfg evs = foldl (client_step X K N cfg) (client_new K cfg) evs"

end
