(* ===== verification/Server_Inbound.thy ===== *)
theory Server_Inbound
  imports Server_State
begin

text \<open>
  One event in the server's event loop (\<open>event_loop\<close> of \<open>src/transport/server/mod.rs\<close>): the wrap and
  encryption policies, decryption and signature check, authorization, the session with its learned
  capabilities and its payment negotiation, oversized frames, route registration, and the inbound
  middleware seam (\<open>src/transport/server/middleware.rs\<close>). The loop is one task; a failed publish is
  only logged, so publishing has no result here. A panic ends the loop.
\<close>

section \<open>Receiving\<close>

record envelope =
  en_content :: string
  en_sender :: string
  en_event_id :: string
  en_is_encrypted :: bool
  en_tags :: "tag list"
  en_event :: nostr_event

definition is_gift_wrap :: "nostr_event \<Rightarrow> bool" where
  "is_gift_wrap event \<longleftrightarrow> ev_kind event = GIFT_WRAP_KIND \<or> ev_kind event = EPHEMERAL_GIFT_WRAP_KIND"

definition outer_wrap_kind :: "nostr_event \<Rightarrow> u16 option" where
  "outer_wrap_kind event = (if is_gift_wrap event then Some (ev_kind event) else None)"

definition open_envelope :: "bool \<Rightarrow> nostr_event \<Rightarrow> envelope" where
  "open_envelope is_encrypted inner =
     \<lparr>en_content = ev_content inner, en_sender = ev_pubkey inner, en_event_id = ev_id inner,
      en_is_encrypted = is_encrypted, en_tags = ev_tags inner, en_event = inner\<rparr>"

definition receive_event ::
  "('s, 'r, 'g, 'p, 'o) caches \<Rightarrow> nostr \<Rightarrow> server_config \<Rightarrow> nostr_event \<Rightarrow> ('s, 'r, 'g, 'p, 'o) server \<Rightarrow>
   ('s, 'r, 'g, 'p, 'o) server \<times> envelope option" where
  "receive_event C N cfg event s =
     (if is_gift_wrap event \<and> \<not> allows_kind (sc_gift_wrap_mode cfg) (ev_kind event) then (s, None)
      else if is_gift_wrap event then
        if sc_encryption_mode cfg = EncDisabled then (s, None)
        else if lru_contains (lc_seen C) (sv_seen s) (ev_id event) then (s, None)
        else
          (case nx_decrypt N event of
             None \<Rightarrow> (s, None)
           | Some decrypted_json \<Rightarrow>
               (case nx_event_of_json N decrypted_json of
                  None \<Rightarrow> (s, None)
                | Some inner \<Rightarrow>
                    if \<not> nx_verify N inner then (s, None)
                    else (s\<lparr>sv_seen := lru_put (lc_seen C) (sv_seen s) (ev_id event) ()\<rparr>,
                          Some (open_envelope True inner))))
      else if sc_encryption_mode cfg = EncRequired then (s, None)
      else if \<not> nx_verify N event then (s, None)
      else (s, Some (open_envelope False event)))"

section \<open>Authorization\<close>

definition request_param :: "json_rpc_message \<Rightarrow> string \<Rightarrow> json option" where
  "request_param message key =
     (case message of
        Request r \<Rightarrow> Option.bind (req_params r) (\<lambda>p. json_get p key)
      | _ \<Rightarrow> None)"

definition is_authorized :: "server_config \<Rightarrow> string \<Rightarrow> json_rpc_message \<Rightarrow> bool" where
  "is_authorized cfg sender_pubkey message \<longleftrightarrow>
     sc_allowed_public_keys cfg = [] \<or> sender_pubkey \<in> set (sc_allowed_public_keys cfg) \<or>
     is_capability_excluded (sc_excluded_capabilities cfg)
       (case message_method message of Some m \<Rightarrow> m | None \<Rightarrow> '''')
       (Option.bind (request_param message ''name'') json_as_str)"

definition all_zeros :: string where "all_zeros = replicate 64 CHR ''0''"

definition event_id_or_zeros :: "nostr \<Rightarrow> string \<Rightarrow> string" where
  "event_id_or_zeros N event_id = (if nx_event_id_ok N event_id then event_id else all_zeros)"

definition unauthorized_error :: "json \<Rightarrow> json_rpc_message" where
  "unauthorized_error i = ErrorResponse \<lparr>ers_jsonrpc = ''2.0'', ers_id = i, ers_error =
     \<lparr>err_code = - 32000, err_message = ''Unauthorized'', err_data = None\<rparr>\<rparr>"

definition refuse_unauthorized ::
  "('s, 'r, 'g, 'p, 'o) caches \<Rightarrow> nostr \<Rightarrow> server_config \<Rightarrow> nostr_event \<Rightarrow> envelope \<Rightarrow> json_rpc_message \<Rightarrow>
   ('s, 'r, 'g, 'p, 'o) server \<Rightarrow> ('s, 'r, 'g, 'p, 'o) server" where
  "refuse_unauthorized C N cfg event env message s =
     (case message of
        Request req \<Rightarrow>
          if sc_is_announced_server cfg \<and> nx_pubkey_ok N (en_sender env) then
            let S = lc_sessions C;
                base = create_response_tags (en_sender env) (event_id_or_zeros N (en_event_id env));
                has_sent = (case get_session S (sv_sessions s) (en_sender env) of
                              Some session \<Rightarrow> sn_has_sent_common_tags session | None \<Rightarrow> False);
                s1 = (if has_sent then s
                      else s\<lparr>sv_sessions := fst (mark_common_tags_sent S (sv_sessions s) (en_sender env))\<rparr>);
                tags = (if has_sent then base else base @ sc_refusal_tags cfg) in
            emit (Refused (send_mcp_message cfg (unauthorized_error (req_id req)) (en_sender env) tags
                    (en_is_encrypted env)
                    (select_outbound_gift_wrap_kind (sc_gift_wrap_mode cfg) (en_is_encrypted env)
                       (outer_wrap_kind event)))) s1
          else s
      | _ \<Rightarrow> s)"

section \<open>The session of the sender\<close>

definition ensure_session ::
  "('s, 'r, 'g, 'p, 'o) caches \<Rightarrow> server_config \<Rightarrow> instant \<Rightarrow> envelope \<Rightarrow> ('s, 'r, 'g, 'p, 'o) server \<Rightarrow>
   ('s, 'r, 'g, 'p, 'o) server" where
  "ensure_session C cfg now env s =
     (let S = lc_sessions C in
      if lru_contains S (sv_sessions s) (en_sender env) then s
      else
        let (c, evicted) = lru_push S (sv_sessions s) (en_sender env)
              (client_session_new now (en_is_encrypted env));
            (c', calls) = handle_eviction S now (en_sender env) evicted c (sc_on_evicted cfg) (sv_routes s) in
        s\<lparr>sv_sessions := c', sv_out := sv_out s @ map Session_Evicted calls\<rparr>)"

text \<open>Activity, encryption and the capabilities learned from the tags.\<close>

definition learn_session ::
  "server_config \<Rightarrow> instant \<Rightarrow> nostr_event \<Rightarrow> envelope \<Rightarrow> client_session \<Rightarrow> client_session" where
  "learn_session cfg now event env session =
     (let discovered = learn_peer_capabilities (en_tags env);
          s1 = (update_activity now session)\<lparr>cs_is_encrypted := en_is_encrypted env\<rparr>;
          s2 = (if is_gift_wrap event \<and> ev_kind event = EPHEMERAL_GIFT_WRAP_KIND
                then s1\<lparr>cs_supports_ephemeral_gift_wrap := True\<rparr> else s1) in
      s2\<lparr>cs_supports_encryption := cs_supports_encryption s2 \<or> pc_supports_encryption discovered,
         cs_supports_ephemeral_encryption :=
           cs_supports_ephemeral_encryption s2 \<or> pc_supports_ephemeral_encryption discovered,
         cs_supports_oversized_transfer := cs_supports_oversized_transfer s2 \<or>
           (sc_oversized_enabled cfg \<and> pc_supports_oversized_transfer discovered),
         cs_supports_open_stream := cs_supports_open_stream s2 \<or>
           (sc_open_stream_enabled cfg \<and> pc_supports_open_stream discovered)\<rparr>)"

definition request_progress_token :: "ext \<Rightarrow> json_rpc_message \<Rightarrow> string option" where
  "request_progress_token X message =
     Option.bind (request_param message ''_meta'') (\<lambda>m.
       Option.bind (json_get m ''progressToken'') (progress_token_string X))"

definition track_request :: "ext \<Rightarrow> envelope \<Rightarrow> json_rpc_message \<Rightarrow> client_session \<Rightarrow> client_session" where
  "track_request X env message session =
     (case message of
        Request req \<Rightarrow>
          let s1 = session\<lparr>cs_pending_requests :=
                AList.update (en_event_id env) (req_id req) (cs_pending_requests session)\<rparr> in
          (case request_progress_token X message of
             None \<Rightarrow> s1
           | Some token \<Rightarrow>
               s1\<lparr>cs_pending_requests :=
                    AList.update token (JString (en_event_id env)) (cs_pending_requests s1),
                  cs_event_to_progress_token :=
                    AList.update (en_event_id env) token (cs_event_to_progress_token s1)\<rparr>)
      | _ \<Rightarrow> session)"

section \<open>The middleware seam\<close>

definition dispatch_inbound ::
  "server_config \<Rightarrow> incoming_request \<Rightarrow> chain_context \<Rightarrow> ('s, 'r, 'g, 'p, 'o) server \<Rightarrow>
   ('s, 'r, 'g, 'p, 'o) server" where
  "dispatch_inbound cfg incoming ctx s =
     (let s1 = emit (Admitted incoming ctx) s in
      if \<not> sc_middlewares cfg then emit (Delivered incoming) s1
      else spawn_server (Chain \<lparr>cr_incoming = incoming, cr_forwarded = False, cr_reached = False\<rparr>)
             (enter_chain (in_event_id incoming) s1))"

text \<open>
  The end of the chain reached the worker with \<open>message\<close>, which a middleware may have changed;
  \<open>Next\<close> is consumed, so a chain forwards at most once. \<open>sent_ok\<close> is the result of the send.
\<close>

definition chain_forward ::
  "nat \<Rightarrow> chain_run \<Rightarrow> json_rpc_message \<Rightarrow> bool \<Rightarrow> ('s, 'r, 'g, 'p, 'o) server \<Rightarrow> ('s, 'r, 'g, 'p, 'o) server" where
  "chain_forward n run message sent_ok s =
     (if cr_forwarded run then s
      else
        let s1 = s\<lparr>sv_tasks := AList.update n
              (Chain (run\<lparr>cr_forwarded := True, cr_reached := sent_ok\<rparr>)) (sv_tasks s)\<rparr> in
        if sent_ok
        then mark_forwarded (in_event_id (cr_incoming run))
               (emit (Delivered ((cr_incoming run)\<lparr>in_message := message\<rparr>)) s1)
        else s1)"

text \<open>The chain returned or panicked: \<open>run_inbound_chain\<close> after the catch.\<close>

definition chain_end ::
  "('s, 'r, 'g, 'p, 'o) caches \<Rightarrow> nat \<Rightarrow> chain_run \<Rightarrow> ('s, 'r, 'g, 'p, 'o) server \<Rightarrow>
   ('s, 'r, 'g, 'p, 'o) server" where
  "chain_end C n run s =
     (let event_id = in_event_id (cr_incoming run);
          s0 = s\<lparr>sv_tasks := AList.delete n (sv_tasks s)\<rparr>;
          s1 = (if cr_reached run then s0
                else
                  let (routes, popped) = pop_route (lc_routes C) (sv_routes s0) event_id in
                  s0\<lparr>sv_routes := routes,
                     sv_wrap_kinds :=
                       (if popped \<noteq> None then AList.delete event_id (sv_wrap_kinds s0)
                        else sv_wrap_kinds s0)\<rparr>) in
      case leave_chain event_id s1 of
        (s2, None) \<Rightarrow> s2
      | (s2, Some slot) \<Rightarrow> drop_token slot s2)"

section \<open>Requests\<close>

text \<open>What every request, plain or reassembled, reserves before it is dispatched.\<close>

definition reserve_request ::
  "('s, 'r, 'g, 'p, 'o) caches \<Rightarrow> nostr \<Rightarrow> server_config \<Rightarrow> instant \<Rightarrow> nostr_event \<Rightarrow> envelope \<Rightarrow> json \<Rightarrow>
   string option \<Rightarrow> string option \<Rightarrow> ('s, 'r, 'g, 'p, 'o) server \<Rightarrow> ('s, 'r, 'g, 'p, 'o) server" where
  "reserve_request C N cfg now event env original_id progress_token writer_token s =
     (let s1 = s\<lparr>sv_wrap_kinds := AList.update (en_event_id env) (outer_wrap_kind event) (sv_wrap_kinds s),
                sv_routes := register_route (lc_routes C) (sv_routes s) now (en_event_id env) (en_sender env)
                  original_id progress_token\<rparr> in
      case writer_token of
        Some token \<Rightarrow>
          if sc_open_stream_enabled cfg
          then create_open_stream_writer N (en_event_id env) (en_sender env) token original_id
                 (en_is_encrypted env) (outer_wrap_kind event) s1
          else s1
      | None \<Rightarrow> s1)"

definition incoming_of :: "envelope \<Rightarrow> json_rpc_message \<Rightarrow> incoming_request" where
  "incoming_of env message =
     \<lparr>in_message = message, in_client_pubkey = en_sender env, in_event_id = en_event_id env,
      in_is_encrypted = en_is_encrypted env, in_event = Some (en_event env)\<rparr>"

section \<open>Oversized frames\<close>

definition frame_token :: "ext \<Rightarrow> json_rpc_notification \<Rightarrow> string option" where
  "frame_token X frame =
     Option.bind (ntf_params frame) (\<lambda>p. Option.bind (json_get p ''progressToken'') (progress_token_string X))"

definition is_start_frame :: "json_rpc_notification \<Rightarrow> bool" where
  "is_start_frame frame =
     (case Option.bind (ntf_params frame) (\<lambda>p. Option.bind (json_get p ''cvm'') from_cvm_value) of
        Some (Start a b c d) \<Rightarrow> True
      | _ \<Rightarrow> False)"

definition emit_accept_frame ::
  "nostr \<Rightarrow> server_config \<Rightarrow> nostr_event \<Rightarrow> envelope \<Rightarrow> string \<Rightarrow> ('s, 'r, 'g, 'p, 'o) server \<Rightarrow>
   ('s, 'r, 'g, 'p, 'o) server" where
  "emit_accept_frame N cfg event env token s =
     (if \<not> nx_pubkey_ok N (en_sender env) then s
      else
        emit (Accept_Sent (send_mcp_message cfg
          (Notification (into_progress_notification Accept token ACCEPT_PROGRESS
             (Some ''oversized request accepted'')))
          (en_sender env) (create_response_tags (en_sender env) (event_id_or_zeros N (en_event_id env)))
          (en_is_encrypted env)
          (select_outbound_gift_wrap_kind (sc_gift_wrap_mode cfg) (en_is_encrypted env)
             (outer_wrap_kind event)))) s)"

definition feed_oversized ::
  "ext \<Rightarrow> ('s, 'r, 'g, 'p, 'o) caches \<Rightarrow> server_config \<Rightarrow> instant \<Rightarrow> string \<Rightarrow> json_rpc_notification \<Rightarrow>
   bool \<Rightarrow> string option \<Rightarrow> ('s, 'r, 'g, 'p, 'o) server \<Rightarrow>
   ('s, 'r, 'g, 'p, 'o) server \<times> (oversized_error, json_rpc_message option) result" where
  "feed_oversized X C cfg now sender_pubkey frame issued_accept token s =
     (let T = lc_oversized C;
          store = (if lru_contains T (sv_oversized s) sender_pubkey then sv_oversized s
                   else lru_put T (sv_oversized s) sender_pubkey (with_policy (sc_transfer_policy cfg)));
          receiver = the (lru_peek T store sender_pubkey);
          (r1, outcome) = receiver_process_frame X receiver now frame;
          r2 = (case (issued_accept, outcome, token) of
                  (True, Ok None, Some t) \<Rightarrow>
                    fst (receiver_process_frame X r1 now
                           (into_progress_notification Accept t ACCEPT_PROGRESS None))
                | _ \<Rightarrow> r1) in
      (s\<lparr>sv_oversized := lru_modify T store sender_pubkey (\<lambda>_. r2)\<rparr>, outcome))"

definition tools_call_token :: "ext \<Rightarrow> json_rpc_message \<Rightarrow> string option" where
  "tools_call_token X message =
     (case message of
        Request req \<Rightarrow> if req_method req = ''tools/call'' then request_progress_token X message else None
      | _ \<Rightarrow> None)"

definition handle_oversized_frame ::
  "ext \<Rightarrow> ('s, 'r, 'g, 'p, 'o) caches \<Rightarrow> nostr \<Rightarrow> server_config \<Rightarrow> instant \<Rightarrow> nostr_event \<Rightarrow> envelope \<Rightarrow>
   chain_context \<Rightarrow> json_rpc_notification \<Rightarrow> bool \<Rightarrow> ('s, 'r, 'g, 'p, 'o) server \<Rightarrow>
   ('s, 'r, 'g, 'p, 'o) server" where
  "handle_oversized_frame X C N cfg now event env ctx frame client_already_supported s =
     (let token = frame_token X frame;
          issued_accept = (is_start_frame frame \<and> \<not> client_already_supported \<and> token \<noteq> None);
          s1 = (case token of
                  Some t \<Rightarrow> if issued_accept then emit_accept_frame N cfg event env t s else s
                | None \<Rightarrow> s) in
      case feed_oversized X C cfg now (en_sender env) frame issued_accept token s1 of
        (s2, Ok (Some message)) \<Rightarrow>
          let original_id = (case message_id message of Some i \<Rightarrow> i | None \<Rightarrow> JNull) in
          dispatch_inbound cfg (incoming_of env message) ctx
            (reserve_request C N cfg now event env original_id token (tools_call_token X message) s2)
      | (s2, _) \<Rightarrow> s2)"

definition sweep_oversized_receivers ::
  "('s, 'r, 'g, 'p, 'o) caches \<Rightarrow> instant \<Rightarrow> ('s, 'r, 'g, 'p, 'o) server \<Rightarrow> ('s, 'r, 'g, 'p, 'o) server" where
  "sweep_oversized_receivers C now s =
     (let T = lc_oversized C; peers = map fst (lru_iter T (sv_oversized s));
          swept = fold (\<lambda>peer c. lru_peek_mut T c peer (\<lambda>r. fst (remove_expired r now))) peers (sv_oversized s);
          empty_peers = map fst (filter (\<lambda>(peer, r). active_transfer_count r = 0) (lru_iter T swept)) in
      s\<lparr>sv_oversized := pop_all T empty_peers swept\<rparr>)"

section \<open>One event\<close>

definition chain_context_of :: "nostr_event \<Rightarrow> envelope \<Rightarrow> client_session \<Rightarrow> chain_context" where
  "chain_context_of event env session =
     \<lparr>cc_client_pmis = (let pmis = extract_pmis (en_tags env) in if pmis = [] then None else Some pmis),
      cc_payment_interaction =
        (case cs_effective_payment_interaction session of Some mode \<Rightarrow> mode | None \<Rightarrow> Transparent),
      cc_mirrored_wrap_kind = outer_wrap_kind event\<rparr>"

definition refuse_unsupported ::
  "nostr \<Rightarrow> server_config \<Rightarrow> nostr_event \<Rightarrow> envelope \<Rightarrow> json_rpc_message \<Rightarrow> payment_interaction_mode \<Rightarrow>
   ('s, 'r, 'g, 'p, 'o) server \<Rightarrow> ('s, 'r, 'g, 'p, 'o) server" where
  "refuse_unsupported N cfg event env message requested s =
     (if \<not> nx_pubkey_ok N (en_sender env) then s
      else
        emit (Refused (send_mcp_message cfg (unsupported_payment_interaction_error message requested)
          (en_sender env) (create_response_tags (en_sender env) (event_id_or_zeros N (en_event_id env)))
          (en_is_encrypted env)
          (select_outbound_gift_wrap_kind (sc_gift_wrap_mode cfg) (en_is_encrypted env)
             (outer_wrap_kind event)))) s)"

definition is_open_stream_frame :: "json_rpc_notification \<Rightarrow> bool" where
  "is_open_stream_frame n =
     (case notification_param n ''cvm'' of Some v \<Rightarrow> os_is_frame_value v | None \<Rightarrow> False)"

text \<open>A message that is not a frame: tracked, dispatched.\<close>

definition handle_message ::
  "ext \<Rightarrow> ('s, 'r, 'g, 'p, 'o) caches \<Rightarrow> nostr \<Rightarrow> server_config \<Rightarrow> instant \<Rightarrow> nostr_event \<Rightarrow> envelope \<Rightarrow>
   chain_context \<Rightarrow> json_rpc_message \<Rightarrow> ('s, 'r, 'g, 'p, 'o) server \<Rightarrow> ('s, 'r, 'g, 'p, 'o) server" where
  "handle_message X C N cfg now event env ctx message s =
     (let s1 = s\<lparr>sv_sessions := lru_modify (lc_sessions C) (sv_sessions s) (en_sender env)
             (track_request X env message)\<rparr>;
          s2 = (case message of
                  Request req \<Rightarrow>
                    reserve_request C N cfg now event env (req_id req) (request_progress_token X message)
                      (tools_call_token X message) s1
                | Notification n \<Rightarrow>
                    if ntf_method n = ''notifications/initialized''
                    then s\<lparr>sv_sessions := fst (mark_initialized (lc_sessions C) (sv_sessions s) (en_sender env))\<rparr>
                    else s
                | _ \<Rightarrow> s) in
      dispatch_inbound cfg (incoming_of env message) ctx s2)"

definition handle_authorized ::
  "ext \<Rightarrow> ('s, 'r, 'g, 'p, 'o) caches \<Rightarrow> nostr \<Rightarrow> server_config \<Rightarrow> instant \<Rightarrow> nostr_event \<Rightarrow> envelope \<Rightarrow>
   json_rpc_message \<Rightarrow> ('s, 'r, 'g, 'p, 'o) server \<Rightarrow> ('s, 'r, 'g, 'p, 'o) server call" where
  "handle_authorized X C N cfg now event env message s =
     (let s1 = ensure_session C cfg now env s in
      case lru_peek (lc_sessions C) (sv_sessions s1) (en_sender env) of
        None \<Rightarrow> Panicked
      | Some session \<Rightarrow>
          let (session2, negotiation) = negotiate_payment_interaction
                (learn_session cfg now event env session) (en_tags env) (message_method message)
                (case message of Request r \<Rightarrow> True | _ \<Rightarrow> False) (sc_supports_explicit_gating cfg);
              s2 = s1\<lparr>sv_sessions := lru_modify (lc_sessions C) (sv_sessions s1) (en_sender env) (\<lambda>_. session2)\<rparr>;
              ctx = chain_context_of event env session2 in
          Returned (case negotiation of
              Reject_Unsupported requested \<Rightarrow> refuse_unsupported N cfg event env message requested s2
            | Proceed \<Rightarrow>
                (case message of
                   Notification n \<Rightarrow>
                     if sc_oversized_enabled cfg \<and> is_oversized_frame n
                     then handle_oversized_frame X C N cfg now event env ctx n
                            (cs_supports_oversized_transfer session) s2
                     else if sc_open_stream_enabled cfg \<and> is_open_stream_frame n
                     then emit (Stream_Frame n (en_sender env) (en_event_id env)
                            (cs_supports_open_stream session2)) s2
                     else handle_message X C N cfg now event env ctx message s2
                 | _ \<Rightarrow> handle_message X C N cfg now event env ctx message s2)))"

definition inbound_event ::
  "ext \<Rightarrow> ('s, 'r, 'g, 'p, 'o) caches \<Rightarrow> nostr \<Rightarrow> server_config \<Rightarrow> instant \<Rightarrow> nostr_event \<Rightarrow>
   ('s, 'r, 'g, 'p, 'o) server \<Rightarrow> ('s, 'r, 'g, 'p, 'o) server" where
  "inbound_event X C N cfg now event s =
     (if \<not> sv_event_loop s then s
      else
        (case receive_event C N cfg event s of
           (s1, None) \<Rightarrow> s1
         | (s1, Some env) \<Rightarrow>
             (case validate_and_parse X (en_content env) of
                None \<Rightarrow> s1
              | Some message \<Rightarrow>
                  if \<not> is_authorized cfg (en_sender env) message
                  then refuse_unauthorized C N cfg event env message s1
                  else
                    (case handle_authorized X C N cfg now event env message s1 of
                       Returned s2 \<Rightarrow> s2
                     | Panicked \<Rightarrow> (ensure_session C cfg now env s1)\<lparr>sv_event_loop := False\<rparr>))))"

section \<open>What an event can cause\<close>

text \<open>An effect that belongs to the sender and the event of an envelope.\<close>

fun stems_from :: "envelope \<Rightarrow> server_effect \<Rightarrow> bool" where
  "stems_from env (Admitted r ctx) \<longleftrightarrow> (\<exists>message. r = incoming_of env message)"
| "stems_from env (Delivered r) \<longleftrightarrow> (\<exists>message. r = incoming_of env message)"
| "stems_from env (Refused p) \<longleftrightarrow> pb_recipient p = en_sender env"
| "stems_from env (Accept_Sent p) \<longleftrightarrow> pb_recipient p = en_sender env"
| "stems_from env (Stream_Frame n client event_id b) \<longleftrightarrow> client = en_sender env \<and> event_id = en_event_id env"
| "stems_from env (Session_Evicted client) \<longleftrightarrow> client \<noteq> en_sender env"
| "stems_from env _ \<longleftrightarrow> False"

definition extends_by :: "(server_effect \<Rightarrow> bool) \<Rightarrow> ('s, 'r, 'g, 'p, 'o) server \<Rightarrow>
    ('s, 'r, 'g, 'p, 'o) server \<Rightarrow> bool" where
  "extends_by P s s' \<longleftrightarrow> (\<exists>new. sv_out s' = sv_out s @ new \<and> (\<forall>x \<in> set new. P x))"

lemma extends_same: "sv_out s' = sv_out s \<Longrightarrow> extends_by P s s'"
  by (simp add: extends_by_def)

lemma extends_new: "sv_out s' = sv_out s @ new \<Longrightarrow> \<forall>x \<in> set new. P x \<Longrightarrow> extends_by P s s'"
  by (auto simp: extends_by_def)

lemma extends_trans: "extends_by P s s' \<Longrightarrow> extends_by P s' s'' \<Longrightarrow> extends_by P s s''"
  unfolding extends_by_def by (metis Un_iff append.assoc set_append)

lemma send_mcp_message_simps [simp]:
  "pb_recipient (send_mcp_message cfg m r t b k) = r" "pb_message (send_mcp_message cfg m r t b k) = m"
  "pb_tags (send_mcp_message cfg m r t b k) = t"
  by (simp_all add: send_mcp_message_def)

lemma dispatch_inbound_frame [server_frame]:
  "sv_out (dispatch_inbound cfg r ctx s) =
     sv_out s @ Admitted r ctx # (if sc_middlewares cfg then [] else [Delivered r])"
  "sv_sessions (dispatch_inbound cfg r ctx s) = sv_sessions s"
  "sv_routes (dispatch_inbound cfg r ctx s) = sv_routes s"
  "sv_seen (dispatch_inbound cfg r ctx s) = sv_seen s"
  "sv_oversized (dispatch_inbound cfg r ctx s) = sv_oversized s"
  "sv_snapshots (dispatch_inbound cfg r ctx s) = sv_snapshots s"
  "sv_event_loop (dispatch_inbound cfg r ctx s) = sv_event_loop s"
  by (simp_all add: dispatch_inbound_def enter_chain_def server_frame Let_def)

lemma reserve_request_frame [server_frame]:
  "sv_out (reserve_request C N cfg now event env i pt wt s) = sv_out s"
  "sv_sessions (reserve_request C N cfg now event env i pt wt s) = sv_sessions s"
  "sv_routes (reserve_request C N cfg now event env i pt wt s) =
     register_route (lc_routes C) (sv_routes s) now (en_event_id env) (en_sender env) i pt"
  "sv_seen (reserve_request C N cfg now event env i pt wt s) = sv_seen s"
  "sv_oversized (reserve_request C N cfg now event env i pt wt s) = sv_oversized s"
  "sv_snapshots (reserve_request C N cfg now event env i pt wt s) = sv_snapshots s"
  "sv_tasks (reserve_request C N cfg now event env i pt wt s) = sv_tasks s"
  "sv_next (reserve_request C N cfg now event env i pt wt s) = sv_next s"
  "sv_event_loop (reserve_request C N cfg now event env i pt wt s) = sv_event_loop s"
  by (simp_all add: reserve_request_def server_frame Let_def split: option.split)

lemma emit_accept_frame_frame [server_frame]:
  "sv_sessions (emit_accept_frame N cfg event env t s) = sv_sessions s"
  "sv_routes (emit_accept_frame N cfg event env t s) = sv_routes s"
  "sv_wrap_kinds (emit_accept_frame N cfg event env t s) = sv_wrap_kinds s"
  "sv_seen (emit_accept_frame N cfg event env t s) = sv_seen s"
  "sv_oversized (emit_accept_frame N cfg event env t s) = sv_oversized s"
  "sv_slots (emit_accept_frame N cfg event env t s) = sv_slots s"
  "sv_snapshots (emit_accept_frame N cfg event env t s) = sv_snapshots s"
  "sv_tasks (emit_accept_frame N cfg event env t s) = sv_tasks s"
  "sv_next (emit_accept_frame N cfg event env t s) = sv_next s"
  "sv_event_loop (emit_accept_frame N cfg event env t s) = sv_event_loop s"
  by (simp_all add: emit_accept_frame_def server_frame)

lemma feed_oversized_frame [server_frame]:
  "sv_out (fst (feed_oversized X C cfg now k f b t s)) = sv_out s"
  "sv_sessions (fst (feed_oversized X C cfg now k f b t s)) = sv_sessions s"
  "sv_routes (fst (feed_oversized X C cfg now k f b t s)) = sv_routes s"
  "sv_wrap_kinds (fst (feed_oversized X C cfg now k f b t s)) = sv_wrap_kinds s"
  "sv_seen (fst (feed_oversized X C cfg now k f b t s)) = sv_seen s"
  "sv_slots (fst (feed_oversized X C cfg now k f b t s)) = sv_slots s"
  "sv_snapshots (fst (feed_oversized X C cfg now k f b t s)) = sv_snapshots s"
  "sv_tasks (fst (feed_oversized X C cfg now k f b t s)) = sv_tasks s"
  "sv_next (fst (feed_oversized X C cfg now k f b t s)) = sv_next s"
  "sv_event_loop (fst (feed_oversized X C cfg now k f b t s)) = sv_event_loop s"
  by (simp_all add: feed_oversized_def Let_def split: prod.split)

lemma refuse_unsupported_frame [server_frame]:
  "sv_sessions (refuse_unsupported N cfg event env m r s) = sv_sessions s"
  "sv_routes (refuse_unsupported N cfg event env m r s) = sv_routes s"
  "sv_seen (refuse_unsupported N cfg event env m r s) = sv_seen s"
  "sv_oversized (refuse_unsupported N cfg event env m r s) = sv_oversized s"
  "sv_slots (refuse_unsupported N cfg event env m r s) = sv_slots s"
  "sv_snapshots (refuse_unsupported N cfg event env m r s) = sv_snapshots s"
  "sv_tasks (refuse_unsupported N cfg event env m r s) = sv_tasks s"
  "sv_next (refuse_unsupported N cfg event env m r s) = sv_next s"
  "sv_event_loop (refuse_unsupported N cfg event env m r s) = sv_event_loop s"
  by (simp_all add: refuse_unsupported_def server_frame)

lemma refuse_unauthorized_frame [server_frame]:
  "sv_routes (refuse_unauthorized C N cfg event env m s) = sv_routes s"
  "sv_seen (refuse_unauthorized C N cfg event env m s) = sv_seen s"
  "sv_oversized (refuse_unauthorized C N cfg event env m s) = sv_oversized s"
  "sv_slots (refuse_unauthorized C N cfg event env m s) = sv_slots s"
  "sv_snapshots (refuse_unauthorized C N cfg event env m s) = sv_snapshots s"
  "sv_tasks (refuse_unauthorized C N cfg event env m s) = sv_tasks s"
  "sv_next (refuse_unauthorized C N cfg event env m s) = sv_next s"
  "sv_event_loop (refuse_unauthorized C N cfg event env m s) = sv_event_loop s"
  by (simp_all add: refuse_unauthorized_def server_frame Let_def split: json_rpc_message.split)

text \<open>
  What a refused message may leave behind: nothing, or one error answer to the request's author and
  the mark on the author's session that the common tags were sent.
\<close>

definition refused_only ::
  "('s, 'r, 'g, 'p, 'o) caches \<Rightarrow> server_config \<Rightarrow> string \<Rightarrow> json_rpc_message \<Rightarrow> ('s, 'r, 'g, 'p, 'o) server \<Rightarrow>
   ('s, 'r, 'g, 'p, 'o) server \<Rightarrow> bool" where
  "refused_only C cfg author message s s' \<longleftrightarrow>
     s' = s \<or>
     (\<exists>req p sessions. message = Request req \<and> sc_is_announced_server cfg \<and>
        s' = s\<lparr>sv_sessions := sessions, sv_out := sv_out s @ [Refused p]\<rparr> \<and>
        pb_recipient p = author \<and> pb_message p = unauthorized_error (req_id req) \<and>
        sessions \<in> {sv_sessions s, lru_modify (lc_sessions C) (sv_sessions s) author
          (\<lambda>session. session\<lparr>cs_has_sent_common_tags := True\<rparr>)})"

lemma refuse_unauthorized_only:
  "refused_only C cfg (en_sender env) m s (refuse_unauthorized C N cfg event env m s)"
proof (cases "\<exists>req. m = Request req \<and> sc_is_announced_server cfg \<and> nx_pubkey_ok N (en_sender env)")
  case True
  then obtain req where m: "m = Request req" "sc_is_announced_server cfg" "nx_pubkey_ok N (en_sender env)"
    by blast
  have "\<exists>tags sessions. refuse_unauthorized C N cfg event env m s =
      s\<lparr>sv_sessions := sessions, sv_out := sv_out s @ [Refused (send_mcp_message cfg
        (unauthorized_error (req_id req)) (en_sender env) tags (en_is_encrypted env)
        (select_outbound_gift_wrap_kind (sc_gift_wrap_mode cfg) (en_is_encrypted env) (outer_wrap_kind event)))]\<rparr> \<and>
      sessions \<in> {sv_sessions s, lru_modify (lc_sessions C) (sv_sessions s) (en_sender env)
          (\<lambda>session. session\<lparr>cs_has_sent_common_tags := True\<rparr>)}"
    by (simp add: m refuse_unauthorized_def emit_def Let_def mark_common_tags_sent_def split: option.split)
      (force intro: exI [of _ "sv_sessions s"])
  with m show ?thesis
    unfolding refused_only_def by (metis send_mcp_message_simps(1,2))
next
  case False
  then show ?thesis
    by (auto simp: refused_only_def refuse_unauthorized_def split: json_rpc_message.split)
qed

lemma refuse_unauthorized_out:
  "extends_by (\<lambda>x. \<exists>p. x = Refused p \<and> pb_recipient p = en_sender env) s
     (refuse_unauthorized C N cfg event env m s)"
  by (auto simp: refuse_unauthorized_def server_frame Let_def extends_by_def split: json_rpc_message.split)

lemma handle_message_out: "extends_by (stems_from env) s (handle_message X C N cfg now event env ctx m s)"
  by (rule extends_new [where new = "Admitted (incoming_of env m) ctx #
        (if sc_middlewares cfg then [] else [Delivered (incoming_of env m)])"])
    (auto simp: handle_message_def server_frame Let_def split: json_rpc_message.split)

lemma dispatch_inbound_out:
  "sv_out s1 = sv_out s \<Longrightarrow>
    extends_by (stems_from env) s (dispatch_inbound cfg (incoming_of env m) ctx s1)"
  by (rule extends_new [where new = "Admitted (incoming_of env m) ctx #
        (if sc_middlewares cfg then [] else [Delivered (incoming_of env m)])"])
    (auto simp: server_frame)

lemma handle_oversized_frame_out:
  "extends_by (stems_from env) s (handle_oversized_frame X C N cfg now event env ctx f b s)"
proof -
  define t where "t = frame_token X f"
  define ia where "ia = (is_start_frame f \<and> \<not> b \<and> t \<noteq> None)"
  define s1 where "s1 = (case t of Some t \<Rightarrow> if ia then emit_accept_frame N cfg event env t s else s | None \<Rightarrow> s)"
  obtain s2 r where f: "feed_oversized X C cfg now (en_sender env) f ia t s1 = (s2, r)" by fastforce
  have "extends_by (stems_from env) s s1"
    by (auto simp: s1_def emit_accept_frame_def server_frame extends_by_def split: option.split)
  moreover have "sv_out s2 = sv_out s1"
    using feed_oversized_frame(1) [of X C cfg now "en_sender env" f ia t s1] f by simp
  then have "extends_by (stems_from env) s1 (handle_oversized_frame X C N cfg now event env ctx f b s)"
    unfolding handle_oversized_frame_def Let_def t_def [symmetric] ia_def [symmetric] s1_def [symmetric] f
    by (simp add: extends_same dispatch_inbound_out server_frame split: sum.split option.split)
  ultimately show ?thesis by (rule extends_trans)
qed

lemma ensure_session_frame [server_frame]:
  "sv_routes (ensure_session C cfg now env s) = sv_routes s"
  "sv_wrap_kinds (ensure_session C cfg now env s) = sv_wrap_kinds s"
  "sv_seen (ensure_session C cfg now env s) = sv_seen s"
  "sv_oversized (ensure_session C cfg now env s) = sv_oversized s"
  "sv_slots (ensure_session C cfg now env s) = sv_slots s"
  "sv_snapshots (ensure_session C cfg now env s) = sv_snapshots s"
  "sv_tasks (ensure_session C cfg now env s) = sv_tasks s"
  "sv_next (ensure_session C cfg now env s) = sv_next s"
  "sv_event_loop (ensure_session C cfg now env s) = sv_event_loop s"
  by (simp_all add: ensure_session_def Let_def split: prod.split)

lemma ensure_session_out: "extends_by (stems_from env) s (ensure_session C cfg now env s)"
  by (auto simp: ensure_session_def handle_eviction_def Let_def extends_by_def split: prod.splits option.splits)

text \<open>What an authorized message can do, once its session is updated.\<close>

definition settle_session ::
  "('s, 'r, 'g, 'p, 'o) caches \<Rightarrow> server_config \<Rightarrow> instant \<Rightarrow> envelope \<Rightarrow> client_session \<Rightarrow>
   ('s, 'r, 'g, 'p, 'o) server \<Rightarrow> ('s, 'r, 'g, 'p, 'o) server" where
  "settle_session C cfg now env session s =
     (let s1 = ensure_session C cfg now env s in
      s1\<lparr>sv_sessions := lru_modify (lc_sessions C) (sv_sessions s1) (en_sender env) (\<lambda>_. session)\<rparr>)"

lemma settle_session_frame [server_frame]:
  "sv_routes (settle_session C cfg now env c s) = sv_routes s"
  "sv_wrap_kinds (settle_session C cfg now env c s) = sv_wrap_kinds s"
  "sv_seen (settle_session C cfg now env c s) = sv_seen s"
  "sv_oversized (settle_session C cfg now env c s) = sv_oversized s"
  "sv_slots (settle_session C cfg now env c s) = sv_slots s"
  "sv_snapshots (settle_session C cfg now env c s) = sv_snapshots s"
  "sv_tasks (settle_session C cfg now env c s) = sv_tasks s"
  "sv_next (settle_session C cfg now env c s) = sv_next s"
  "sv_event_loop (settle_session C cfg now env c s) = sv_event_loop s"
  "sv_out (settle_session C cfg now env c s) = sv_out (ensure_session C cfg now env s)"
  by (simp_all add: settle_session_def server_frame Let_def)

lemma handle_authorized_cases:
  assumes "handle_authorized X C N cfg now event env m s = Returned s'"
  obtains (refused) session requested where
      "s' = refuse_unsupported N cfg event env m requested (settle_session C cfg now env session s)"
  | (plain) session ctx where
      "s' = handle_message X C N cfg now event env ctx m (settle_session C cfg now env session s)"
  | (oversized) session ctx n b where "m = Notification n"
      "s' = handle_oversized_frame X C N cfg now event env ctx n b (settle_session C cfg now env session s)"
  | (stream) session n b where "m = Notification n"
      "s' = emit (Stream_Frame n (en_sender env) (en_event_id env) b) (settle_session C cfg now env session s)"
proof -
  let ?s1 = "ensure_session C cfg now env s"
  obtain session where "lru_peek (lc_sessions C) (sv_sessions ?s1) (en_sender env) = Some session"
    using assms by (auto simp: handle_authorized_def Let_def split: option.splits)
  moreover obtain session2 neg where "negotiate_payment_interaction (learn_session cfg now event env session)
      (en_tags env) (message_method m) (case m of Request r \<Rightarrow> True | _ \<Rightarrow> False)
      (sc_supports_explicit_gating cfg) = (session2, neg)" by fastforce
  ultimately show thesis
    using assms refused [of _ session2] plain [of _ session2] oversized [of _ _ _ session2] stream [of _ _ session2]
      settle_session_def [of C cfg now env session2 s]
    by (auto simp: handle_authorized_def Let_def split: json_rpc_message.splits negotiation_outcome.splits if_splits)
qed

lemma handle_message_seen [server_frame]:
  "sv_seen (handle_message X C N cfg now event env ctx m s) = sv_seen s"
  "sv_event_loop (handle_message X C N cfg now event env ctx m s) = sv_event_loop s"
  by (simp_all add: handle_message_def server_frame Let_def split: json_rpc_message.split)

lemma handle_oversized_frame_seen [server_frame]:
  "sv_seen (handle_oversized_frame X C N cfg now event env ctx n b s) = sv_seen s"
  "sv_event_loop (handle_oversized_frame X C N cfg now event env ctx n b s) = sv_event_loop s"
proof -
  define t where "t = frame_token X n"
  define ia where "ia = (is_start_frame n \<and> \<not> b \<and> t \<noteq> None)"
  define s1 where "s1 = (case t of Some t \<Rightarrow> if ia then emit_accept_frame N cfg event env t s else s | None \<Rightarrow> s)"
  obtain s2 r where f: "feed_oversized X C cfg now (en_sender env) n ia t s1 = (s2, r)" by fastforce
  have "sv_seen s1 = sv_seen s" "sv_event_loop s1 = sv_event_loop s"
    by (simp_all add: s1_def server_frame split: option.split)
  then have "sv_seen s2 = sv_seen s" "sv_event_loop s2 = sv_event_loop s"
    using feed_oversized_frame(5,10) [of X C cfg now "en_sender env" n ia t s1] f by simp_all
  then show "sv_seen (handle_oversized_frame X C N cfg now event env ctx n b s) = sv_seen s"
    "sv_event_loop (handle_oversized_frame X C N cfg now event env ctx n b s) = sv_event_loop s"
    unfolding handle_oversized_frame_def Let_def t_def [symmetric] ia_def [symmetric] s1_def [symmetric] f
    by (simp_all add: server_frame split: sum.split option.split)
qed

lemma handle_authorized_seen:
  "handle_authorized X C N cfg now event env m s = Returned s' \<Longrightarrow>
    sv_seen s' = sv_seen s \<and> sv_event_loop s' = sv_event_loop s"
  by (erule handle_authorized_cases) (simp_all add: server_frame)

lemma handle_authorized_out:
  assumes "handle_authorized X C N cfg now event env m s = Returned s'"
  shows "extends_by (stems_from env) s s'"
proof -
  let ?s2 = "\<lambda>session. settle_session C cfg now env session s"
  have "extends_by (stems_from env) s (?s2 session)" for session
    using ensure_session_out [of env s C cfg now] by (simp add: extends_by_def server_frame)
  moreover have "\<exists>session. extends_by (stems_from env) (?s2 session) s'"
    using assms
  proof (cases rule: handle_authorized_cases)
    case (refused session requested)
    then have "extends_by (stems_from env) (?s2 session) s'"
      by (simp add: refuse_unsupported_def server_frame extends_by_def)
    then show ?thesis ..
  next
    case (stream session n b)
    then have "extends_by (stems_from env) (?s2 session) s'" by (simp add: server_frame extends_by_def)
    then show ?thesis ..
  qed (metis handle_message_out, metis handle_oversized_frame_out)
  ultimately show ?thesis by (metis extends_trans)
qed

text \<open>The envelopes that the policies let through, with the replay cache before and after.\<close>

definition opened :: "('s, 'r, 'g, 'p, 'o) caches \<Rightarrow> nostr \<Rightarrow> server_config \<Rightarrow> nostr_event \<Rightarrow> 'g \<Rightarrow> 'g \<Rightarrow>
    nostr_event \<Rightarrow> bool" where
  "opened C N cfg event seen seen' inner \<longleftrightarrow> nx_verify N inner \<and>
     (if is_gift_wrap event
      then allows_kind (sc_gift_wrap_mode cfg) (ev_kind event) \<and> sc_encryption_mode cfg \<noteq> EncDisabled \<and>
        Option.bind (nx_decrypt N event) (nx_event_of_json N) = Some inner \<and>
        \<not> lru_contains (lc_seen C) seen (ev_id event) \<and> seen' = lru_put (lc_seen C) seen (ev_id event) ()
      else sc_encryption_mode cfg \<noteq> EncRequired \<and> inner = event \<and> seen' = seen)"

lemma receive_event_cases:
  obtains (dropped) "receive_event C N cfg event s = (s, None)"
  | (passed) inner seen' where "opened C N cfg event (sv_seen s) seen' inner"
      "receive_event C N cfg event s = (s\<lparr>sv_seen := seen'\<rparr>, Some (open_envelope (is_gift_wrap event) inner))"
proof (cases "snd (receive_event C N cfg event s)")
  case None
  then have "receive_event C N cfg event s = (s, None)"
    by (auto simp: receive_event_def split: if_splits option.splits)
  then show ?thesis by (rule dropped)
next
  case (Some env)
  show ?thesis
  proof (cases "is_gift_wrap event")
    case True
    with Some show ?thesis
      by (intro passed [of "lru_put (lc_seen C) (sv_seen s) (ev_id event) ()" "en_event env"])
        (auto simp: receive_event_def opened_def open_envelope_def split: if_splits option.splits)
  next
    case False
    with Some show ?thesis
      by (intro passed [of "sv_seen s" event])
        (auto simp: receive_event_def opened_def open_envelope_def split: if_splits)
  qed
qed

section \<open>The session after an access\<close>

context session_lru
begin

text \<open>The one case in which the session of the sender is missing after it was inserted.\<close>

lemma get_or_create_lost:
  assumes "valid c" "lru_peek S c k = None"
  shows "lru_peek S (fst (get_or_create_session S now c cb k enc routes)) k = None \<longleftrightarrow>
    lru_cap S c = 1 \<and> (\<exists>a sa. lru_iter S c = [(a, sa)] \<and> has_active_routes_for_client routes a)"
proof (cases "session_count S c < lru_cap S c")
  case True
  then show ?thesis
    using get_or_create_room [OF assms True, of now cb enc routes] by (auto simp: session_count_def lru_len_def)
next
  case False
  then have full: "length (lru_iter S c) = lru_cap S c"
    using session_capacity [OF assms(1)] by (simp add: session_count_def lru_len_def)
  then have "lru_iter S c \<noteq> []" using valid_cap [OF assms(1)] by auto
  then obtain es a sa where es: "lru_iter S c = es @ [(a, sa)]" by (metis rev_exhaust surj_pair)
  then have cap: "length es + 1 = lru_cap S c" using full by simp
  have ne: "a \<noteq> k" by (rule oldest_ne [OF es assms(2)])
  show ?thesis
  proof (cases "has_active_routes_for_client routes a")
    case True
    obtain c' where c': "get_or_create_session S now c cb k enc routes = (c', [], True)"
      "lru_iter S c' = (a, client_session_new now (cs_is_encrypted sa)) #
        butlast ((k, client_session_new now enc) # es)"
      using get_or_create_vetoed [OF assms(1) es cap assms(2) True] by blast
    show ?thesis using c' ne es cap True by (cases es) (auto simp: lru_peek_def)
  next
    case False
    then show ?thesis
      using get_or_create_full [OF assms(1) es cap assms(2) False, of now cb enc] es by (auto simp: lru_peek_def)
  qed
qed

end

lemma ensure_session_sessions:
  "sv_sessions (ensure_session C cfg now env s) =
     (if lru_contains (lc_sessions C) (sv_sessions s) (en_sender env) then sv_sessions s
      else fst (get_or_create_session (lc_sessions C) now (sv_sessions s) (sc_on_evicted cfg) (en_sender env)
        (en_is_encrypted env) (sv_routes s)))"
  by (simp add: ensure_session_def get_or_create_session_def Let_def split: prod.split)

lemma receive_event_frame:
  "receive_event C N cfg event s = (s1, env) \<Longrightarrow>
     sv_sessions s1 = sv_sessions s \<and> sv_routes s1 = sv_routes s \<and> sv_event_loop s1 = sv_event_loop s \<and> sv_out s1 = sv_out s"
  by (auto simp: receive_event_def split: if_splits option.splits)

lemma register_route_routes:
  "rs_routes (register_route L s now e c i t) = lru_put L (rs_routes s) e (new_route now c i t)"
  by (cases "lru_push L (rs_routes s) e (new_route now c i t)"; cases t)
    (auto simp: register_route_def new_route_def lru_put_def Let_def split: option.split)

lemma handle_authorized_panics:
  "handle_authorized X C N cfg now event env m s = Panicked \<longleftrightarrow>
     lru_peek (lc_sessions C) (sv_sessions (ensure_session C cfg now env s)) (en_sender env) = None"
  by (simp add: handle_authorized_def Let_def split: option.split prod.split)

lemma ensure_session_valid:
  "session_lru (lc_sessions C) valid \<Longrightarrow> valid (sv_sessions s) \<Longrightarrow>
     valid (sv_sessions (ensure_session C cfg now env s))"
  by (simp add: ensure_session_sessions session_lru.get_or_create_keeps)

lemma track_request_pending:
  "contains_key (cs_pending_requests (track_request X env (Request req) session)) (en_event_id env)"
  by (simp add: track_request_def contains_key_def update_conv Let_def split: option.split)

lemma handle_message_request:
  "sv_sessions (handle_message X C N cfg now event env ctx (Request req) s) =
     lru_modify (lc_sessions C) (sv_sessions s) (en_sender env) (track_request X env (Request req))"
  "sv_routes (handle_message X C N cfg now event env ctx (Request req) s) =
     register_route (lc_routes C) (sv_routes s) now (en_event_id env) (en_sender env) (req_id req)
       (request_progress_token X (Request req))"
  "sv_out (handle_message X C N cfg now event env ctx (Request req) s) =
     sv_out s @ Admitted (incoming_of env (Request req)) ctx #
       (if sc_middlewares cfg then [] else [Delivered (incoming_of env (Request req))])"
  by (simp_all add: handle_message_def server_frame Let_def)

text \<open>A request that no mode is refused for.\<close>

lemma negotiate_proceeds:
  "extract_payment_interaction tags \<noteq> Some ''explicit_gating'' \<or> g \<Longrightarrow>
    snd (negotiate_payment_interaction session tags method b g) = Proceed"
  by (auto simp: negotiate_payment_interaction_def Let_def split: option.split)

lemma handle_authorized_request:
  assumes "lru_peek (lc_sessions C) (sv_sessions (ensure_session C cfg now env s)) (en_sender env) \<noteq> None"
    "extract_payment_interaction (en_tags env) \<noteq> Some ''explicit_gating'' \<or> sc_supports_explicit_gating cfg"
  obtains session ctx where "handle_authorized X C N cfg now event env (Request req) s =
    Returned (handle_message X C N cfg now event env ctx (Request req) (settle_session C cfg now env session s))"
proof -
  obtain session where p: "lru_peek (lc_sessions C) (sv_sessions (ensure_session C cfg now env s)) (en_sender env) =
      Some session" using assms(1) by blast
  obtain session2 neg where n: "negotiate_payment_interaction (learn_session cfg now event env session)
      (en_tags env) (Some (req_method req)) True (sc_supports_explicit_gating cfg) = (session2, neg)" by fastforce
  with negotiate_proceeds [OF assms(2), of "learn_session cfg now event env session" "Some (req_method req)" True]
  have "neg = Proceed" by simp
  with p n that [of "chain_context_of event env session2" session2] show thesis
    by (simp add: handle_authorized_def settle_session_def Let_def)
qed

section \<open>A concrete server\<close>

text \<open>A concrete server: list caches, a request from client \<open>a\<close> in an event that is not encrypted.\<close>

definition list_caches ::
  "(client_session lru_list, route_entry lru_list, unit lru_list, payment_route_snapshot lru_list,
    receiver lru_list) caches" where
  "list_caches = \<lparr>lc_sessions = list_lru, lc_routes = list_lru, lc_seen = list_lru, lc_snapshots = list_lru,
     lc_oversized = list_lru\<rparr>"

definition demo_nostr :: nostr where
  "demo_nostr = \<lparr>nx_verify = (\<lambda>e. ev_id e = ev_pubkey e), nx_decrypt = (\<lambda>e. None),
     nx_event_of_json = (\<lambda>j. None), nx_pubkey_ok = (\<lambda>k. True), nx_event_id_ok = (\<lambda>k. True)\<rparr>"

definition demo_server :: server_config where
  "demo_server = \<lparr>sc_encryption_mode = EncOptional, sc_gift_wrap_mode = WrapOptional,
     sc_is_announced_server = True, sc_allowed_public_keys = [], sc_excluded_capabilities = [],
     sc_max_sessions = 1, sc_session_timeout = 10, sc_request_timeout = 10, sc_oversized_enabled = True,
     sc_oversized_threshold = 100, sc_transfer_policy = default_transfer_policy, sc_open_stream_enabled = True,
     sc_supports_explicit_gating = False, sc_common_tags = [], sc_refusal_tags = [], sc_pricing_tags = [],
     sc_on_evicted = True, sc_middlewares = False\<rparr>"

definition ping_request :: json_rpc_request where
  "ping_request = \<lparr>req_jsonrpc = ''2.0'', req_id = JString ''1'', req_method = ''ping'', req_params = None\<rparr>"

definition ping_ext :: ext where
  "ping_ext = plain_ext\<lparr>json_from_str := (\<lambda>s. Some (message_to_value (Request ping_request)))\<rparr>"

definition ping_event :: "string \<Rightarrow> nostr_event" where
  "ping_event who = \<lparr>ev_id = who, ev_pubkey = who, ev_kind = 25910, ev_tags = [], ev_content = ''ping''\<rparr>"

lemma ping_parsed: "validate_and_parse ping_ext ''ping'' = Some (Request ping_request)"
proof -
  have "validate_message (message_to_value (Request ping_request)) = Some (Request ping_request)"
    by code_simp
  then show ?thesis
    by (simp add: validate_and_parse_def ping_ext_def validate_message_size_def MAX_MESSAGE_SIZE_def)
qed

lemma ping_plain: "\<not> is_gift_wrap (ping_event who)"
  by (simp add: is_gift_wrap_def ping_event_def GIFT_WRAP_KIND_def EPHEMERAL_GIFT_WRAP_KIND_def)

lemma ping_received:
  "receive_event list_caches demo_nostr demo_server (ping_event who) s =
     (s, Some (open_envelope False (ping_event who)))"
  using ping_plain [of who] by (simp add: receive_event_def demo_server_def demo_nostr_def ping_event_def)

lemma ping_authorized: "is_authorized demo_server who m"
  by (simp add: is_authorized_def demo_server_def)

lemma ping_answered:
  assumes "sv_event_loop s"
    "lru_peek list_lru (sv_sessions (ensure_session list_caches demo_server now
       (open_envelope False (ping_event who)) s)) who \<noteq> None"
  shows "\<exists>ctx session. inbound_event ping_ext list_caches demo_nostr demo_server now (ping_event who) s =
    handle_message ping_ext list_caches demo_nostr demo_server now (ping_event who)
      (open_envelope False (ping_event who)) ctx (Request ping_request)
      (settle_session list_caches demo_server now (open_envelope False (ping_event who)) session s)"
proof -
  let ?env = "open_envelope False (ping_event who)"
  have env: "en_content ?env = ''ping''" "en_sender ?env = who" "en_tags ?env = []"
    by (simp_all add: open_envelope_def ping_event_def)
  have "lru_peek (lc_sessions list_caches) (sv_sessions (ensure_session list_caches demo_server now ?env s))
      (en_sender ?env) \<noteq> None" "extract_payment_interaction (en_tags ?env) \<noteq> Some ''explicit_gating'' \<or> b" for b
    using assms(2) by (simp_all add: env list_caches_def extract_payment_interaction_def)
  then obtain session ctx where "handle_authorized ping_ext list_caches demo_nostr demo_server now
      (ping_event who) ?env (Request ping_request) s = Returned (handle_message ping_ext list_caches demo_nostr
        demo_server now (ping_event who) ?env ctx (Request ping_request)
        (settle_session list_caches demo_server now ?env session s))"
    by (rule handle_authorized_request)
  then have "inbound_event ping_ext list_caches demo_nostr demo_server now (ping_event who) s =
      handle_message ping_ext list_caches demo_nostr demo_server now (ping_event who) ?env ctx
        (Request ping_request) (settle_session list_caches demo_server now ?env session s)"
    using assms(1) by (simp add: inbound_event_def ping_received env ping_parsed ping_authorized)
  then show ?thesis by blast
qed

lemma ping_first:
  "lru_peek list_lru (sv_sessions (ensure_session list_caches demo_server now
     (open_envelope False (ping_event who)) (server_new list_caches demo_server))) who \<noteq> None"
  by (simp add: ensure_session_def server_new_def list_caches_def list_lru_def demo_server_def with_capacity_def
      non_zero_def open_envelope_def ping_event_def lru_contains_def lru_peek_def list_push_def
      handle_eviction_def)

section \<open>Properties\<close>

text \<open>
  C6. The gate of the server: an event changes the state only if it opens to an event with a valid
  signature under the configured encryption and gift wrap policies, a gift wrap only if it has not been
  seen; every effect belongs to the author and the id of that signed event; and unless its content
  parses to a message its author is authorized to send, nothing but the replay cache changes, except that an
  announced server answers a request with one \<open>Unauthorized\<close> error to its author and may mark that author's
  session, and no other, as having received the common tags.\<close>
theorem inbound_gate:
  assumes "inbound_event X C N cfg now event s = s'" "s' \<noteq> s"
  shows "\<exists>inner. opened C N cfg event (sv_seen s) (sv_seen s') inner \<and>
    extends_by (stems_from (open_envelope (is_gift_wrap event) inner)) s s' \<and>
    ((\<exists>message. validate_and_parse X (ev_content inner) = Some message \<and>
        is_authorized cfg (ev_pubkey inner) message) \<or>
     (case validate_and_parse X (ev_content inner) of
        None \<Rightarrow> s' = s\<lparr>sv_seen := sv_seen s'\<rparr>
      | Some message \<Rightarrow> refused_only C cfg (ev_pubkey inner) message (s\<lparr>sv_seen := sv_seen s'\<rparr>) s'))"
proof -
  have loop: "sv_event_loop s"
    by (rule ccontr) (use assms in \<open>simp add: inbound_event_def\<close>)
  have "receive_event C N cfg event s \<noteq> (s, None)"
    using assms loop by (auto simp: inbound_event_def)
  then obtain inner seen' where o: "opened C N cfg event (sv_seen s) seen' inner"
      "receive_event C N cfg event s = (s\<lparr>sv_seen := seen'\<rparr>, Some (open_envelope (is_gift_wrap event) inner))"
    using receive_event_cases [of C N cfg event s] by metis
  let ?env = "open_envelope (is_gift_wrap event) inner" and ?s1 = "s\<lparr>sv_seen := seen'\<rparr>"
  have env: "en_content ?env = ev_content inner" "en_sender ?env = ev_pubkey inner"
    by (simp_all add: open_envelope_def)
  have same: "extends_by P s s'" if "extends_by P ?s1 s'" for P using that by (simp add: extends_by_def)
  consider (junk) "validate_and_parse X (ev_content inner) = None"
    | (ok) m where "validate_and_parse X (ev_content inner) = Some m" "is_authorized cfg (ev_pubkey inner) m"
    | (refused) m where "validate_and_parse X (ev_content inner) = Some m" "\<not> is_authorized cfg (ev_pubkey inner) m"
    by (cases "validate_and_parse X (ev_content inner)") auto
  then show ?thesis
  proof cases
    case junk
    then have "s' = ?s1" using assms(1) loop o(2) env by (simp add: inbound_event_def)
    with o(1) junk show ?thesis by (intro exI [of _ inner]) (simp add: extends_same)
  next
    case (refused m)
    then have s': "s' = refuse_unauthorized C N cfg event ?env m ?s1"
      using assms(1) loop o(2) env by (simp add: inbound_event_def)
    then have r: "extends_by (\<lambda>x. \<exists>p. x = Refused p \<and> pb_recipient p = ev_pubkey inner) s s'"
      using same refuse_unauthorized_out [of ?env ?s1 C N cfg event m] env by simp
    then have "extends_by (stems_from ?env) s s'" using env by (fastforce simp: extends_by_def)
    moreover have "refused_only C cfg (ev_pubkey inner) m (s\<lparr>sv_seen := sv_seen s'\<rparr>) s'"
      using refuse_unauthorized_only [of C cfg ?env m ?s1 N event] env by (simp add: s' server_frame)
    ultimately show ?thesis using o(1) s' refused(1) by (auto simp: server_frame)
  next
    case (ok m)
    have "sv_seen s' = seen' \<and> extends_by (stems_from ?env) ?s1 s'"
    proof (cases "handle_authorized X C N cfg now event ?env m ?s1")
      case (Returned s2)
      then have "s' = s2" using assms(1) loop o(2) env ok by (simp add: inbound_event_def)
      with handle_authorized_out [OF Returned] handle_authorized_seen [OF Returned] show ?thesis by simp
    next
      case Panicked
      then have "s' = (ensure_session C cfg now ?env ?s1)\<lparr>sv_event_loop := False\<rparr>"
        using assms(1) loop o(2) env ok by (simp add: inbound_event_def)
      with ensure_session_out [of ?env ?s1 C cfg now] show ?thesis by (simp add: extends_by_def server_frame)
    qed
    with o(1) ok same show ?thesis by auto
  qed
qed

theorem inbound_gate_witness:
  "\<exists>inner. opened list_caches demo_nostr demo_server (ping_event ''a'') (5000, []) (5000, []) inner \<and>
    extends_by (stems_from (open_envelope False inner)) (server_new list_caches demo_server)
      (inbound_event ping_ext list_caches demo_nostr demo_server 5 (ping_event ''a'')
        (server_new list_caches demo_server))"
proof -
  let ?s = "server_new list_caches demo_server"
  let ?s' = "inbound_event ping_ext list_caches demo_nostr demo_server 5 (ping_event ''a'') ?s"
  have "sv_event_loop ?s" by (simp add: server_new_def)
  then obtain ctx session where s': "?s' = handle_message ping_ext list_caches demo_nostr demo_server 5
      (ping_event ''a'') (open_envelope False (ping_event ''a'')) ctx (Request ping_request)
      (settle_session list_caches demo_server 5 (open_envelope False (ping_event ''a'')) session ?s)"
    using ping_answered [OF _ ping_first] by blast
  have seen: "sv_seen ?s = (5000, [])"
    by (simp add: server_new_def list_caches_def list_lru_def DEFAULT_LRU_SIZE_def)
  then have seen': "sv_seen ?s' = (5000, [])" unfolding s' by (simp add: server_frame)
  have "sv_out ?s' \<noteq> sv_out ?s"
    unfolding s' by (simp add: handle_message_def server_frame Let_def server_new_def)
  then have "?s' \<noteq> ?s" by (rule contrapos_nn) simp
  from inbound_gate [OF refl this] show ?thesis unfolding seen seen' using ping_plain [of "''a''"] by auto
qed

text \<open>
  C14. An authorized request reaches the worker: unless the loop dies or the negotiation refuses it, it is
  admitted with the author and the id of the signed event, its route answers to that author with the id and
  the progress token of the request, and the author's session lists it as pending.\<close>
theorem request_admitted:
  assumes "session_lru (lc_sessions C) valid" "route_lru (lc_routes C) valid'" "valid (sv_sessions s)"
    "valid' (rs_routes (sv_routes s))" "sv_event_loop s"
    "receive_event C N cfg event s = (s1, Some env)" "validate_and_parse X (en_content env) = Some (Request req)"
    "is_authorized cfg (en_sender env) (Request req)"
    "extract_payment_interaction (en_tags env) \<noteq> Some ''explicit_gating'' \<or> sc_supports_explicit_gating cfg"
    "inbound_event X C N cfg now event s = s'" "sv_event_loop s'"
  shows "(\<exists>ctx. Admitted (incoming_of env (Request req)) ctx \<in> set (drop (length (sv_out s)) (sv_out s'))) \<and>
    get_route (lc_routes C) (sv_routes s') (en_event_id env) =
      Some (new_route now (en_sender env) (req_id req) (request_progress_token X (Request req))) \<and>
    (\<exists>session. lru_peek (lc_sessions C) (sv_sessions s') (en_sender env) = Some session \<and>
       contains_key (cs_pending_requests session) (en_event_id env))"
proof -
  let ?S = "lc_sessions C" and ?k = "en_sender env" and ?e = "ensure_session C cfg now env s1"
  have s1: "sv_sessions s1 = sv_sessions s" "sv_routes s1 = sv_routes s" "sv_out s1 = sv_out s"
    using receive_event_frame [OF assms(6)] by simp_all
  have lost: "lru_peek ?S (sv_sessions ?e) ?k \<noteq> None"
    using assms(5-8,10,11) handle_authorized_panics [of X C N cfg now event env "Request req" s1]
    by (auto simp: inbound_event_def)
  obtain session ctx where "handle_authorized X C N cfg now event env (Request req) s1 = Returned
      (handle_message X C N cfg now event env ctx (Request req) (settle_session C cfg now env session s1))"
    by (rule handle_authorized_request [OF lost assms(9)])
  then have s': "s' = handle_message X C N cfg now event env ctx (Request req)
      (settle_session C cfg now env session s1)"
    using assms(5-8,10) by (simp add: inbound_event_def)
  obtain new where "sv_out ?e = sv_out s @ new"
    using ensure_session_out [of env s1 C cfg now] s1 by (auto simp: extends_by_def)
  then have "Admitted (incoming_of env (Request req)) ctx \<in> set (drop (length (sv_out s)) (sv_out s'))"
    by (simp add: s' handle_message_request server_frame)
  moreover have "get_route (lc_routes C) (sv_routes s') (en_event_id env) =
      Some (new_route now ?k (req_id req) (request_progress_token X (Request req)))"
    using lru.put_peek_key [OF assms(2) [unfolded route_lru_def] assms(4)]
    by (simp add: s' handle_message_request server_frame s1 get_route_def register_route_routes)
  moreover have "lru_peek ?S (sv_sessions s') ?k = Some (track_request X env (Request req) session)"
  proof -
    have "valid (sv_sessions ?e)" using ensure_session_valid [OF assms(1)] assms(3) s1 by simp
    then show ?thesis
      using lost assms(1) [unfolded session_lru_def]
      by (auto simp: s' handle_message_request settle_session_def Let_def lru.modify_peek lru.modify_valid)
  qed
  ultimately show ?thesis using track_request_pending by blast
qed

theorem request_admitted_witness:
  "let s' = inbound_event ping_ext list_caches demo_nostr demo_server 5 (ping_event ''a'')
         (server_new list_caches demo_server) in
   get_route list_lru (sv_routes s') ''a'' = Some (new_route 5 ''a'' (JString ''1'') None)"
proof -
  let ?s = "server_new list_caches demo_server" and ?env = "open_envelope False (ping_event ''a'')"
  let ?s' = "inbound_event ping_ext list_caches demo_nostr demo_server 5 (ping_event ''a'') ?s"
  have ops: "session_lru (lc_sessions list_caches) list_lru_valid" "route_lru (lc_routes list_caches) list_lru_valid"
    using session_list.session_lru_axioms route_list.route_lru_axioms by (simp_all add: list_caches_def)
  have new: "list_lru_valid (sv_sessions ?s)" "list_lru_valid (rs_routes (sv_routes ?s))" "sv_event_loop ?s"
    by (simp_all add: server_new_def with_capacity_def with_max_routes_def list_caches_def non_zero_def
        DEFAULT_LRU_SIZE_def list_lru.new_valid)
  have env: "en_content ?env = ''ping''" "en_sender ?env = ''a''" "en_event_id ?env = ''a''" "en_tags ?env = []"
    by (simp_all add: open_envelope_def ping_event_def)
  have loop: "sv_event_loop ?s'"
    using ping_answered [OF new(3) ping_first [of 5 "''a''"]] new(3) by (auto simp: server_frame)
  have "request_progress_token ping_ext (Request ping_request) = None"
    by (simp add: request_progress_token_def request_param_def ping_request_def)
  then show ?thesis
    using request_admitted [OF ops new ping_received _ ping_authorized _ refl loop, of "ping_request"]
    by (simp add: env ping_parsed extract_payment_interaction_def list_caches_def Let_def ping_request_def)
qed


definition busy_server :: "(client_session lru_list, route_entry lru_list, unit lru_list,
    payment_route_snapshot lru_list, receiver lru_list) server" where
  "busy_server = (server_new list_caches demo_server)\<lparr>
     sv_sessions := (1, [(''a'', client_session_new 0 False)]), sv_routes := busy_routes\<rparr>"


end
