(* ===== verification/Server_Response.thy ===== *)
theory Server_Response
  imports Server_Inbound
begin

text \<open>
  What the server sends (\<open>src/transport/server/mod.rs\<close>): responses with their deferral while a stream is
  open and their delivery from a snapshot when the route is gone, targeted responses, notifications,
  and the periodic cleanup. An operation is cut where it waits for the relay: what it does before is
  one step and leaves a task, and \<open>publish_result\<close> is what it does with the outcome. Acquiring a lock
  is not a scheduling point of the model, and a broadcast is one step.
\<close>

section \<open>Responses\<close>

fun restore_id :: "json \<Rightarrow> json_rpc_message \<Rightarrow> json_rpc_message" where
  "restore_id i (Response r) = Response (r\<lparr>rsp_id := i\<rparr>)"
| "restore_id i (ErrorResponse r) = ErrorResponse (r\<lparr>ers_id := i\<rparr>)"
| "restore_id i message = message"

datatype response_error = No_Route | No_Session | Bad_Pubkey | Bad_Event_Id

datatype response_outcome =
    Response_Stashed
  | Response_Sending
  | Response_Failed response_error

datatype open_stream_deferral =
    Deferred
  | Send_Now route_snapshot
  | Passthrough

definition try_defer_open_stream_response ::
  "string \<Rightarrow> json_rpc_message \<Rightarrow> ('s, 'r, 'g, 'p, 'o) server \<Rightarrow>
   ('s, 'r, 'g, 'p, 'o) server \<times> open_stream_deferral" where
  "try_defer_open_stream_response event_id response s =
     (case map_of (sv_slots s) event_id of
        None \<Rightarrow> (s, Passthrough)
      | Some slot \<Rightarrow>
          let removed = drop_token slot (s\<lparr>sv_slots := AList.delete event_id (sv_slots s)\<rparr>) in
          if \<not> sl_has_started slot then (removed, Passthrough)
          else if sl_terminated slot then (removed, Send_Now (sl_snapshot slot))
          else (s\<lparr>sv_slots := AList.update event_id (slot\<lparr>sl_pending_response := Some response\<rparr>) (sv_slots s)\<rparr>,
                Deferred))"

text \<open>
  The tags of a response for a client: both notices are taken from its session, if there still is
  one.
\<close>

definition session_answer ::
  "('s, 'r, 'g, 'p, 'o) caches \<Rightarrow> server_config \<Rightarrow> string \<Rightarrow> string \<Rightarrow> json_rpc_message \<Rightarrow>
   ('s, 'r, 'g, 'p, 'o) server \<Rightarrow> ('s, 'r, 'g, 'p, 'o) server \<times> tag list" where
  "session_answer C cfg client_pubkey event_id response s =
     (case lru_peek (lc_sessions C) (sv_sessions s) client_pubkey of
        Some session \<Rightarrow>
          let (session', tags) = answer_tags (sc_common_tags cfg) (sc_pricing_tags cfg) client_pubkey event_id
                response session in
          (s\<lparr>sv_sessions := lru_modify (lc_sessions C) (sv_sessions s) client_pubkey (\<lambda>_. session')\<rparr>, tags)
      | None \<Rightarrow>
          (s, compose_response_tags (create_response_tags client_pubkey event_id) [] None
                (sc_pricing_tags cfg) response))"

definition send_deferred ::
  "('s, 'r, 'g, 'p, 'o) caches \<Rightarrow> nostr \<Rightarrow> server_config \<Rightarrow> string \<Rightarrow> route_snapshot \<Rightarrow> json_rpc_message \<Rightarrow>
   payment_route_snapshot option \<Rightarrow> ('s, 'r, 'g, 'p, 'o) server \<Rightarrow>
   ('s, 'r, 'g, 'p, 'o) server \<times> response_outcome" where
  "send_deferred C N cfg event_id snapshot response0 payment s =
     (let response = restore_id (rsn_original_request_id snapshot) response0 in
      if \<not> nx_event_id_ok N event_id
      then ((case payment of
               Some entry \<Rightarrow> reinsert_payment_route_snapshot C event_id entry s | None \<Rightarrow> s),
            Response_Failed Bad_Event_Id)
      else
        let (s1, tags) = session_answer C cfg (rsn_client_pubkey snapshot) event_id response s in
        (spawn_server (Sending_Deferred event_id payment)
           (emit (Answered event_id (send_mcp_message cfg response (rsn_client_pubkey snapshot) tags
              (rsn_is_encrypted snapshot)
              (select_outbound_gift_wrap_kind (sc_gift_wrap_mode cfg) (rsn_is_encrypted snapshot)
                 (rsn_mirrored_wrap_kind snapshot)))) s1),
         Response_Sending))"

text \<open>
  Whether the response goes out in frames. \<open>measured\<close> is the size of the single event, or \<open>None\<close> when
  it could not be built.
\<close>

definition needs_fragments ::
  "ext \<Rightarrow> server_config \<Rightarrow> client_session \<Rightarrow> string option \<Rightarrow> json_rpc_message \<Rightarrow> nat option \<Rightarrow> bool" where
  "needs_fragments X cfg session progress_token response measured \<longleftrightarrow>
     sc_oversized_enabled cfg \<and> progress_token \<noteq> None \<and> cs_supports_oversized_transfer session \<and>
     (sc_oversized_threshold cfg \<le> length (json_to_string X (message_to_value response)) \<or>
      (case measured of Some len \<Rightarrow> sc_oversized_threshold cfg < len | None \<Rightarrow> True))"

definition send_routed ::
  "ext \<Rightarrow> ('s, 'r, 'g, 'p, 'o) caches \<Rightarrow> nostr \<Rightarrow> server_config \<Rightarrow> string \<Rightarrow> route_entry \<Rightarrow>
   json_rpc_message \<Rightarrow> nat option \<Rightarrow> ('s, 'r, 'g, 'p, 'o) server \<Rightarrow>
   ('s, 'r, 'g, 'p, 'o) server \<times> response_outcome" where
  "send_routed X C N cfg event_id route response0 measured s =
     (let client = rt_client_pubkey route in
      case lru_peek (lc_sessions C) (sv_sessions s) client of
        None \<Rightarrow> (s, Response_Failed No_Session)
      | Some session \<Rightarrow>
          let response = restore_id (rt_original_request_id route) response0;
              (s1, tags) = session_answer C cfg client event_id response s;
              mirrored_wrap_kind = (case map_of (sv_wrap_kinds s) event_id of
                                      Some kind \<Rightarrow> kind | None \<Rightarrow> None);
              gift_wrap_kind = select_outbound_gift_wrap_kind (sc_gift_wrap_mode cfg)
                (cs_is_encrypted session) mirrored_wrap_kind in
          if \<not> nx_pubkey_ok N client then (s1, Response_Failed Bad_Pubkey)
          else if \<not> nx_event_id_ok N event_id then (s1, Response_Failed Bad_Event_Id)
          else
            (spawn_server (Sending_Response event_id route)
               (if needs_fragments X cfg session (rt_progress_token route) response measured
                then emit (Answered_In_Frames event_id client response
                       (case rt_progress_token route of Some t \<Rightarrow> t | None \<Rightarrow> '''') tags
                       (create_response_tags client event_id)
                       (pb_wrap (send_mcp_message cfg response client tags (cs_is_encrypted session)
                          gift_wrap_kind))) s1
                else emit (Answered event_id (send_mcp_message cfg response client tags
                       (cs_is_encrypted session) gift_wrap_kind)) s1),
             Response_Sending))"

definition send_response ::
  "ext \<Rightarrow> ('s, 'r, 'g, 'p, 'o) caches \<Rightarrow> nostr \<Rightarrow> server_config \<Rightarrow> string \<Rightarrow> json_rpc_message \<Rightarrow>
   nat option \<Rightarrow> ('s, 'r, 'g, 'p, 'o) server \<Rightarrow> ('s, 'r, 'g, 'p, 'o) server \<times> response_outcome" where
  "send_response X C N cfg event_id response measured s =
     (let (s1, payment_snapshot) = take_payment_route_snapshot C event_id s;
          (s2, deferral) = (if sc_open_stream_enabled cfg
                            then try_defer_open_stream_response event_id response s1
                            else (s1, Passthrough)) in
      case deferral of
        Deferred \<Rightarrow> (s2, Response_Stashed)
      | Send_Now snapshot \<Rightarrow> send_deferred C N cfg event_id snapshot response None s2
      | Passthrough \<Rightarrow>
          let (routes, popped) = pop_route (lc_routes C) (sv_routes s2) event_id;
              s3 = s2\<lparr>sv_routes := routes\<rparr> in
          (case popped of
             Some route \<Rightarrow> send_routed X C N cfg event_id route response measured s3
           | None \<Rightarrow>
               (case payment_snapshot of
                  Some entry \<Rightarrow>
                    send_deferred C N cfg event_id (prs_snapshot entry) response (Some entry) s3
                | None \<Rightarrow> (s3, Response_Failed No_Route))))"

definition forget_request :: "string \<Rightarrow> string option \<Rightarrow> client_session \<Rightarrow> client_session" where
  "forget_request event_id progress_token session =
     (let s1 = (case progress_token of
                  Some token \<Rightarrow> session\<lparr>cs_pending_requests := AList.delete token (cs_pending_requests session)\<rparr>
                | None \<Rightarrow> session) in
      s1\<lparr>cs_event_to_progress_token := AList.delete event_id (cs_event_to_progress_token s1),
         cs_pending_requests := AList.delete event_id (cs_pending_requests s1)\<rparr>)"

definition response_published ::
  "('s, 'r, 'g, 'p, 'o) caches \<Rightarrow> instant \<Rightarrow> string \<Rightarrow> route_entry \<Rightarrow> bool \<Rightarrow> ('s, 'r, 'g, 'p, 'o) server \<Rightarrow>
   ('s, 'r, 'g, 'p, 'o) server" where
  "response_published C now event_id route ok s =
     (if ok
      then s\<lparr>sv_wrap_kinds := AList.delete event_id (sv_wrap_kinds s),
             sv_sessions := lru_modify (lc_sessions C) (sv_sessions s) (rt_client_pubkey route)
               (forget_request event_id (rt_progress_token route))\<rparr>
      else s\<lparr>sv_routes := register_route (lc_routes C) (sv_routes s) now event_id (rt_client_pubkey route)
               (rt_original_request_id route) (rt_progress_token route)\<rparr>)"

definition deferred_published ::
  "('s, 'r, 'g, 'p, 'o) caches \<Rightarrow> string \<Rightarrow> payment_route_snapshot option \<Rightarrow> bool \<Rightarrow>
   ('s, 'r, 'g, 'p, 'o) server \<Rightarrow> ('s, 'r, 'g, 'p, 'o) server" where
  "deferred_published C event_id payment ok s =
     (case payment of
        Some entry \<Rightarrow> if ok then s else reinsert_payment_route_snapshot C event_id entry s
      | None \<Rightarrow> s)"

text \<open>The hook that a writer runs when its stream is closed or aborted.\<close>

definition flush_open_stream_response ::
  "('s, 'r, 'g, 'p, 'o) caches \<Rightarrow> nostr \<Rightarrow> server_config \<Rightarrow> string \<Rightarrow> ('s, 'r, 'g, 'p, 'o) server \<Rightarrow>
   ('s, 'r, 'g, 'p, 'o) server" where
  "flush_open_stream_response C N cfg event_id s =
     (case map_of (sv_slots s) event_id of
        None \<Rightarrow> s
      | Some slot \<Rightarrow>
          (case sl_pending_response slot of
             None \<Rightarrow> s\<lparr>sv_slots := AList.update event_id (slot\<lparr>sl_terminated := True\<rparr>) (sv_slots s)\<rparr>
           | Some response \<Rightarrow>
               fst (send_deferred C N cfg event_id (sl_snapshot slot) response None
                 (drop_token slot (s\<lparr>sv_slots := AList.delete event_id (sv_slots s)\<rparr>)))))"

section \<open>Targeted responses and notifications\<close>

definition wrap_kind_of :: "string \<Rightarrow> ('s, 'r, 'g, 'p, 'o) server \<Rightarrow> u16 option" where
  "wrap_kind_of event_id s = (case map_of (sv_wrap_kinds s) event_id of Some kind \<Rightarrow> kind | None \<Rightarrow> None)"

definition publish_targeted_response ::
  "('s, 'r, 'g, 'p, 'o) caches \<Rightarrow> nostr \<Rightarrow> server_config \<Rightarrow> string \<Rightarrow> string \<Rightarrow> u16 option \<Rightarrow>
   json_rpc_message \<Rightarrow> ('s, 'r, 'g, 'p, 'o) server \<Rightarrow>
   ('s, 'r, 'g, 'p, 'o) server \<times> (response_error, unit) result" where
  "publish_targeted_response C N cfg client_pubkey_hex event_id mirrored_wrap_kind response s =
     (if \<not> nx_pubkey_ok N client_pubkey_hex then (s, Err Bad_Pubkey)
      else if \<not> nx_event_id_ok N event_id then (s, Err Bad_Event_Id)
      else
        (case lru_peek (lc_sessions C) (sv_sessions s) client_pubkey_hex of
           None \<Rightarrow> (s, Ok ())
         | Some session \<Rightarrow>
             let (s1, tags) = session_answer C cfg client_pubkey_hex event_id response s in
             (emit (Targeted event_id (send_mcp_message cfg response client_pubkey_hex tags
                (cs_is_encrypted session)
                (select_outbound_gift_wrap_kind (sc_gift_wrap_mode cfg) (cs_is_encrypted session)
                   mirrored_wrap_kind))) s1, Ok ())))"

definition send_targeted_response ::
  "('s, 'r, 'g, 'p, 'o) caches \<Rightarrow> nostr \<Rightarrow> server_config \<Rightarrow> string \<Rightarrow> string \<Rightarrow> json_rpc_message \<Rightarrow>
   ('s, 'r, 'g, 'p, 'o) server \<Rightarrow> ('s, 'r, 'g, 'p, 'o) server \<times> (response_error, unit) result" where
  "send_targeted_response C N cfg client_pubkey_hex event_id response s =
     publish_targeted_response C N cfg client_pubkey_hex event_id (wrap_kind_of event_id s) response s"

definition publish_notification ::
  "('s, 'r, 'g, 'p, 'o) caches \<Rightarrow> nostr \<Rightarrow> server_config \<Rightarrow> u16 option \<Rightarrow> string \<Rightarrow> string option \<Rightarrow>
   json_rpc_message \<Rightarrow> ('s, 'r, 'g, 'p, 'o) server \<Rightarrow>
   ('s, 'r, 'g, 'p, 'o) server \<times> (response_error, unit) result" where
  "publish_notification C N cfg correlated_wrap_kind client_pubkey_hex correlated_event_id notification s =
     (case lru_peek (lc_sessions C) (sv_sessions s) client_pubkey_hex of
        None \<Rightarrow> (s, Err No_Session)
      | Some session \<Rightarrow>
          let (session', discovery) = take_pending_server_discovery_tags (sc_common_tags cfg) session;
              s1 = s\<lparr>sv_sessions := lru_modify (lc_sessions C) (sv_sessions s) client_pubkey_hex (\<lambda>_. session')\<rparr> in
          if \<not> nx_pubkey_ok N client_pubkey_hex then (s1, Err Bad_Pubkey)
          else
            (case correlated_event_id of
               Some eid \<Rightarrow>
                 if \<not> nx_event_id_ok N eid then (s1, Err Bad_Event_Id)
                 else (emit (Notified (send_mcp_message cfg notification client_pubkey_hex
                        (compose_outbound_tags (create_response_tags client_pubkey_hex eid) discovery [])
                        (cs_is_encrypted session)
                        (select_outbound_notification_gift_wrap_kind (sc_gift_wrap_mode cfg)
                           (cs_is_encrypted session) correlated_wrap_kind
                           (cs_supports_ephemeral_gift_wrap session)))) s1, Ok ())
             | None \<Rightarrow>
                 (emit (Notified (send_mcp_message cfg notification client_pubkey_hex
                        (compose_outbound_tags (create_recipient_tags client_pubkey_hex) discovery [])
                        (cs_is_encrypted session)
                        (select_outbound_notification_gift_wrap_kind (sc_gift_wrap_mode cfg)
                           (cs_is_encrypted session) correlated_wrap_kind
                           (cs_supports_ephemeral_gift_wrap session)))) s1, Ok ())))"

definition send_notification ::
  "('s, 'r, 'g, 'p, 'o) caches \<Rightarrow> nostr \<Rightarrow> server_config \<Rightarrow> string \<Rightarrow> json_rpc_message \<Rightarrow> string option \<Rightarrow>
   ('s, 'r, 'g, 'p, 'o) server \<Rightarrow> ('s, 'r, 'g, 'p, 'o) server \<times> (response_error, unit) result" where
  "send_notification C N cfg client_pubkey_hex notification correlated_event_id s =
     publish_notification C N cfg (Option.bind correlated_event_id (\<lambda>eid. wrap_kind_of eid s))
       client_pubkey_hex correlated_event_id notification s"

definition broadcast_notification ::
  "('s, 'r, 'g, 'p, 'o) caches \<Rightarrow> nostr \<Rightarrow> server_config \<Rightarrow> json_rpc_message \<Rightarrow>
   ('s, 'r, 'g, 'p, 'o) server \<Rightarrow> ('s, 'r, 'g, 'p, 'o) server" where
  "broadcast_notification C N cfg notification s =
     fold (\<lambda>pubkey s. fst (send_notification C N cfg pubkey notification None s))
       (map fst (filter (\<lambda>(k, session). cs_is_initialized session)
          (lru_iter (lc_sessions C) (sv_sessions s)))) s"

text \<open>The sender that the payment middlewares are given.\<close>

definition payment_notification_sender ::
  "('s, 'r, 'g, 'p, 'o) caches \<Rightarrow> nostr \<Rightarrow> server_config \<Rightarrow> instant \<Rightarrow> duration \<Rightarrow> string \<Rightarrow> string \<Rightarrow>
   u16 option \<Rightarrow> json_rpc_message \<Rightarrow> ('s, 'r, 'g, 'p, 'o) server \<Rightarrow>
   ('s, 'r, 'g, 'p, 'o) server \<times> (response_error, unit) result" where
  "payment_notification_sender C N cfg now snapshot_ttl client_pubkey_hex event_id mirrored_wrap_kind
     notification s =
     (let s1 =
        (if message_method notification = Some PAYMENT_REQUIRED_METHOD then
           (case (get_route (lc_routes C) (sv_routes s) event_id,
                  get_session (lc_sessions C) (sv_sessions s) client_pubkey_hex) of
              (Some route, Some session) \<Rightarrow>
                if nx_pubkey_ok N client_pubkey_hex
                then record_payment_route_snapshot C now event_id
                       \<lparr>rsn_client_pubkey = client_pubkey_hex,
                        rsn_original_request_id = rt_original_request_id route,
                        rsn_is_encrypted = sn_is_encrypted session,
                        rsn_mirrored_wrap_kind = mirrored_wrap_kind\<rparr> (now + snapshot_ttl) s
                else s
            | _ \<Rightarrow> s)
         else s) in
      publish_notification C N cfg mirrored_wrap_kind client_pubkey_hex (Some event_id) notification s1)"

section \<open>Cleanup\<close>

definition cleanup_tick ::
  "('s, 'r, 'g, 'p, 'o) caches \<Rightarrow> server_config \<Rightarrow> instant \<Rightarrow> ('s, 'r, 'g, 'p, 'o) server \<Rightarrow>
   ('s, 'r, 'g, 'p, 'o) server" where
  "cleanup_tick C cfg now s =
     (let (sessions, routes, kinds, cleaned) = cleanup_sessions (lc_sessions C) (lc_routes C) now
            (sc_session_timeout cfg) (sv_sessions s) (sv_routes s) (sv_wrap_kinds s);
          (routes', swept) = sweep_stale_routes (lc_routes C) routes now (sc_request_timeout cfg) in
      purge_payment_snapshots C now
        (s\<lparr>sv_sessions := sessions, sv_routes := routes', sv_wrap_kinds := fold AList.delete swept kinds\<rparr>))"

text \<open>The sweep gave up on the client of a silent stream.\<close>

definition release_silent_client ::
  "('s, 'r, 'g, 'p, 'o) caches \<Rightarrow> server_config \<Rightarrow> string \<Rightarrow> ('s, 'r, 'g, 'p, 'o) server \<Rightarrow>
   ('s, 'r, 'g, 'p, 'o) server" where
  "release_silent_client C cfg client_pubkey s =
     (let (sessions, existed) = remove_session (lc_sessions C) (sv_sessions s) client_pubkey in
      s\<lparr>sv_sessions := sessions,
        sv_out := sv_out s @ (if existed \<and> sc_on_evicted cfg then [Session_Evicted client_pubkey] else [])\<rparr>)"

text \<open>\<open>close\<close> stops the loops first; when the disconnection fails it returns before it clears anything.\<close>

definition close_server ::
  "('s, 'r, 'g, 'p, 'o) caches \<Rightarrow> bool \<Rightarrow> ('s, 'r, 'g, 'p, 'o) server \<Rightarrow> ('s, 'r, 'g, 'p, 'o) server" where
  "close_server C disconnected s =
     (if \<not> disconnected then s\<lparr>sv_event_loop := False\<rparr> else
     s\<lparr>sv_event_loop := False, sv_sessions := clear_sessions (lc_sessions C) (sv_sessions s),
       sv_routes := clear_routes (lc_routes C) (sv_routes s),
       sv_oversized := lru_clear (lc_oversized C) (sv_oversized s), sv_slots := [], sv_token_to_event := [],
       sv_snapshots := lru_clear (lc_snapshots C) (sv_snapshots s)\<rparr>)"

section \<open>The transport\<close>

datatype server_event =
    Inbound instant nostr_event
  | Chain_Forwards nat json_rpc_message bool
  | Chain_Ends nat
  | Send_Response string json_rpc_message "nat option"
  | Publish_Result instant nat bool
  | Writer_Starts string
  | Stream_Ends string
  | Targeted_Response string string json_rpc_message
  | Send_Notification string json_rpc_message "string option"
  | Payment_Notification instant duration string string "u16 option" json_rpc_message
  | Broadcast json_rpc_message
  | Cleanup instant
  | Oversized_Sweep instant
  | Client_Silent string
  | Close_Server bool

fun server_step ::
  "ext \<Rightarrow> ('s, 'r, 'g, 'p, 'o) caches \<Rightarrow> nostr \<Rightarrow> server_config \<Rightarrow> ('s, 'r, 'g, 'p, 'o) server \<Rightarrow>
   server_event \<Rightarrow> ('s, 'r, 'g, 'p, 'o) server" where
  "server_step X C N cfg s (Inbound now event) = inbound_event X C N cfg now event s"
| "server_step X C N cfg s (Chain_Forwards n message sent_ok) =
     (case map_of (sv_tasks s) n of Some (Chain run) \<Rightarrow> chain_forward n run message sent_ok s | _ \<Rightarrow> s)"
| "server_step X C N cfg s (Chain_Ends n) =
     (case map_of (sv_tasks s) n of Some (Chain run) \<Rightarrow> chain_end C n run s | _ \<Rightarrow> s)"
| "server_step X C N cfg s (Send_Response event_id response measured) =
     fst (send_response X C N cfg event_id response measured s)"
| "server_step X C N cfg s (Publish_Result now n ok) =
     (let s1 = s\<lparr>sv_tasks := AList.delete n (sv_tasks s)\<rparr> in
      case map_of (sv_tasks s) n of
        Some (Sending_Response event_id route) \<Rightarrow> response_published C now event_id route ok s1
      | Some (Sending_Deferred event_id payment) \<Rightarrow> deferred_published C event_id payment ok s1
      | _ \<Rightarrow> s)"
| "server_step X C N cfg s (Writer_Starts event_id) =
     update_slot event_id (\<lambda>slot. slot\<lparr>sl_has_started := True\<rparr>) s"
| "server_step X C N cfg s (Stream_Ends event_id) = flush_open_stream_response C N cfg event_id s"
| "server_step X C N cfg s (Targeted_Response client event_id response) =
     fst (send_targeted_response C N cfg client event_id response s)"
| "server_step X C N cfg s (Send_Notification client notification event_id) =
     fst (send_notification C N cfg client notification event_id s)"
| "server_step X C N cfg s (Payment_Notification now ttl client event_id kind notification) =
     fst (payment_notification_sender C N cfg now ttl client event_id kind notification s)"
| "server_step X C N cfg s (Broadcast notification) = broadcast_notification C N cfg notification s"
| "server_step X C N cfg s (Cleanup now) = cleanup_tick C cfg now s"
| "server_step X C N cfg s (Oversized_Sweep now) = sweep_oversized_receivers C now s"
| "server_step X C N cfg s (Client_Silent client) = release_silent_client C cfg client s"
| "server_step X C N cfg s (Close_Server disconnected) = close_server C disconnected s"

definition server_run ::
  "ext \<Rightarrow> ('s, 'r, 'g, 'p, 'o) caches \<Rightarrow> nostr \<Rightarrow> server_config \<Rightarrow> server_event list \<Rightarrow>
   ('s, 'r, 'g, 'p, 'o) server" where
  "server_run X C N cfg evs = foldl (server_step X C N cfg) (server_new C cfg) evs"

end
