(* ===== verification/Server_Correlation.thy ===== *)
theory Server_Correlation
  imports Server_Response
begin

text \<open>
  Properties of the running server: every history of inbound events, middleware chains, responses,
  notifications and sweeps answers only requests that were admitted, to the client that signed them and
  under the id they carried. This theory has the invariant and its preservation by every step.
\<close>

section \<open>The caches of a server\<close>

locale server_caches =
  ses: session_lru "lc_sessions C" vs + rts: route_lru "lc_routes C" vr + seen: lru "lc_seen C" vg +
  snaps: lru "lc_snapshots C" vp + ovs: lru "lc_oversized C" vo
  for C :: "('s, 'r, 'g, 'p, 'o) caches" and vs vr vg vp vo

interpretation server_list: server_caches list_caches list_lru_valid list_lru_valid list_lru_valid
    list_lru_valid list_lru_valid
  by (simp add: server_caches_def list_caches_def session_list.session_lru_axioms
      route_list.route_lru_axioms list_lru.lru_axioms)

section \<open>What an inbound event leaves alone\<close>

text \<open>Effects that neither admit nor answer a request.\<close>

fun quiet :: "server_effect \<Rightarrow> bool" where
  "quiet (Admitted r ctx) \<longleftrightarrow> False"
| "quiet (Answered e p) \<longleftrightarrow> False"
| "quiet (Answered_In_Frames e c m t a b k) \<longleftrightarrow> False"
| "quiet _ \<longleftrightarrow> True"

definition touches :: "('s, 'r, 'g, 'p, 'o) server \<Rightarrow> ('s, 'r, 'g, 'p, 'o) server \<Rightarrow> bool" where
  "touches s s' \<longleftrightarrow> sv_routes s' = sv_routes s \<and> sv_wrap_kinds s' = sv_wrap_kinds s \<and>
     sv_slots s' = sv_slots s \<and> sv_token_to_event s' = sv_token_to_event s \<and>
     sv_snapshots s' = sv_snapshots s \<and> sv_tasks s' = sv_tasks s \<and> sv_next s' = sv_next s \<and>
     extends_by quiet s s'"

lemma touches_refl: "touches s s"
  by (simp add: touches_def extends_same)

lemma touches_trans: "touches s s' \<Longrightarrow> touches s' s'' \<Longrightarrow> touches s s''"
  by (auto simp: touches_def intro: extends_trans)

lemma touches_sessions: "touches s (s\<lparr>sv_sessions := c\<rparr>)" "touches s (s\<lparr>sv_seen := g\<rparr>)"
  "touches s (s\<lparr>sv_oversized := v\<rparr>)" "touches s (s\<lparr>sv_event_loop := b\<rparr>)"
  by (simp_all add: touches_def extends_same)

lemma touches_emit: "quiet x \<Longrightarrow> touches s (emit x s)"
  by (simp add: touches_def server_frame extends_by_def)

lemma ensure_session_touches: "touches s (ensure_session C cfg now env s)"
  by (auto simp: touches_def ensure_session_def Let_def extends_by_def split: prod.split)

lemma settle_session_touches: "touches s (settle_session C cfg now env session s)"
  unfolding settle_session_def Let_def
  by (rule touches_trans [OF ensure_session_touches touches_sessions(1)])

lemma refuse_unauthorized_touches: "touches s (refuse_unauthorized C N cfg event env m s)"
  by (auto simp: refuse_unauthorized_def Let_def touches_refl split: json_rpc_message.split
      intro: touches_emit touches_trans [OF touches_sessions(1) touches_emit])

lemma refuse_unsupported_touches: "touches s (refuse_unsupported N cfg event env m r s)"
  by (simp add: refuse_unsupported_def touches_refl touches_emit)

lemma emit_accept_frame_touches: "touches s (emit_accept_frame N cfg event env t s)"
  by (simp add: emit_accept_frame_def touches_refl touches_emit)

lemma feed_oversized_touches: "touches s (fst (feed_oversized X C cfg now k f b t s))"
  by (simp add: feed_oversized_def Let_def touches_sessions split: prod.split)

text \<open>An admission: with the route, and perhaps the stream, of a request, or without.\<close>

definition original_id :: "json_rpc_message \<Rightarrow> json" where
  "original_id m = (case message_id m of Some i \<Rightarrow> i | None \<Rightarrow> JNull)"

definition admits ::
  "('s, 'r, 'g, 'p, 'o) caches \<Rightarrow> nostr \<Rightarrow> server_config \<Rightarrow> instant \<Rightarrow> nostr_event \<Rightarrow> envelope \<Rightarrow>
   ('s, 'r, 'g, 'p, 'o) server \<Rightarrow> ('s, 'r, 'g, 'p, 'o) server \<Rightarrow> bool" where
  "admits C N cfg now event env s s' \<longleftrightarrow>
     (\<exists>m ctx. s' = dispatch_inbound cfg (incoming_of env m) ctx s \<or>
        (\<exists>pt wt. s' = dispatch_inbound cfg (incoming_of env m) ctx
           (reserve_request C N cfg now event env (original_id m) pt wt s)))"

lemma admitsI:
  "s' = dispatch_inbound cfg (incoming_of env m) ctx s \<Longrightarrow> admits C N cfg now event env s s'"
  "s' = dispatch_inbound cfg (incoming_of env m) ctx
     (reserve_request C N cfg now event env (original_id m) pt wt s) \<Longrightarrow> admits C N cfg now event env s s'"
  unfolding admits_def by blast+

lemma handle_message_shape:
  "\<exists>s2. touches s s2 \<and> admits C N cfg now event env s2 (handle_message X C N cfg now event env ctx m s)"
proof -
  let ?r = "handle_message X C N cfg now event env ctx m s"
  let ?upd = "\<lambda>f. s\<lparr>sv_sessions := lru_modify (lc_sessions C) (sv_sessions s) (en_sender env) f\<rparr>"
  have "admits C N cfg now event env (?upd (track_request X env m)) ?r" if "m = Request req" for req
    by (rule admitsI(2) [of _ cfg env m ctx C N now event "request_progress_token X m" "tools_call_token X m"])
      (simp add: handle_message_def Let_def that original_id_def)
  moreover have "admits C N cfg now event env s ?r \<or>
      admits C N cfg now event env (?upd (\<lambda>s. s\<lparr>cs_is_initialized := True\<rparr>)) ?r" if "\<forall>req. m \<noteq> Request req"
    using that admitsI(1) [of ?r cfg env m ctx s C N now event]
      admitsI(1) [of ?r cfg env m ctx "?upd (\<lambda>s. s\<lparr>cs_is_initialized := True\<rparr>)" C N now event]
    by (cases m) (auto simp: handle_message_def mark_initialized_def Let_def)
  ultimately show ?thesis using touches_refl touches_sessions(1) by metis
qed

lemma handle_oversized_frame_shape:
  "\<exists>s2. touches s s2 \<and> (handle_oversized_frame X C N cfg now event env ctx f b s = s2 \<or>
     admits C N cfg now event env s2 (handle_oversized_frame X C N cfg now event env ctx f b s))"
proof -
  define t where "t = frame_token X f"
  define ia where "ia = (is_start_frame f \<and> \<not> b \<and> t \<noteq> None)"
  define s1 where "s1 = (case t of Some t \<Rightarrow> if ia then emit_accept_frame N cfg event env t s else s | None \<Rightarrow> s)"
  obtain s2 r where f: "feed_oversized X C cfg now (en_sender env) f ia t s1 = (s2, r)" by fastforce
  have "touches s s1" by (simp add: s1_def touches_refl emit_accept_frame_touches split: option.split)
  moreover have "touches s1 s2"
    using feed_oversized_touches [of s1 X C cfg now "en_sender env" f ia t] f by simp
  ultimately have "touches s s2" by (rule touches_trans)
  moreover have "handle_oversized_frame X C N cfg now event env ctx f b s =
      (case r of
         Ok (Some m) \<Rightarrow> dispatch_inbound cfg (incoming_of env m) ctx
           (reserve_request C N cfg now event env (original_id m) t (tools_call_token X m) s2)
       | _ \<Rightarrow> s2)"
    unfolding handle_oversized_frame_def Let_def t_def [symmetric] ia_def [symmetric] s1_def [symmetric] f
    by (simp add: original_id_def split: sum.split option.split)
  then have "handle_oversized_frame X C N cfg now event env ctx f b s = s2 \<or>
      admits C N cfg now event env s2 (handle_oversized_frame X C N cfg now event env ctx f b s)"
    by (auto split: sum.splits option.splits intro: admitsI(2) [OF refl])
  ultimately show ?thesis by blast
qed

lemma handle_authorized_shape:
  assumes "handle_authorized X C N cfg now event env m s = Returned s'"
  shows "\<exists>s2. touches s s2 \<and> (s' = s2 \<or> admits C N cfg now event env s2 s')"
  using assms
proof (cases rule: handle_authorized_cases)
  case (refused session requested)
  then show ?thesis
    using touches_trans [OF settle_session_touches refuse_unsupported_touches] by blast
next
  case (plain session ctx)
  then show ?thesis
    using handle_message_shape touches_trans [OF settle_session_touches] by metis
next
  case (oversized session ctx n b)
  then show ?thesis
    using handle_oversized_frame_shape touches_trans [OF settle_session_touches] by metis
next
  case (stream session n b)
  then show ?thesis
    using touches_trans [OF settle_session_touches touches_emit] by (metis quiet.simps)
qed

lemma inbound_event_shape:
  "\<exists>s2. touches s s2 \<and> (inbound_event X C N cfg now event s = s2 \<or>
     (\<exists>inner b. nx_verify N inner \<and>
       admits C N cfg now event (open_envelope b inner) s2 (inbound_event X C N cfg now event s)))"
proof (cases "sv_event_loop s")
  case loop: True
  show ?thesis
  proof (cases rule: receive_event_cases [of C N cfg event s])
    case dropped
    then show ?thesis using loop touches_refl by (auto simp: inbound_event_def)
  next
    case (passed inner seen')
    let ?env = "open_envelope (is_gift_wrap event) inner" and ?s1 = "s\<lparr>sv_seen := seen'\<rparr>"
    have v: "nx_verify N inner" using passed(1) by (simp add: opened_def)
    have t: "touches s ?s1" by (rule touches_sessions(2))
    consider (none) "validate_and_parse X (en_content ?env) = None"
      | (refused) m where "validate_and_parse X (en_content ?env) = Some m" "\<not> is_authorized cfg (en_sender ?env) m"
      | (handled) m s2 where "validate_and_parse X (en_content ?env) = Some m" "is_authorized cfg (en_sender ?env) m"
          "handle_authorized X C N cfg now event ?env m ?s1 = Returned s2"
      | (dead) m where "validate_and_parse X (en_content ?env) = Some m" "is_authorized cfg (en_sender ?env) m"
          "handle_authorized X C N cfg now event ?env m ?s1 = Panicked"
      by (metis call.exhaust option.exhaust)
    then show ?thesis
    proof cases
      case none
      then show ?thesis using loop passed t by (auto simp: inbound_event_def)
    next
      case (refused m)
      then have "inbound_event X C N cfg now event s = refuse_unauthorized C N cfg event ?env m ?s1"
        using loop passed by (simp add: inbound_event_def)
      then show ?thesis using touches_trans [OF t refuse_unauthorized_touches] by metis
    next
      case (handled m s2)
      then have "inbound_event X C N cfg now event s = s2" using loop passed by (simp add: inbound_event_def)
      then show ?thesis using handle_authorized_shape [OF handled(3)] touches_trans [OF t] v by metis
    next
      case (dead m)
      then have "inbound_event X C N cfg now event s =
          (ensure_session C cfg now ?env ?s1)\<lparr>sv_event_loop := False\<rparr>"
        using loop passed by (simp add: inbound_event_def)
      then show ?thesis
        using touches_trans [OF t touches_trans [OF ensure_session_touches touches_sessions(4)]] by metis
    qed
  qed
next
  case False
  then have "inbound_event X C N cfg now event s = s" by (simp add: inbound_event_def)
  then show ?thesis using touches_refl by blast
qed

section \<open>Origins of answers\<close>

text \<open>
  The client and the request id that an answer for an event can carry: those of its route, of its
  stream, of its payment snapshot, or of an answer that is being published.
\<close>

fun task_origin :: "server_task \<Rightarrow> string \<Rightarrow> string \<Rightarrow> json \<Rightarrow> bool" where
  "task_origin (Chain run) e c i \<longleftrightarrow> False"
| "task_origin (Sending_Response e' route) e c i \<longleftrightarrow>
     e' = e \<and> rt_client_pubkey route = c \<and> rt_original_request_id route = i"
| "task_origin (Sending_Deferred e' payment) e c i \<longleftrightarrow>
     e' = e \<and> (\<exists>entry. payment = Some entry \<and> rsn_client_pubkey (prs_snapshot entry) = c \<and>
       rsn_original_request_id (prs_snapshot entry) = i)"

definition snapshot_for :: "route_snapshot \<Rightarrow> string \<Rightarrow> json \<Rightarrow> bool" where
  "snapshot_for snap c i \<longleftrightarrow> rsn_client_pubkey snap = c \<and> rsn_original_request_id snap = i"

definition origin ::
  "('s, 'r, 'g, 'p, 'o) caches \<Rightarrow> ('s, 'r, 'g, 'p, 'o) server \<Rightarrow> string \<Rightarrow> string \<Rightarrow> json \<Rightarrow> bool" where
  "origin C s e c i \<longleftrightarrow>
     (\<exists>r. lru_peek (lc_routes C) (rs_routes (sv_routes s)) e = Some r \<and> rt_client_pubkey r = c \<and>
        rt_original_request_id r = i) \<or>
     (\<exists>slot. map_of (sv_slots s) e = Some slot \<and> snapshot_for (sl_snapshot slot) c i) \<or>
     (\<exists>p. lru_peek (lc_snapshots C) (sv_snapshots s) e = Some p \<and> snapshot_for (prs_snapshot p) c i) \<or>
     (\<exists>t \<in> snd ` set (sv_tasks s). task_origin t e c i)"

lemma originI:
  "lru_peek (lc_routes C) (rs_routes (sv_routes s)) e = Some r \<Longrightarrow>
    origin C s e (rt_client_pubkey r) (rt_original_request_id r)"
  "map_of (sv_slots s) e = Some slot \<Longrightarrow> snapshot_for (sl_snapshot slot) c i \<Longrightarrow> origin C s e c i"
  "lru_peek (lc_snapshots C) (sv_snapshots s) e = Some p \<Longrightarrow> snapshot_for (prs_snapshot p) c i \<Longrightarrow>
    origin C s e c i"
  "(n, t) \<in> set (sv_tasks s) \<Longrightarrow> task_origin t e c i \<Longrightarrow> origin C s e c i"
  unfolding origin_def by force+

text \<open>A step that only moves origins around.\<close>

definition keeps ::
  "('s, 'r, 'g, 'p, 'o) caches \<Rightarrow> ('s, 'r, 'g, 'p, 'o) server \<Rightarrow> ('s, 'r, 'g, 'p, 'o) server \<Rightarrow> bool" where
  "keeps C s s' \<longleftrightarrow> (\<forall>e c i. origin C s' e c i \<longrightarrow> origin C s e c i)"

lemma keepsI:
  assumes "\<And>e r. lru_peek (lc_routes C) (rs_routes (sv_routes s')) e = Some r \<Longrightarrow>
      origin C s e (rt_client_pubkey r) (rt_original_request_id r)"
    and "\<And>e slot c i. map_of (sv_slots s') e = Some slot \<Longrightarrow> snapshot_for (sl_snapshot slot) c i \<Longrightarrow>
      origin C s e c i"
    and "\<And>e p c i. lru_peek (lc_snapshots C) (sv_snapshots s') e = Some p \<Longrightarrow>
      snapshot_for (prs_snapshot p) c i \<Longrightarrow> origin C s e c i"
    and "\<And>n t e c i. (n, t) \<in> set (sv_tasks s') \<Longrightarrow> task_origin t e c i \<Longrightarrow> origin C s e c i"
  shows "keeps C s s'"
  unfolding keeps_def origin_def [of C s'] using assms by fastforce

lemma keeps_trans: "keeps C s s' \<Longrightarrow> keeps C s' s'' \<Longrightarrow> keeps C s s''"
  by (simp add: keeps_def)

lemma keeps_same:
  "sv_routes s' = sv_routes s \<Longrightarrow> sv_slots s' = sv_slots s \<Longrightarrow> sv_snapshots s' = sv_snapshots s \<Longrightarrow>
    sv_tasks s' = sv_tasks s \<Longrightarrow> keeps C s s'"
  by (simp add: keeps_def origin_def)

lemma touches_keeps: "touches s s' \<Longrightarrow> keeps C s s'"
  by (simp add: touches_def keeps_same)

text \<open>Changes of a single part.\<close>

lemma keeps_routes:
  assumes "lru_peek (lc_routes C) (rs_routes r) \<subseteq>\<^sub>m lru_peek (lc_routes C) (rs_routes (sv_routes s))"
  shows "keeps C s (s\<lparr>sv_routes := r\<rparr>)"
proof -
  have "lru_peek (lc_routes C) (rs_routes (sv_routes s)) e = Some x"
    if "lru_peek (lc_routes C) (rs_routes r) e = Some x" for e x
    using assms that by (force simp: map_le_def)
  then show ?thesis unfolding keeps_def origin_def by auto
qed

lemma keeps_slots:
  assumes "\<And>e slot. map_of m e = Some slot \<Longrightarrow>
      \<exists>slot'. map_of (sv_slots s) e = Some slot' \<and> sl_snapshot slot' = sl_snapshot slot"
  shows "keeps C s (s\<lparr>sv_slots := m\<rparr>)"
  unfolding keeps_def origin_def using assms by fastforce

lemma keeps_snapshots:
  assumes "\<And>e p. lru_peek (lc_snapshots C) c' e = Some p \<Longrightarrow>
      \<exists>p'. lru_peek (lc_snapshots C) (sv_snapshots s) e = Some p' \<and> prs_snapshot p' = prs_snapshot p"
  shows "keeps C s (s\<lparr>sv_snapshots := c'\<rparr>)"
  unfolding keeps_def origin_def using assms by fastforce

lemma keeps_tasks:
  assumes "\<And>n t e c i. (n, t) \<in> set ts \<Longrightarrow> task_origin t e c i \<Longrightarrow> origin C s e c i"
  shows "keeps C s (s\<lparr>sv_tasks := ts\<rparr>)"
  using assms by (intro keepsI) (auto intro: originI)

lemma keeps_delete_task: "keeps C s (s\<lparr>sv_tasks := AList.delete n (sv_tasks s)\<rparr>)"
  by (rule keeps_tasks) (auto dest: set_delete_subset [THEN subsetD] intro: originI)

lemma keeps_update_slot: "(\<And>slot. sl_snapshot (f slot) = sl_snapshot slot) \<Longrightarrow> keeps C s (update_slot e f s)"
  by (auto simp: update_slot_def keeps_same update_conv split: option.split if_splits intro!: keeps_slots)

lemma keeps_delete_slot: "keeps C s (s\<lparr>sv_slots := AList.delete e (sv_slots s)\<rparr>)"
  by (rule keeps_slots) (auto simp: delete_conv split: if_splits)

lemma keeps_drop_token: "keeps C s (drop_token slot s)"
  by (rule keeps_same) (simp_all add: server_frame)

lemma keeps_emit: "keeps C s (emit x s)"
  by (rule keeps_same) (simp_all add: server_frame)

lemma keeps_spawn:
  assumes "keeps C s0 s" "\<And>e c i. task_origin t e c i \<Longrightarrow> origin C s0 e c i"
  shows "keeps C s0 (spawn_server t s)"
proof -
  have "origin C (spawn_server t s) e c i \<longleftrightarrow> origin C s e c i \<or> task_origin t e c i" for e c i
    by (auto simp: origin_def server_frame)
  then show ?thesis using assms by (auto simp: keeps_def)
qed

lemma keeps_chain_forward: "keeps C s (chain_forward n run m b s)"
proof -
  let ?ts = "AList.update n (Chain (run\<lparr>cr_forwarded := True, cr_reached := b\<rparr>)) (sv_tasks s)"
  have ts: "keeps C s (s\<lparr>sv_tasks := ?ts\<rparr>)"
  proof (rule keeps_tasks)
    fix k t e c i
    assume "(k, t) \<in> set ?ts" "task_origin t e c i"
    then have "(k, t) \<in> set (sv_tasks s)" by (auto dest: set_update_subset [THEN subsetD])
    then show "origin C s e c i" using \<open>task_origin t e c i\<close> by (rule originI(4))
  qed
  show ?thesis
    unfolding chain_forward_def Let_def mark_forwarded_def
    using keeps_trans [OF ts keeps_trans [OF keeps_emit keeps_update_slot]] ts keeps_same [of s s]
    by auto
qed

lemma session_answer_frame [server_frame]:
  "sv_routes (fst (session_answer C cfg c e r s)) = sv_routes s"
  "sv_wrap_kinds (fst (session_answer C cfg c e r s)) = sv_wrap_kinds s"
  "sv_seen (fst (session_answer C cfg c e r s)) = sv_seen s"
  "sv_oversized (fst (session_answer C cfg c e r s)) = sv_oversized s"
  "sv_slots (fst (session_answer C cfg c e r s)) = sv_slots s"
  "sv_token_to_event (fst (session_answer C cfg c e r s)) = sv_token_to_event s"
  "sv_snapshots (fst (session_answer C cfg c e r s)) = sv_snapshots s"
  "sv_tasks (fst (session_answer C cfg c e r s)) = sv_tasks s"
  "sv_next (fst (session_answer C cfg c e r s)) = sv_next s"
  "sv_out (fst (session_answer C cfg c e r s)) = sv_out s"
  by (simp_all add: session_answer_def Let_def split: option.split prod.split)

text \<open>An answer for event \<open>e\<close> to client \<open>c\<close> under the request id \<open>i\<close>.\<close>

fun answer_for :: "server_effect \<Rightarrow> string \<Rightarrow> string \<Rightarrow> json \<Rightarrow> bool" where
  "answer_for (Answered e p) e' c i \<longleftrightarrow> e = e' \<and> pb_recipient p = c \<and> (\<exists>m. pb_message p = restore_id i m)"
| "answer_for (Answered_In_Frames e c' m t a b k) e' c i \<longleftrightarrow> e = e' \<and> c' = c \<and> (\<exists>m'. m = restore_id i m')"
| "answer_for _ e c i \<longleftrightarrow> False"

text \<open>A step that keeps the origins and answers at most once, from one of them.\<close>

definition answers_once ::
  "('s, 'r, 'g, 'p, 'o) caches \<Rightarrow> ('s, 'r, 'g, 'p, 'o) server \<Rightarrow> ('s, 'r, 'g, 'p, 'o) server \<Rightarrow> bool" where
  "answers_once C s s' \<longleftrightarrow> keeps C s s' \<and>
     (extends_by quiet s s' \<or>
      (\<exists>x e c i. sv_out s' = sv_out s @ [x] \<and> answer_for x e c i \<and> origin C s e c i))"

lemma touches_answers: "touches s s' \<Longrightarrow> answers_once C s s'"
  by (simp add: answers_once_def touches_keeps touches_def [of s s'])

lemma keeps_answers: "keeps C s s' \<Longrightarrow> sv_out s' = sv_out s \<Longrightarrow> answers_once C s s'"
  by (simp add: answers_once_def extends_same)

lemma answers_after:
  assumes "keeps C s s1" "sv_out s1 = sv_out s" "keeps C s1 s'"
    "sv_out s' = sv_out s1 \<or> (\<exists>x. sv_out s' = sv_out s1 @ [x] \<and> answer_for x e c i)" "origin C s e c i"
  shows "answers_once C s s'"
  using assms keeps_trans [OF assms(1,3)] unfolding answers_once_def extends_by_def by fastforce

lemma put_peek_cases:
  assumes "lru L valid" "valid c" "lru_peek L (lru_put L c k v) k' = Some w"
  shows "lru_peek L c k' = Some w \<or> k' = k \<and> w = v"
  using lru.put_peek_le [OF assms(1,2), of k v] assms(3) unfolding map_le_def
  by (metis domI fun_upd_apply option.inject)

lemma keeps_put_snapshot:
  assumes "keeps C s0 s" "lru (lc_snapshots C) vp" "vp c" "lru_peek (lc_snapshots C) c \<subseteq>\<^sub>m
      lru_peek (lc_snapshots C) (sv_snapshots s)"
    "\<And>c i. snapshot_for (prs_snapshot entry) c i \<Longrightarrow> origin C s0 e c i"
  shows "keeps C s0 (s\<lparr>sv_snapshots := lru_put (lc_snapshots C) c e entry\<rparr>)"
proof -
  let ?s = "s\<lparr>sv_snapshots := lru_put (lc_snapshots C) c e entry\<rparr>"
  have "origin C s e' c' i \<or> e' = e \<and> snapshot_for (prs_snapshot entry) c' i" if "origin C ?s e' c' i" for e' c' i
  proof -
    have "lru_peek (lc_snapshots C) (sv_snapshots s) k = Some p \<or> k = e \<and> p = entry"
      if "lru_peek (lc_snapshots C) (lru_put (lc_snapshots C) c e entry) k = Some p" for k p
      using put_peek_cases [OF assms(2,3) that] assms(4) by (metis domI map_le_def)
    then show ?thesis using that unfolding origin_def by simp blast
  qed
  then show ?thesis using assms(1,5) unfolding keeps_def by blast
qed

lemma send_deferred_answers:
  assumes "\<And>entry c i. payment = Some entry \<Longrightarrow> snapshot_for (prs_snapshot entry) c i \<Longrightarrow> origin C s0 e c i"
    "keeps C s0 s" "sv_out s = sv_out s0" "origin C s0 e (rsn_client_pubkey snap) (rsn_original_request_id snap)"
    "vp (sv_snapshots s)" "lru (lc_snapshots C) vp"
  shows "answers_once C s0 (fst (send_deferred C N cfg e snap r payment s))"
proof (cases "nx_event_id_ok N e")
  case True
  obtain s1 tags where a: "session_answer C cfg (rsn_client_pubkey snap) e
      (restore_id (rsn_original_request_id snap) r) s = (s1, tags)" by fastforce
  have s1: "sv_routes s1 = sv_routes s" "sv_slots s1 = sv_slots s" "sv_snapshots s1 = sv_snapshots s"
    "sv_tasks s1 = sv_tasks s" "sv_out s1 = sv_out s"
    using session_answer_frame [of C cfg "rsn_client_pubkey snap" e
        "restore_id (rsn_original_request_id snap) r" s] a by simp_all
  let ?x = "Answered e (send_mcp_message cfg (restore_id (rsn_original_request_id snap) r)
      (rsn_client_pubkey snap) tags (rsn_is_encrypted snap) (select_outbound_gift_wrap_kind
        (sc_gift_wrap_mode cfg) (rsn_is_encrypted snap) (rsn_mirrored_wrap_kind snap)))"
  have s': "fst (send_deferred C N cfg e snap r payment s) =
      spawn_server (Sending_Deferred e payment) (emit ?x s1)"
    using True a by (simp add: send_deferred_def Let_def)
  have "keeps C s0 s1" using keeps_trans [OF assms(2) keeps_same] s1 by blast
  then have "keeps C s0 (spawn_server (Sending_Deferred e payment) (emit ?x s1))"
    using assms(1) by (intro keeps_spawn keeps_trans [OF _ keeps_emit]) (auto simp: snapshot_for_def)
  moreover have "answer_for ?x e (rsn_client_pubkey snap) (rsn_original_request_id snap)" by auto
  moreover have "sv_out (spawn_server (Sending_Deferred e payment) (emit ?x s1)) = sv_out s0 @ [?x]"
    using s1 assms(3) by (simp add: server_frame)
  ultimately show ?thesis using s' assms(4) unfolding answers_once_def by metis
next
  case False
  show ?thesis
  proof (cases payment)
    case None
    then show ?thesis using False assms(2,3) by (simp add: send_deferred_def Let_def keeps_answers)
  next
    case (Some entry)
    have "keeps C s0 (reinsert_payment_route_snapshot C e entry s)"
      unfolding reinsert_payment_route_snapshot_def
      using keeps_put_snapshot [OF assms(2,6,5) map_le_refl assms(1) [OF Some]] .
    then show ?thesis
      using False Some assms(3) by (simp add: send_deferred_def Let_def keeps_answers server_frame)
  qed
qed

lemma try_defer_frame:
  assumes "try_defer_open_stream_response e r s = (s', d)"
  shows "sv_routes s' = sv_routes s" "sv_snapshots s' = sv_snapshots s" "sv_tasks s' = sv_tasks s"
    "sv_next s' = sv_next s" "sv_out s' = sv_out s" "sv_sessions s' = sv_sessions s"
    "sv_wrap_kinds s' = sv_wrap_kinds s" "sv_seen s' = sv_seen s" "sv_oversized s' = sv_oversized s"
  using assms
  by (auto simp: try_defer_open_stream_response_def Let_def server_frame split: option.splits if_splits)

lemma try_defer_keeps:
  assumes "try_defer_open_stream_response e r s = (s', d)"
  shows "keeps C s s'" "d = Send_Now snap \<Longrightarrow>
    origin C s e (rsn_client_pubkey snap) (rsn_original_request_id snap)"
proof -
  have d: "keeps C s (drop_token slot (s\<lparr>sv_slots := AList.delete e (sv_slots s)\<rparr>))" for slot
    by (rule keeps_trans [OF keeps_delete_slot keeps_drop_token])
  have u: "keeps C s (s\<lparr>sv_slots := AList.update e (slot\<lparr>sl_pending_response := Some r\<rparr>) (sv_slots s)\<rparr>)"
    if "map_of (sv_slots s) e = Some slot" for slot
    using keeps_update_slot [of "\<lambda>slot. slot\<lparr>sl_pending_response := Some r\<rparr>" C s e] that
    by (simp add: update_slot_def)
  show "keeps C s s'"
    using assms d u keeps_same [of s s]
    by (auto simp: try_defer_open_stream_response_def Let_def split: option.splits if_splits)
  show "origin C s e (rsn_client_pubkey snap) (rsn_original_request_id snap)" if "d = Send_Now snap"
    using assms that
    by (auto simp: try_defer_open_stream_response_def Let_def snapshot_for_def split: option.splits if_splits
        intro: originI(2))
qed

lemma send_routed_answers:
  assumes "keeps C s0 s" "sv_out s = sv_out s0"
    "origin C s0 e (rt_client_pubkey route) (rt_original_request_id route)"
  shows "answers_once C s0 (fst (send_routed X C N cfg e route r m s))"
proof (cases "lru_peek (lc_sessions C) (sv_sessions s) (rt_client_pubkey route)")
  case None
  then show ?thesis using assms(1,2) by (simp add: send_routed_def Let_def keeps_answers)
next
  case (Some session)
  let ?c = "rt_client_pubkey route" and ?r = "restore_id (rt_original_request_id route) r"
  obtain s1 tags where a: "session_answer C cfg ?c e ?r s = (s1, tags)" by fastforce
  have s1: "sv_routes s1 = sv_routes s" "sv_slots s1 = sv_slots s" "sv_snapshots s1 = sv_snapshots s"
    "sv_tasks s1 = sv_tasks s" "sv_out s1 = sv_out s0"
    using session_answer_frame [of C cfg ?c e ?r s] a assms(2) by simp_all
  have k1: "keeps C s0 s1" using keeps_trans [OF assms(1) keeps_same] s1 by blast
  have spawned: "answers_once C s0 (spawn_server (Sending_Response e route) (emit x s1))"
    if "answer_for x e ?c (rt_original_request_id route)" for x
    using that assms(3) s1(5) keeps_spawn [OF keeps_trans [OF k1 keeps_emit], of "Sending_Response e route" x]
    unfolding answers_once_def by (auto simp: server_frame)
  show ?thesis
    using Some a keeps_answers [OF k1 s1(5)]
    by (auto simp: send_routed_def Let_def intro!: spawned)
qed

context route_lru
begin

lemma remove_routes_valid: "valid (rs_routes s) \<Longrightarrow> valid (rs_routes (remove_routes L keys s))"
  by (induction keys arbitrary: s) (simp_all add: remove_route_peek(1))

end

context server_caches
begin

lemma pop_route_peek:
  assumes "vr (rs_routes st)" "pop_route (lc_routes C) st e = (st', popped)"
  shows "vr (rs_routes st')" "lru_peek (lc_routes C) (rs_routes st') \<subseteq>\<^sub>m lru_peek (lc_routes C) (rs_routes st)"
    "popped = lru_peek (lc_routes C) (rs_routes st) e"
proof -
  show "vr (rs_routes st')" "lru_peek (lc_routes C) (rs_routes st') \<subseteq>\<^sub>m lru_peek (lc_routes C) (rs_routes st)"
    using rts.remove_route_peek [OF assms(1), of e] assms(2) by (auto simp: pop_route_def map_le_def)
  show "popped = lru_peek (lc_routes C) (rs_routes st) e"
    using rts.pop_peek(2) [OF assms(1), of e] assms(2)
    by (auto simp: pop_route_def remove_route_def split: prod.splits option.splits)
qed

lemma take_snapshot_keeps:
  assumes "vp (sv_snapshots s)" "take_payment_route_snapshot C e s = (s', entry)"
  shows "keeps C s s'" "vp (sv_snapshots s')" "sv_out s' = sv_out s" "sv_routes s' = sv_routes s"
    "\<And>p c i. entry = Some p \<Longrightarrow> snapshot_for (prs_snapshot p) c i \<Longrightarrow> origin C s e c i"
proof -
  obtain c x where p: "lru_pop (lc_snapshots C) (sv_snapshots s) e = (c, x)" by fastforce
  then have c: "vp c" "lru_peek (lc_snapshots C) c = (lru_peek (lc_snapshots C) (sv_snapshots s))(e := None)"
      "x = lru_peek (lc_snapshots C) (sv_snapshots s) e"
    using snaps.pop_valid [OF assms(1), of e] snaps.pop_peek [OF assms(1), of e] by simp_all
  have s': "s' = s\<lparr>sv_snapshots := c\<rparr>" "entry = x"
    using assms(2) p by (simp_all add: take_payment_route_snapshot_def)
  show "keeps C s s'" unfolding s' by (rule keeps_snapshots) (auto simp: c split: if_splits)
  show "vp (sv_snapshots s')" "sv_out s' = sv_out s" "sv_routes s' = sv_routes s" using c by (simp_all add: s')
  show "\<And>p c i. entry = Some p \<Longrightarrow> snapshot_for (prs_snapshot p) c i \<Longrightarrow> origin C s e c i"
    using c(3) s'(2) originI(3) by metis
qed

lemma send_response_answers:
  assumes "vr (rs_routes (sv_routes s))" "vp (sv_snapshots s)"
  shows "answers_once C s (fst (send_response X C N cfg e r m s))"
proof -
  obtain s1 entry where t: "take_payment_route_snapshot C e s = (s1, entry)" by fastforce
  note t' = take_snapshot_keeps [OF assms(2) t]
  obtain s2 d where d: "(if sc_open_stream_enabled cfg then try_defer_open_stream_response e r s1
      else (s1, Passthrough)) = (s2, d)" by fastforce
  have s2: "keeps C s s2" "sv_out s2 = sv_out s" "sv_routes s2 = sv_routes s" "vp (sv_snapshots s2)"
    using d t' try_defer_frame [of e r s1 s2 d] try_defer_keeps(1) [of e r s1 s2 d C] keeps_trans [OF t'(1)]
    by (auto split: if_splits)
  show ?thesis
  proof (cases d)
    case Deferred
    then show ?thesis using t d s2 by (simp add: send_response_def keeps_answers)
  next
    case (Send_Now snap)
    then have "origin C s1 e (rsn_client_pubkey snap) (rsn_original_request_id snap)"
      using d try_defer_keeps(2) [of e r s1 s2 d] by (auto split: if_splits)
    then have "origin C s e (rsn_client_pubkey snap) (rsn_original_request_id snap)"
      using t'(1) by (simp add: keeps_def)
    then have "answers_once C s (fst (send_deferred C N cfg e snap r None s2))"
      by (intro send_deferred_answers [OF _ s2(1,2) _ s2(4) snaps.lru_axioms]) simp_all
    then show ?thesis using Send_Now t d by (simp add: send_response_def)
  next
    case Passthrough
    obtain st popped where p: "pop_route (lc_routes C) (sv_routes s2) e = (st, popped)" by fastforce
    note p' = pop_route_peek [OF _ p, unfolded s2(3), OF assms(1)]
    let ?s3 = "s2\<lparr>sv_routes := st\<rparr>"
    have s3: "keeps C s ?s3" "sv_out ?s3 = sv_out s" "vp (sv_snapshots ?s3)"
      using keeps_trans [OF s2(1) keeps_routes] p'(2) s2 by simp_all
    have r: "fst (send_response X C N cfg e r m s) =
        (case popped of
           Some route \<Rightarrow> fst (send_routed X C N cfg e route r m ?s3)
         | None \<Rightarrow> (case entry of
             Some p \<Rightarrow> fst (send_deferred C N cfg e (prs_snapshot p) r (Some p) ?s3) | None \<Rightarrow> ?s3))"
      using t d p Passthrough by (simp add: send_response_def Let_def split: option.split)
    have "answers_once C s (fst (send_routed X C N cfg e route r m ?s3))" if "popped = Some route" for route
      using send_routed_answers [OF s3(1,2)] originI(1) p'(3) that by metis
    moreover have "answers_once C s (fst (send_deferred C N cfg e (prs_snapshot p) r (Some p) ?s3))"
      if "entry = Some p" for p
      using t'(5) [OF that] by (intro send_deferred_answers [OF _ s3(1,2) _ s3(3) snaps.lru_axioms])
        (auto simp: snapshot_for_def)
    ultimately show ?thesis unfolding r using keeps_answers [OF s3(1,2)] by (simp split: option.split)
  qed
qed

lemma keeps_register:
  assumes "keeps C s0 s" "vr (rs_routes (sv_routes s))" "origin C s0 e c i"
  shows "keeps C s0 (s\<lparr>sv_routes := register_route (lc_routes C) (sv_routes s) now e c i t\<rparr>)"
proof -
  let ?s = "s\<lparr>sv_routes := register_route (lc_routes C) (sv_routes s) now e c i t\<rparr>"
  have "lru_peek (lc_routes C) (rs_routes (sv_routes s)) k = Some r \<or> k = e \<and> r = new_route now c i t"
    if "lru_peek (lc_routes C) (rs_routes (sv_routes ?s)) k = Some r" for k r
    using put_peek_cases [OF rts.lru_axioms assms(2), of e "new_route now c i t"] that
    by (simp add: register_route_routes)
  then have "origin C s k c' i' \<or> k = e \<and> c' = c \<and> i' = i" if "origin C ?s k c' i'" for k c' i'
    using that unfolding origin_def by (fastforce simp: new_route_def)
  then show ?thesis using assms(1,3) unfolding keeps_def by blast
qed

lemma publish_result_answers:
  assumes "vr (rs_routes (sv_routes s))" "vp (sv_snapshots s)"
  shows "answers_once C s (server_step X C N cfg s (Publish_Result now n ok))"
proof -
  let ?s1 = "s\<lparr>sv_tasks := AList.delete n (sv_tasks s)\<rparr>"
  have k: "keeps C s ?s1" by (rule keeps_delete_task)
  show ?thesis
  proof (cases "map_of (sv_tasks s) n")
    case (Some t)
    have o: "origin C s e c i" if "task_origin t e c i" for e c i
      using originI(4) [OF map_of_SomeD [OF Some] that] .
    show ?thesis
    proof (cases t)
      case (Sending_Response e route)
      have "keeps C s (response_published C now e route ok ?s1)"
      proof (cases ok)
        case True
        then show ?thesis
          by (simp add: response_published_def) (rule keeps_trans [OF k keeps_same], simp_all)
      next
        case False
        then show ?thesis
          using keeps_register [OF k, of e "rt_client_pubkey route" "rt_original_request_id route"] assms(1) o
            Sending_Response by (simp add: response_published_def)
      qed
      moreover have "sv_out (response_published C now e route ok ?s1) = sv_out s"
        by (simp add: response_published_def)
      ultimately show ?thesis using Some Sending_Response by (simp add: keeps_answers)
    next
      case (Sending_Deferred e payment)
      have "keeps C s (deferred_published C e payment ok ?s1)"
      proof (cases payment)
        case (Some entry)
        have "keeps C s (reinsert_payment_route_snapshot C e entry ?s1)"
          unfolding reinsert_payment_route_snapshot_def
          using Sending_Deferred Some assms(2)
          by (intro keeps_put_snapshot [OF k snaps.lru_axioms]) (auto simp: snapshot_for_def intro!: o)
        with k show ?thesis by (simp add: Some deferred_published_def)
      qed (simp add: deferred_published_def k)
      moreover have "sv_out (deferred_published C e payment ok ?s1) = sv_out s"
        by (simp add: deferred_published_def server_frame split: option.split)
      ultimately show ?thesis using Some Sending_Deferred by (simp add: keeps_answers)
    qed (simp add: Some keeps_answers keeps_same)
  qed (simp add: keeps_answers keeps_same)
qed

lemma chain_end_keeps:
  assumes "vr (rs_routes (sv_routes s))"
  shows "keeps C s (chain_end C n run s)" "sv_out (chain_end C n run s) = sv_out s"
proof -
  let ?e = "in_event_id (cr_incoming run)"
  let ?s0 = "s\<lparr>sv_tasks := AList.delete n (sv_tasks s)\<rparr>"
  obtain st popped where p: "pop_route (lc_routes C) (sv_routes s) ?e = (st, popped)" by fastforce
  define s1 where "s1 = (if cr_reached run then ?s0 else ?s0\<lparr>sv_routes := st, sv_wrap_kinds :=
      (if popped \<noteq> None then AList.delete ?e (sv_wrap_kinds s) else sv_wrap_kinds s)\<rparr>)"
  have e: "chain_end C n run s = (case leave_chain ?e s1 of (s2, None) \<Rightarrow> s2 | (s2, Some slot) \<Rightarrow> drop_token slot s2)"
    using p by (simp add: chain_end_def s1_def Let_def split: prod.split option.split)
  have "keeps C ?s0 (?s0\<lparr>sv_routes := st\<rparr>)"
    using pop_route_peek(2) [OF assms p] by (intro keeps_routes) simp
  then have "keeps C s (?s0\<lparr>sv_routes := st, sv_wrap_kinds := w\<rparr>)" for w
    using keeps_trans [OF keeps_trans [OF keeps_delete_task] keeps_same] by fastforce
  then have k1: "keeps C s s1" using keeps_delete_task [of C s n] by (simp add: s1_def)
  have "keeps C s1 (fst (leave_chain ?e s1))"
    using keeps_delete_slot [of C s1 ?e] keeps_same [of s1 s1]
      keeps_update_slot [of "\<lambda>slot. slot\<lparr>sl_live_chains := sl_live_chains slot - 1\<rparr>" C s1 ?e]
    by (auto simp: leave_chain_def update_slot_def Let_def split: option.split)
  then have "keeps C s (fst (leave_chain ?e s1))" by (rule keeps_trans [OF k1])
  then show "keeps C s (chain_end C n run s)"
    unfolding e using keeps_trans [OF _ keeps_drop_token] by (auto split: prod.split option.split)
  have "sv_out (fst (leave_chain ?e s1)) = sv_out s"
    by (simp add: leave_chain_def s1_def Let_def split: option.split)
  then show "sv_out (chain_end C n run s) = sv_out s"
    unfolding e by (auto simp: server_frame split: prod.split option.split)
qed

lemma flush_answers:
  assumes "vp (sv_snapshots s)"
  shows "answers_once C s (flush_open_stream_response C N cfg e s)"
proof (cases "map_of (sv_slots s) e")
  case None
  then show ?thesis by (simp add: flush_open_stream_response_def keeps_answers keeps_same)
next
  case (Some slot)
  show ?thesis
  proof (cases "sl_pending_response slot")
    case None
    then show ?thesis
      using Some keeps_update_slot [of "\<lambda>slot. slot\<lparr>sl_terminated := True\<rparr>" C s e]
      by (simp add: flush_open_stream_response_def update_slot_def keeps_answers)
  next
    case pending: (Some r)
    let ?s1 = "drop_token slot (s\<lparr>sv_slots := AList.delete e (sv_slots s)\<rparr>)"
    have "keeps C s ?s1" by (rule keeps_trans [OF keeps_delete_slot keeps_drop_token])
    moreover have "origin C s e (rsn_client_pubkey (sl_snapshot slot)) (rsn_original_request_id (sl_snapshot slot))"
      using originI(2) [OF Some] by (simp add: snapshot_for_def)
    ultimately have "answers_once C s (fst (send_deferred C N cfg e (sl_snapshot slot) r None ?s1))"
      using assms by (intro send_deferred_answers [OF _ _ _ _ _ snaps.lru_axioms]) (simp_all add: server_frame)
    then show ?thesis by (simp add: flush_open_stream_response_def Some pending)
  qed
qed

lemma record_snapshot_keeps:
  assumes "vp (sv_snapshots s)" "\<And>c i. snapshot_for snap c i \<Longrightarrow> origin C s e c i"
  shows "keeps C s (record_payment_route_snapshot C now e snap x s)"
proof -
  let ?P = "lc_snapshots C" and ?c = "sv_snapshots s"
  let ?entry = "\<lparr>prs_snapshot = snap, prs_expires_at = x\<rparr>"
  have put: "keeps C s (s\<lparr>sv_snapshots := lru_put ?P c e ?entry\<rparr>)"
    if "vp c" "lru_peek ?P c \<subseteq>\<^sub>m lru_peek ?P ?c" for c
    using that assms(2) by (intro keeps_put_snapshot [OF keeps_same snaps.lru_axioms]) simp_all
  have pop: "vp (fst (lru_pop ?P ?c k))" "lru_peek ?P (fst (lru_pop ?P ?c k)) \<subseteq>\<^sub>m lru_peek ?P ?c" for k
    using snaps.pop_valid [OF assms(1)] snaps.pop_peek(1) [OF assms(1)] by (auto simp: map_le_def)
  have touch: "keeps C s (s\<lparr>sv_snapshots := lru_peek_mut ?P ?c e f\<rparr>)"
    if "\<And>p. prs_snapshot (f p) = prs_snapshot p" for f
    using that by (intro keeps_snapshots) (auto simp: snaps.peek_mut_peek [OF assms(1)] split: if_splits)
  show ?thesis
    using put [OF assms(1) map_le_refl] put [OF pop] touch keeps_same [of s s]
    by (auto simp: record_payment_route_snapshot_def Let_def split: option.split prod.split)
qed

lemma cleanup_tick_keeps:
  assumes "vr (rs_routes (sv_routes s))" "vp (sv_snapshots s)"
  shows "keeps C s (cleanup_tick C cfg now s)" "sv_out (cleanup_tick C cfg now s) = sv_out s"
proof -
  obtain ss rt ks n where c: "cleanup_sessions (lc_sessions C) (lc_routes C) now (sc_session_timeout cfg)
      (sv_sessions s) (sv_routes s) (sv_wrap_kinds s) = (ss, rt, ks, n)" by (metis prod_cases4)
  obtain keys where rt: "rt = remove_routes (lc_routes C) keys (sv_routes s)"
    using c by (auto simp: cleanup_sessions_def Let_def split: prod.splits)
  obtain rt' swept where w: "sweep_stale_routes (lc_routes C) rt now (sc_request_timeout cfg) = (rt', swept)"
    by fastforce
  obtain keys' where rt': "rt' = remove_routes (lc_routes C) keys' rt"
    using w by (auto simp: sweep_stale_routes_def Let_def)
  let ?s1 = "s\<lparr>sv_sessions := ss, sv_routes := rt', sv_wrap_kinds := fold AList.delete swept ks\<rparr>"
  have e: "cleanup_tick C cfg now s = purge_payment_snapshots C now ?s1"
    by (simp add: cleanup_tick_def c w)
  have "vr (rs_routes rt)" unfolding rt by (rule rts.remove_routes_valid [OF assms(1)])
  then have "lru_peek (lc_routes C) (rs_routes rt') \<subseteq>\<^sub>m lru_peek (lc_routes C) (rs_routes (sv_routes s))"
    unfolding rt' rt using rts.remove_routes_peek [OF assms(1)] rts.remove_routes_peek [of rt]
    by (auto simp: map_le_def restrict_map_def rt split: if_splits)
  then have "keeps C s (s\<lparr>sv_routes := rt'\<rparr>)" by (rule keeps_routes)
  then have "keeps C s ?s1" by (rule keeps_trans [OF _ keeps_same]) simp_all
  moreover have "keeps C ?s1 (purge_payment_snapshots C now ?s1)"
    unfolding purge_payment_snapshots_def Let_def
    by (rule keeps_snapshots) (use assms(2) in \<open>auto simp: snaps.pop_all_peek restrict_map_def split: if_splits\<close>)
  ultimately show "keeps C s (cleanup_tick C cfg now s)" unfolding e by (rule keeps_trans)
  show "sv_out (cleanup_tick C cfg now s) = sv_out s" by (simp add: e server_frame)
qed

end

section \<open>Notifications\<close>

lemma session_answer_touches: "touches s (fst (session_answer C cfg c e r s))"
  by (auto simp: session_answer_def touches_refl touches_sessions split: option.split prod.split)

lemma send_targeted_response_touches: "touches s (fst (send_targeted_response C N cfg c e r s))"
proof -
  have "touches s (emit (Targeted e p) (fst (session_answer C cfg c e r s)))" for p
    by (rule touches_trans [OF session_answer_touches touches_emit]) simp
  then show ?thesis
    by (auto simp: send_targeted_response_def publish_targeted_response_def touches_refl case_prod_unfold Let_def
        split: option.split)
qed

lemma publish_notification_touches: "touches s (fst (publish_notification C N cfg k c e n s))"
proof -
  have "touches s (emit (Notified p) (s\<lparr>sv_sessions := x\<rparr>))" for p x
    by (rule touches_trans [OF touches_sessions(1) touches_emit]) simp
  then show ?thesis
    by (auto simp: publish_notification_def touches_refl touches_sessions Let_def
        split: option.split prod.split)
qed

lemma send_notification_touches: "touches s (fst (send_notification C N cfg c n e s))"
  unfolding send_notification_def by (rule publish_notification_touches)

lemma broadcast_touches: "touches s (broadcast_notification C N cfg n s)"
proof -
  have "touches s (fold (\<lambda>pubkey s. fst (send_notification C N cfg pubkey n None s)) keys s)" for keys
    by (induction keys arbitrary: s)
      (auto simp: touches_refl intro: touches_trans [OF send_notification_touches])
  then show ?thesis by (simp add: broadcast_notification_def)
qed

lemma sweep_oversized_touches: "touches s (sweep_oversized_receivers C now s)"
  by (simp add: sweep_oversized_receivers_def Let_def touches_sessions)

lemma release_silent_touches: "touches s (release_silent_client C cfg c s)"
  by (auto simp: release_silent_client_def touches_def extends_by_def split: prod.split)

section \<open>Admission\<close>

definition admitted :: "server_effect list \<Rightarrow> string \<Rightarrow> string \<Rightarrow> json \<Rightarrow> bool" where
  "admitted out e c i \<longleftrightarrow> (\<exists>r ctx. Admitted r ctx \<in> set out \<and> in_event_id r = e \<and> in_client_pubkey r = c \<and>
     original_id (in_message r) = i)"

lemma admitted_append: "admitted (out @ new) e c i \<longleftrightarrow> admitted out e c i \<or> admitted new e c i"
  by (auto simp: admitted_def)

lemma admitted_quiet: "\<forall>x \<in> set new. quiet x \<Longrightarrow> \<not> admitted new e c i"
  by (auto simp: admitted_def dest: bspec)

lemma dispatch_inbound_keeps: "keeps C s (dispatch_inbound cfg r ctx s)"
proof -
  have "keeps C s (emit y (emit x s))" for x y by (rule keeps_trans [OF keeps_emit keeps_emit])
  moreover have "keeps C s (spawn_server (Chain run) (enter_chain e (emit x s)))" for run e x
    unfolding enter_chain_def
    by (rule keeps_spawn [OF keeps_trans [OF keeps_emit keeps_update_slot]]) simp_all
  ultimately show ?thesis by (simp add: dispatch_inbound_def Let_def)
qed

lemma create_writer_origin:
  assumes "origin C (create_open_stream_writer N e' c' t i' b k s) e c i"
  shows "origin C s e c i \<or> e = e' \<and> c = c' \<and> i = i'"
  using assms unfolding origin_def
  by (auto simp: create_open_stream_writer_def snapshot_for_def split: if_splits)

context server_caches
begin

lemma reserve_request_origin:
  assumes "vr (rs_routes (sv_routes s))" "origin C (reserve_request C N cfg now event env i' pt wt s) e c i"
  shows "origin C s e c i \<or> e = en_event_id env \<and> c = en_sender env \<and> i = i'"
proof -
  let ?rt = "register_route (lc_routes C) (sv_routes s) now (en_event_id env) (en_sender env) i' pt"
  let ?s1 = "s\<lparr>sv_wrap_kinds := AList.update (en_event_id env) (outer_wrap_kind event) (sv_wrap_kinds s),
      sv_routes := ?rt\<rparr>"
  have "origin C ?s1 e c i \<or> e = en_event_id env \<and> c = en_sender env \<and> i = i'"
    using assms(2)
    by (auto simp: reserve_request_def Let_def split: option.splits if_splits dest: create_writer_origin)
  moreover have "origin C s e c i \<or> e = en_event_id env \<and> c = en_sender env \<and> i = i'" if "origin C ?s1 e c i"
  proof -
    have "lru_peek (lc_routes C) (rs_routes (sv_routes s)) k = Some r \<or>
        k = en_event_id env \<and> r = new_route now (en_sender env) i' pt"
      if "lru_peek (lc_routes C) (rs_routes ?rt) k = Some r" for k r
      using put_peek_cases [OF rts.lru_axioms assms(1)] that by (simp add: register_route_routes)
    then show ?thesis using that unfolding origin_def by (fastforce simp: new_route_def)
  qed
  ultimately show ?thesis by blast
qed

lemma admits_origin:
  assumes "vr (rs_routes (sv_routes s))" "admits C N cfg now event env s s'"
  shows "\<exists>m ctx new. sv_out s' = sv_out s @ Admitted (incoming_of env m) ctx # new \<and> (\<forall>x \<in> set new. quiet x) \<and>
    (\<forall>e c i. origin C s' e c i \<longrightarrow> origin C s e c i \<or>
       e = en_event_id env \<and> c = en_sender env \<and> i = original_id m)"
proof -
  obtain m ctx s1 where m: "s' = dispatch_inbound cfg (incoming_of env m) ctx s1" "sv_out s1 = sv_out s"
    and o: "\<And>e c i. origin C s1 e c i \<Longrightarrow> origin C s e c i \<or>
       e = en_event_id env \<and> c = en_sender env \<and> i = original_id m"
    using assms(2) reserve_request_origin [OF assms(1)] unfolding admits_def by (metis reserve_request_frame(1))
  have "\<forall>x \<in> set (if sc_middlewares cfg then [] else [Delivered (incoming_of env m)]). quiet x" by simp
  moreover have "sv_out s' = sv_out s @ Admitted (incoming_of env m) ctx #
      (if sc_middlewares cfg then [] else [Delivered (incoming_of env m)])"
    using m by (simp add: server_frame)
  ultimately show ?thesis
    using m(1) o dispatch_inbound_keeps [of C s1 cfg "incoming_of env m" ctx] unfolding keeps_def by metis
qed

end

section \<open>Correlation\<close>

fun is_answer :: "server_effect \<Rightarrow> bool" where
  "is_answer (Answered e p) \<longleftrightarrow> True"
| "is_answer (Answered_In_Frames e c m t a b k) \<longleftrightarrow> True"
| "is_answer _ \<longleftrightarrow> False"

definition traced :: "server_effect list \<Rightarrow> bool" where
  "traced out \<longleftrightarrow> (\<forall>pre x post. out = pre @ x # post \<and> is_answer x \<longrightarrow>
     (\<exists>e c i. answer_for x e c i \<and> admitted pre e c i))"

lemma traced_snoc:
  "traced (out @ [x]) \<longleftrightarrow> traced out \<and> (is_answer x \<longrightarrow> (\<exists>e c i. answer_for x e c i \<and> admitted out e c i))"
proof -
  have "out @ [x] = pre @ y # post \<longleftrightarrow> post = [] \<and> out = pre \<and> x = y \<or>
      (\<exists>post'. post = post' @ [x] \<and> out = pre @ y # post')" for pre y post
    by (cases post rule: rev_cases) auto
  then show ?thesis unfolding traced_def by auto
qed

lemma traced_append: "traced out \<Longrightarrow> \<forall>x \<in> set new. \<not> is_answer x \<Longrightarrow> traced (out @ new)"
proof (induction new arbitrary: out)
  case (Cons x new)
  then show ?case using Cons.IH [of "out @ [x]"] by (simp add: traced_snoc)
qed simp

lemma quiet_answer: "quiet x \<Longrightarrow> \<not> is_answer x"
  by (cases x) simp_all

definition correlated ::
  "(string \<Rightarrow> string) \<Rightarrow> ('s, 'r, 'g, 'p, 'o) caches \<Rightarrow> ('s, 'r, 'g, 'p, 'o) server \<Rightarrow> bool" where
  "correlated owner C s \<longleftrightarrow> traced (sv_out s) \<and> (\<forall>e c i. origin C s e c i \<longrightarrow> admitted (sv_out s) e c i) \<and>
     (\<forall>e c i. admitted (sv_out s) e c i \<longrightarrow> c = owner e)"

lemma correlated_answers:
  assumes "correlated owner C s" "answers_once C s s'"
  shows "correlated owner C s'"
proof -
  from assms(2) consider (quiet) new where "sv_out s' = sv_out s @ new" "\<forall>x \<in> set new. quiet x"
    | (answer) x e c i where "sv_out s' = sv_out s @ [x]" "answer_for x e c i" "origin C s e c i"
    unfolding answers_once_def extends_by_def by blast
  then have out: "traced (sv_out s') \<and> (\<forall>e c i. admitted (sv_out s') e c i \<longleftrightarrow> admitted (sv_out s) e c i)"
  proof cases
    case quiet
    then show ?thesis
      using assms(1) traced_append [of "sv_out s" new] quiet_answer
      by (auto simp: correlated_def admitted_append admitted_quiet)
  next
    case (answer x e c i)
    have "\<not> admitted [x] e' c' i'" for e' c' i' using answer(2) by (cases x) (auto simp: admitted_def)
    moreover have "admitted (sv_out s) e c i" using assms(1) answer(3) by (simp add: correlated_def)
    ultimately show ?thesis
      using assms(1) answer by (simp add: correlated_def traced_snoc admitted_append) blast
  qed
  then show ?thesis using assms unfolding correlated_def answers_once_def keeps_def by blast
qed

context server_caches
begin

lemma correlated_inbound:
  assumes "correlated owner C s" "vr (rs_routes (sv_routes s))"
    "\<And>event. nx_verify N event \<Longrightarrow> ev_pubkey event = owner (ev_id event)"
  shows "correlated owner C (inbound_event X C N cfg now event s)"
proof -
  let ?s' = "inbound_event X C N cfg now event s"
  obtain s2 where s2: "touches s s2" and shape: "?s' = s2 \<or> (\<exists>inner b. nx_verify N inner \<and>
      admits C N cfg now event (open_envelope b inner) s2 ?s')"
    using inbound_event_shape [of s X C N cfg now event] by blast
  have c2: "correlated owner C s2" using correlated_answers [OF assms(1) touches_answers [OF s2]] .
  show ?thesis
  proof (cases "?s' = s2")
    case False
    then obtain inner b where a: "nx_verify N inner" "admits C N cfg now event (open_envelope b inner) s2 ?s'"
      using shape by blast
    have "vr (rs_routes (sv_routes s2))" using s2 assms(2) by (simp add: touches_def)
    from admits_origin [OF this a(2)] obtain m ctx new where
      m: "sv_out ?s' = sv_out s2 @ Admitted (incoming_of (open_envelope b inner) m) ctx # new" "\<forall>x \<in> set new. quiet x"
      "\<forall>e c i. origin C ?s' e c i \<longrightarrow> origin C s2 e c i \<or>
         e = en_event_id (open_envelope b inner) \<and> c = en_sender (open_envelope b inner) \<and> i = original_id m"
      by blast
    have adm: "admitted (sv_out ?s') e c i \<longleftrightarrow> admitted (sv_out s2) e c i \<or>
        e = ev_id inner \<and> c = ev_pubkey inner \<and> i = original_id m" for e c i
      using admitted_quiet [OF m(2), of e c i] unfolding m(1)
      by (auto simp: admitted_def incoming_of_def open_envelope_def)
    have "traced (sv_out ?s')"
      unfolding m(1) using c2 m(2) quiet_answer by (intro traced_append) (auto simp: correlated_def)
    then show ?thesis
      using c2 m(3) assms(3) [OF a(1)] unfolding correlated_def adm
      by (simp add: open_envelope_def) blast
  qed (use c2 in simp)
qed

lemma payment_notification_answers:
  assumes "vp (sv_snapshots s)" "correlated owner C s" "client = owner e"
  shows "answers_once C s (fst (payment_notification_sender C N cfg now ttl client e k n s))"
proof -
  define s1 where "s1 = (if message_method n = Some PAYMENT_REQUIRED_METHOD then
      (case (get_route (lc_routes C) (sv_routes s) e, get_session (lc_sessions C) (sv_sessions s) client) of
         (Some route, Some session) \<Rightarrow>
           if nx_pubkey_ok N client
           then record_payment_route_snapshot C now e
             \<lparr>rsn_client_pubkey = client, rsn_original_request_id = rt_original_request_id route,
              rsn_is_encrypted = sn_is_encrypted session, rsn_mirrored_wrap_kind = k\<rparr> (now + ttl) s
           else s
       | _ \<Rightarrow> s) else s)"
  have orig: "origin C s e client (rt_original_request_id route)" if "get_route (lc_routes C) (sv_routes s) e = Some route"
    for route
  proof -
    have "origin C s e (rt_client_pubkey route) (rt_original_request_id route)"
      using originI(1) that by (simp add: get_route_def)
    moreover from this have "rt_client_pubkey route = client" using assms(2,3) unfolding correlated_def by blast
    ultimately show ?thesis by simp
  qed
  have "keeps C s (record_payment_route_snapshot C now e \<lparr>rsn_client_pubkey = client,
      rsn_original_request_id = rt_original_request_id route, rsn_is_encrypted = b, rsn_mirrored_wrap_kind = k\<rparr> x s)"
    if "get_route (lc_routes C) (sv_routes s) e = Some route" for route b x
    by (rule record_snapshot_keeps [OF assms(1)]) (use orig [OF that] in \<open>auto simp: snapshot_for_def\<close>)
  then have k1: "keeps C s s1" by (simp add: s1_def keeps_same split: option.split)
  have out: "sv_out s1 = sv_out s" by (simp add: s1_def server_frame split: option.split)
  have t: "touches s1 (fst (payment_notification_sender C N cfg now ttl client e k n s))"
    using publish_notification_touches by (simp add: payment_notification_sender_def s1_def [symmetric] Let_def)
  show ?thesis
    unfolding answers_once_def using keeps_trans [OF k1 touches_keeps [OF t]] t out
    by (simp add: touches_def extends_by_def)
qed

lemma server_step_correlated:
  assumes "correlated owner C s" "vr (rs_routes (sv_routes s))" "vp (sv_snapshots s)"
    "\<And>event. nx_verify N event \<Longrightarrow> ev_pubkey event = owner (ev_id event)"
    "\<And>now ttl client e k n. ev = Payment_Notification now ttl client e k n \<Longrightarrow> client = owner e"
  shows "correlated owner C (server_step X C N cfg s ev)"
proof (cases ev)
  case (Inbound now event)
  then show ?thesis using correlated_inbound [OF assms(1,2,4)] by simp
next
  case (Chain_Forwards n m b)
  have "answers_once C s (chain_forward n run m b s)" for run
    using keeps_chain_forward [of C s n run m b]
    by (auto simp: answers_once_def chain_forward_def mark_forwarded_def Let_def server_frame extends_by_def)
  then show ?thesis
    using correlated_answers [OF assms(1)] Chain_Forwards assms(1)
    by (auto split: option.split server_task.split)
next
  case (Chain_Ends n)
  then show ?thesis
    using correlated_answers [OF assms(1) keeps_answers [OF chain_end_keeps [OF assms(2)]]] assms(1)
    by (auto split: option.split server_task.split)
next
  case (Publish_Result now n ok)
  then show ?thesis using correlated_answers [OF assms(1) publish_result_answers [OF assms(2,3)]] by metis
next
  case (Writer_Starts e)
  then show ?thesis
    using correlated_answers [OF assms(1) keeps_answers [OF keeps_update_slot]] by (simp add: server_frame)
next
  case (Payment_Notification now ttl client e k n)
  then show ?thesis
    using correlated_answers [OF assms(1) payment_notification_answers [OF assms(3,1) assms(5)]] by simp
next
  case (Cleanup now)
  then show ?thesis
    using correlated_answers [OF assms(1) keeps_answers [OF cleanup_tick_keeps [OF assms(2,3)]]] by simp
next
  case (Close_Server d)
  have "keeps C s (close_server C d s)"
  proof (cases d)
    case True
    then show ?thesis unfolding keeps_def origin_def
      by (auto simp: close_server_def clear_routes_def rts.clear_peek snaps.clear_peek)
  qed (simp add: close_server_def keeps_same)
  then show ?thesis
    using correlated_answers [OF assms(1) keeps_answers] Close_Server by (simp add: close_server_def)
qed (simp_all add: correlated_answers [OF assms(1)] send_response_answers [OF assms(2,3)] flush_answers [OF assms(3)]
    touches_answers send_targeted_response_touches send_notification_touches broadcast_touches
    sweep_oversized_touches release_silent_touches)

end

end
