(* ===== verification/Server_Typing.thy ===== *)
theory Server_Typing
  imports Server_Correlation
begin

text \<open>
  The type invariant of the server's state, the properties of its histories (\<open>server_run\<close>) and the
  delivery of responses through open streams and payments.
\<close>

section \<open>Well-typed states\<close>

text \<open>The caches are valid and keep the capacities they were made with.\<close>

definition caches_typed ::
  "('s \<Rightarrow> bool) \<Rightarrow> ('r \<Rightarrow> bool) \<Rightarrow> ('g \<Rightarrow> bool) \<Rightarrow> ('p \<Rightarrow> bool) \<Rightarrow> ('o \<Rightarrow> bool) \<Rightarrow>
   ('s, 'r, 'g, 'p, 'o) caches \<Rightarrow> server_config \<Rightarrow> ('s, 'r, 'g, 'p, 'o) server \<Rightarrow> bool" where
  "caches_typed vs vr vg vp vo C cfg s \<longleftrightarrow>
     vs (sv_sessions s) \<and> lru_cap (lc_sessions C) (sv_sessions s) = non_zero (sc_max_sessions cfg) \<and>
     vr (rs_routes (sv_routes s)) \<and> lru_cap (lc_routes C) (rs_routes (sv_routes s)) = DEFAULT_LRU_SIZE \<and>
     vg (sv_seen s) \<and> lru_cap (lc_seen C) (sv_seen s) = DEFAULT_LRU_SIZE \<and>
     vp (sv_snapshots s) \<and> lru_cap (lc_snapshots C) (sv_snapshots s) = DEFAULT_LRU_SIZE \<and>
     vo (sv_oversized s) \<and> lru_cap (lc_oversized C) (sv_oversized s) = non_zero (sc_max_sessions cfg)"

text \<open>
  The maps hold one entry per key, running tasks have distinct numbers below the next one, and a
  response is stashed only in a started stream that has not ended.
\<close>

definition slot_typed :: "open_stream_slot \<Rightarrow> bool" where
  "slot_typed slot \<longleftrightarrow> (sl_pending_response slot \<noteq> None \<longrightarrow> sl_has_started slot \<and> \<not> sl_terminated slot)"

definition maps_typed :: "('s, 'r, 'g, 'p, 'o) server \<Rightarrow> bool" where
  "maps_typed s \<longleftrightarrow> keys_ok (sv_wrap_kinds s) \<and> keys_ok (sv_slots s) \<and> keys_ok (sv_token_to_event s) \<and>
     keys_ok (sv_tasks s) \<and> (\<forall>n \<in> fst ` set (sv_tasks s). n < sv_next s) \<and>
     (\<forall>slot \<in> snd ` set (sv_slots s). slot_typed slot)"

section \<open>Typing\<close>

lemma caches_typed_frame:
  "sv_sessions s' = sv_sessions s \<Longrightarrow> rs_routes (sv_routes s') = rs_routes (sv_routes s) \<Longrightarrow>
    sv_seen s' = sv_seen s \<Longrightarrow> sv_snapshots s' = sv_snapshots s \<Longrightarrow> sv_oversized s' = sv_oversized s \<Longrightarrow>
    caches_typed vs vr vg vp vo C cfg s' = caches_typed vs vr vg vp vo C cfg s"
  by (simp add: caches_typed_def)

context server_caches
begin

lemma typed_new: "caches_typed vs vr vg vp vo C cfg (server_new C cfg)"
  by (simp add: caches_typed_def server_new_def with_capacity_def with_max_routes_def ses.new_valid ses.new_cap
      rts.new_valid rts.new_cap seen.new_valid seen.new_cap snaps.new_valid snaps.new_cap ovs.new_valid
      ovs.new_cap non_zero_def DEFAULT_LRU_SIZE_def)

lemma typed_modify_session:
  "caches_typed vs vr vg vp vo C cfg s \<Longrightarrow>
    caches_typed vs vr vg vp vo C cfg (s\<lparr>sv_sessions := lru_modify (lc_sessions C) (sv_sessions s) k f\<rparr>)"
  by (simp add: caches_typed_def ses.modify_valid ses.modify_cap)

lemma typed_ensure_session:
  "caches_typed vs vr vg vp vo C cfg s \<Longrightarrow> caches_typed vs vr vg vp vo C cfg (ensure_session C cfg now env s)"
  by (simp add: caches_typed_def server_frame ensure_session_sessions ses.get_or_create_keeps)

lemma typed_settle_session:
  assumes "caches_typed vs vr vg vp vo C cfg s"
  shows "caches_typed vs vr vg vp vo C cfg (settle_session C cfg now env session s)"
  unfolding settle_session_def Let_def by (rule typed_modify_session [OF typed_ensure_session [OF assms]])

lemma typed_emit:
  "caches_typed vs vr vg vp vo C cfg (emit x s) = caches_typed vs vr vg vp vo C cfg s"
  by (rule caches_typed_frame) (simp_all add: server_frame)

lemma typed_dispatch:
  "caches_typed vs vr vg vp vo C cfg (dispatch_inbound cfg' r ctx s) = caches_typed vs vr vg vp vo C cfg s"
  by (rule caches_typed_frame) (simp_all add: server_frame)

lemma typed_register:
  assumes "caches_typed vs vr vg vp vo C cfg s" "sv_sessions s' = sv_sessions s"
    "sv_routes s' = register_route (lc_routes C) (sv_routes s) now e c i t" "sv_seen s' = sv_seen s"
    "sv_snapshots s' = sv_snapshots s" "sv_oversized s' = sv_oversized s"
  shows "caches_typed vs vr vg vp vo C cfg s'"
  using assms by (simp add: caches_typed_def register_route_routes rts.put_valid rts.put_cap)

lemma typed_reserve:
  assumes "caches_typed vs vr vg vp vo C cfg s"
  shows "caches_typed vs vr vg vp vo C cfg (reserve_request C N cfg' now event env i pt wt s)"
  by (rule typed_register [OF assms]) (simp_all add: server_frame)

lemma typed_refuse_unauthorized:
  assumes "caches_typed vs vr vg vp vo C cfg s"
  shows "caches_typed vs vr vg vp vo C cfg (refuse_unauthorized C N cfg' event env m s)"
  using assms typed_modify_session [OF assms]
  by (simp add: refuse_unauthorized_def mark_common_tags_sent_def typed_emit Let_def split: json_rpc_message.split)

lemma typed_handle_message:
  assumes "caches_typed vs vr vg vp vo C cfg s"
  shows "caches_typed vs vr vg vp vo C cfg (handle_message X C N cfg' now event env ctx m s)"
  using assms typed_modify_session [OF assms]
  by (simp add: handle_message_def mark_initialized_def typed_dispatch typed_reserve Let_def
      split: json_rpc_message.split)

lemma typed_feed_oversized:
  assumes "caches_typed vs vr vg vp vo C cfg s"
  shows "caches_typed vs vr vg vp vo C cfg (fst (feed_oversized X C cfg' now k f b t s))"
  using assms
  by (auto simp: feed_oversized_def Let_def caches_typed_def ovs.put_valid ovs.put_cap ovs.modify_valid
      ovs.modify_cap split: prod.split)

lemma typed_handle_oversized:
  assumes "caches_typed vs vr vg vp vo C cfg s"
  shows "caches_typed vs vr vg vp vo C cfg (handle_oversized_frame X C N cfg' now event env ctx f b s)"
proof -
  define t where "t = frame_token X f"
  define ia where "ia = (is_start_frame f \<and> \<not> b \<and> t \<noteq> None)"
  define s1 where "s1 = (case t of Some t \<Rightarrow> if ia then emit_accept_frame N cfg' event env t s else s | None \<Rightarrow> s)"
  obtain s2 r where f: "feed_oversized X C cfg' now (en_sender env) f ia t s1 = (s2, r)" by fastforce
  have "caches_typed vs vr vg vp vo C cfg s1"
    using assms by (simp add: s1_def emit_accept_frame_def typed_emit split: option.split)
  then have "caches_typed vs vr vg vp vo C cfg s2"
    using typed_feed_oversized [of cfg s1 X cfg' now "en_sender env" f ia t] f by simp
  then show ?thesis
    unfolding handle_oversized_frame_def Let_def t_def [symmetric] ia_def [symmetric] s1_def [symmetric] f
    by (simp add: typed_dispatch typed_reserve split: sum.split option.split)
qed

lemma typed_inbound:
  assumes "caches_typed vs vr vg vp vo C cfg s"
  shows "caches_typed vs vr vg vp vo C cfg (inbound_event X C N cfg now event s)"
proof (cases rule: receive_event_cases [of C N cfg event s])
  case dropped
  then show ?thesis using assms by (simp add: inbound_event_def)
next
  case (passed inner seen')
  let ?s1 = "s\<lparr>sv_seen := seen'\<rparr>" and ?env = "open_envelope (is_gift_wrap event) inner"
  have "caches_typed vs vr vg vp vo C cfg ?s1"
    using passed(1) assms by (auto simp: opened_def caches_typed_def seen.put_valid seen.put_cap split: if_splits)
  moreover have "caches_typed vs vr vg vp vo C cfg s'"
    if "handle_authorized X C N cfg now event ?env m ?s1 = Returned s'" "caches_typed vs vr vg vp vo C cfg ?s1" for m s'
    using that(1) typed_settle_session [OF that(2), of now ?env]
    by (cases rule: handle_authorized_cases)
      (simp_all add: refuse_unsupported_def typed_emit typed_handle_message typed_handle_oversized)
  moreover have "caches_typed vs vr vg vp vo C cfg ((ensure_session C cfg now ?env ?s1)\<lparr>sv_event_loop := False\<rparr>)"
    if "caches_typed vs vr vg vp vo C cfg ?s1"
    using typed_ensure_session [OF that, of now ?env]
      caches_typed_frame [of "(ensure_session C cfg now ?env ?s1)\<lparr>sv_event_loop := False\<rparr>" "ensure_session C cfg now ?env ?s1"]
    by simp
  ultimately show ?thesis
    using assms passed(2) typed_refuse_unauthorized
    by (auto simp: inbound_event_def split: option.split call.split)
qed

lemma typed_session_answer:
  "caches_typed vs vr vg vp vo C cfg s \<Longrightarrow>
    caches_typed vs vr vg vp vo C cfg (fst (session_answer C cfg' c e r s))"
  by (auto simp: session_answer_def typed_modify_session split: option.split prod.split)

lemma typed_spawn:
  "caches_typed vs vr vg vp vo C cfg (spawn_server t s) = caches_typed vs vr vg vp vo C cfg s"
  by (rule caches_typed_frame) (simp_all add: server_frame)

lemma typed_reinsert:
  "caches_typed vs vr vg vp vo C cfg s \<Longrightarrow>
    caches_typed vs vr vg vp vo C cfg (reinsert_payment_route_snapshot C e p s)"
  by (simp add: reinsert_payment_route_snapshot_def caches_typed_def snaps.put_valid snaps.put_cap)

lemma typed_send_deferred:
  assumes "caches_typed vs vr vg vp vo C cfg s"
  shows "caches_typed vs vr vg vp vo C cfg (fst (send_deferred C N cfg' e snap r payment s))"
proof (cases "nx_event_id_ok N e")
  case True
  then show ?thesis
    using typed_session_answer [OF assms, of cfg' "rsn_client_pubkey snap" e
        "restore_id (rsn_original_request_id snap) r"]
    by (simp add: send_deferred_def Let_def typed_spawn typed_emit case_prod_unfold)
qed (use assms in \<open>simp add: send_deferred_def Let_def typed_reinsert split: option.split\<close>)

lemma typed_send_routed:
  assumes "caches_typed vs vr vg vp vo C cfg s"
  shows "caches_typed vs vr vg vp vo C cfg (fst (send_routed X C N cfg' e route r m s))"
  using assms typed_session_answer [OF assms, of cfg' "rt_client_pubkey route" e
      "restore_id (rt_original_request_id route) r"]
  by (simp add: send_routed_def Let_def typed_spawn typed_emit case_prod_unfold split: option.split)

lemma typed_take_snapshot:
  "caches_typed vs vr vg vp vo C cfg s \<Longrightarrow>
    caches_typed vs vr vg vp vo C cfg (fst (take_payment_route_snapshot C e s))"
  using snaps.pop_valid [of "sv_snapshots s" e] snaps.pop_cap [of "sv_snapshots s" e]
  by (auto simp: take_payment_route_snapshot_def caches_typed_def split: prod.split)

lemma remove_routes_cap:
  "lru_cap (lc_routes C) (rs_routes (remove_routes (lc_routes C) keys st)) = lru_cap (lc_routes C) (rs_routes st)"
  by (rule rts.remove_routes_cap)

lemma typed_pop_route:
  assumes "caches_typed vs vr vg vp vo C cfg s" "pop_route (lc_routes C) (sv_routes s) e = (st, popped)"
  shows "caches_typed vs vr vg vp vo C cfg (s\<lparr>sv_routes := st\<rparr>)"
  using assms rts.remove_route_peek(1) [of "sv_routes s" e] rts.remove_route_cap [of "sv_routes s" e]
  by (simp add: caches_typed_def pop_route_def)

lemma typed_try_defer:
  assumes "caches_typed vs vr vg vp vo C cfg s" "try_defer_open_stream_response e r s = (s', d)"
  shows "caches_typed vs vr vg vp vo C cfg s'"
  using assms(1) caches_typed_frame [of s' s] try_defer_frame [OF assms(2)] by simp

lemma typed_send_response:
  assumes "caches_typed vs vr vg vp vo C cfg s"
  shows "caches_typed vs vr vg vp vo C cfg (fst (send_response X C N cfg' e r m s))"
proof -
  obtain s1 entry where t: "take_payment_route_snapshot C e s = (s1, entry)" by fastforce
  then have s1: "caches_typed vs vr vg vp vo C cfg s1" using typed_take_snapshot [OF assms, of e] by simp
  obtain s2 d where d: "(if sc_open_stream_enabled cfg' then try_defer_open_stream_response e r s1
      else (s1, Passthrough)) = (s2, d)" by fastforce
  then have s2: "caches_typed vs vr vg vp vo C cfg s2" using s1 typed_try_defer by (auto split: if_splits)
  obtain st popped where p: "pop_route (lc_routes C) (sv_routes s2) e = (st, popped)" by fastforce
  have s3: "caches_typed vs vr vg vp vo C cfg (s2\<lparr>sv_routes := st\<rparr>)" by (rule typed_pop_route [OF s2 p])
  show ?thesis
    using t d p s2 s3 typed_send_deferred [OF s2] typed_send_deferred [OF s3] typed_send_routed [OF s3]
    by (simp add: send_response_def Let_def split: open_stream_deferral.split option.split)
qed

lemma typed_publish_notification:
  assumes "caches_typed vs vr vg vp vo C cfg s"
  shows "caches_typed vs vr vg vp vo C cfg (fst (publish_notification C N cfg' k c e n s))"
  using assms typed_modify_session [OF assms]
  by (auto simp: publish_notification_def Let_def typed_emit split: option.split prod.split)

lemma typed_broadcast:
  assumes "caches_typed vs vr vg vp vo C cfg s"
  shows "caches_typed vs vr vg vp vo C cfg (broadcast_notification C N cfg' n s)"
proof -
  have "caches_typed vs vr vg vp vo C cfg
      (fold (\<lambda>pubkey s. fst (send_notification C N cfg' pubkey n None s)) keys s)" for keys
    using assms by (induction keys arbitrary: s) (simp_all add: send_notification_def typed_publish_notification)
  then show ?thesis by (simp add: broadcast_notification_def)
qed

lemma typed_record:
  assumes "caches_typed vs vr vg vp vo C cfg s"
  shows "caches_typed vs vr vg vp vo C cfg (record_payment_route_snapshot C now e snap x s)"
proof -
  let ?c = "sv_snapshots s"
  have set: "caches_typed vs vr vg vp vo C cfg (s\<lparr>sv_snapshots := c\<rparr>)"
    if "vp c" "lru_cap (lc_snapshots C) c = lru_cap (lc_snapshots C) ?c" for c
    using assms that by (simp add: caches_typed_def)
  have v: "vp ?c" using assms by (simp add: caches_typed_def)
  have put: "caches_typed vs vr vg vp vo C cfg (s\<lparr>sv_snapshots := lru_put (lc_snapshots C) c k p\<rparr>)"
    if "vp c" "lru_cap (lc_snapshots C) c = lru_cap (lc_snapshots C) ?c" for c k p
    by (rule set) (use that in \<open>simp_all add: snaps.put_valid snaps.put_cap\<close>)
  have "caches_typed vs vr vg vp vo C cfg
      (s\<lparr>sv_snapshots := lru_put (lc_snapshots C) (fst (lru_pop (lc_snapshots C) ?c key)) k p\<rparr>)" for key k p
    by (rule put) (simp_all add: snaps.pop_valid [OF v] snaps.pop_cap)
  moreover have "caches_typed vs vr vg vp vo C cfg (s\<lparr>sv_snapshots := lru_peek_mut (lc_snapshots C) ?c k f\<rparr>)" for k f
    by (rule set) (simp_all add: snaps.peek_mut_valid [OF v] snaps.peek_mut_cap)
  ultimately show ?thesis
    using assms put [OF v refl]
    by (simp add: record_payment_route_snapshot_def Let_def split: option.split prod.split)
qed

lemma typed_cleanup:
  assumes "caches_typed vs vr vg vp vo C cfg s"
  shows "caches_typed vs vr vg vp vo C cfg (cleanup_tick C cfg' now s)"
proof -
  have pop: "vs (fst (pop_expired (lc_sessions C) keys c)) \<and>
      lru_cap (lc_sessions C) (fst (pop_expired (lc_sessions C) keys c)) = lru_cap (lc_sessions C) c"
    if "vs c" for keys c
    using that
  proof (induction keys arbitrary: c)
    case (Cons key keys)
    obtain c1 x where p: "lru_pop (lc_sessions C) c key = (c1, x)" by fastforce
    obtain c2 st n where q: "pop_expired (lc_sessions C) keys c1 = (c2, st, n)" by (rule prod_cases3)
    have "vs c1" "lru_cap (lc_sessions C) c1 = lru_cap (lc_sessions C) c"
      using ses.pop_valid [OF Cons.prems, of key] ses.pop_cap [of c key] p by simp_all
    then show ?case using Cons.IH [of c1] p q by (simp split: option.split)
  qed simp
  let ?keys = "map fst (filter (\<lambda>(k, session).
      sc_session_timeout cfg' < duration_since now (cs_last_activity session))
        (lru_iter (lc_sessions C) (sv_sessions s)))"
  obtain c stale n where p: "pop_expired (lc_sessions C) ?keys (sv_sessions s) = (c, stale, n)"
    by (rule prod_cases3)
  have "vs c \<and> lru_cap (lc_sessions C) c = lru_cap (lc_sessions C) (sv_sessions s)"
    using pop [of "sv_sessions s" ?keys] assms unfolding p by (simp add: caches_typed_def)
  then show ?thesis
    using assms p
    by (simp add: cleanup_tick_def cleanup_sessions_def sweep_stale_routes_def purge_payment_snapshots_def
        caches_typed_def Let_def rts.remove_routes_valid rts.remove_routes_cap snaps.pop_all_valid snaps.pop_all_cap)
qed

lemma typed_sweep:
  assumes "caches_typed vs vr vg vp vo C cfg s"
  shows "caches_typed vs vr vg vp vo C cfg (sweep_oversized_receivers C now s)"
proof -
  have "vo (fold (\<lambda>peer c. lru_peek_mut (lc_oversized C) c peer f) peers c) \<and>
      lru_cap (lc_oversized C) (fold (\<lambda>peer c. lru_peek_mut (lc_oversized C) c peer f) peers c) =
        lru_cap (lc_oversized C) c" if "vo c" for f peers c
    using that by (induction peers arbitrary: c) (simp_all add: ovs.peek_mut_valid ovs.peek_mut_cap)
  then show ?thesis
    using assms by (simp add: sweep_oversized_receivers_def Let_def caches_typed_def ovs.pop_all_valid ovs.pop_all_cap)
qed

lemma typed_step:
  assumes "caches_typed vs vr vg vp vo C cfg s"
  shows "caches_typed vs vr vg vp vo C cfg (server_step X C N cfg s ev)"
proof (cases ev)
  case (Chain_Forwards n m b)
  have "caches_typed vs vr vg vp vo C cfg (chain_forward n run m b s)" for run
    using assms caches_typed_frame [of "chain_forward n run m b s" s]
    by (simp add: chain_forward_def mark_forwarded_def Let_def server_frame)
  then show ?thesis using Chain_Forwards assms by (simp split: option.split server_task.split)
next
  case (Chain_Ends n)
  have "caches_typed vs vr vg vp vo C cfg (chain_end C n run s)" for run
  proof -
    let ?e = "in_event_id (cr_incoming run)"
    obtain st popped where p: "pop_route (lc_routes C) (sv_routes s) ?e = (st, popped)" by fastforce
    obtain s1 where s1: "chain_end C n run s =
        (case leave_chain ?e s1 of (s2, None) \<Rightarrow> s2 | (s2, Some slot) \<Rightarrow> drop_token slot s2)"
        "rs_routes (sv_routes s1) \<in> {rs_routes (sv_routes s), rs_routes st}"
        "sv_sessions s1 = sv_sessions s" "sv_seen s1 = sv_seen s" "sv_snapshots s1 = sv_snapshots s"
        "sv_oversized s1 = sv_oversized s"
      using p by (auto simp: chain_end_def Let_def)
    have "caches_typed vs vr vg vp vo C cfg s1"
      using s1 assms typed_pop_route [OF assms p] by (auto simp: caches_typed_def)
    moreover have "caches_typed vs vr vg vp vo C cfg (fst (leave_chain ?e s1)) = caches_typed vs vr vg vp vo C cfg s1"
      by (rule caches_typed_frame) (simp_all add: leave_chain_def Let_def split: option.split)
    moreover have "caches_typed vs vr vg vp vo C cfg (drop_token x s2) = caches_typed vs vr vg vp vo C cfg s2" for x s2
      by (rule caches_typed_frame) (simp_all add: server_frame)
    ultimately show ?thesis unfolding s1(1) by (auto split: prod.split option.split)
  qed
  then show ?thesis using Chain_Ends assms by (simp split: option.split server_task.split)
next
  case (Publish_Result now n ok)
  have t: "caches_typed vs vr vg vp vo C cfg (s\<lparr>sv_tasks := ts\<rparr>)" for ts
    using assms caches_typed_frame [of "s\<lparr>sv_tasks := ts\<rparr>" s] by simp
  have "caches_typed vs vr vg vp vo C cfg (response_published C now e route ok (s\<lparr>sv_tasks := ts\<rparr>))" for e route ts
    using t [of ts] typed_register [OF t [of ts]]
      typed_modify_session [OF t [of ts], of "rt_client_pubkey route" "forget_request e (rt_progress_token route)"]
      caches_typed_frame [of "s\<lparr>sv_tasks := ts, sv_wrap_kinds := w, sv_sessions := x\<rparr>"
        "s\<lparr>sv_tasks := ts, sv_sessions := x\<rparr>" for w x]
    by (auto simp: response_published_def)
  moreover have "caches_typed vs vr vg vp vo C cfg (deferred_published C e payment ok (s\<lparr>sv_tasks := ts\<rparr>))" for e payment ts
    using t [of ts] by (simp add: deferred_published_def typed_reinsert split: option.split)
  ultimately show ?thesis using Publish_Result assms by (simp add: Let_def split: option.split server_task.split)
next
  case (Writer_Starts e)
  then show ?thesis
    using assms caches_typed_frame [of "update_slot e (\<lambda>slot. slot\<lparr>sl_has_started := True\<rparr>) s" s]
    by (simp add: server_frame)
next
  case (Stream_Ends e)
  have "caches_typed vs vr vg vp vo C cfg (drop_token slot (s\<lparr>sv_slots := m\<rparr>))"
    "caches_typed vs vr vg vp vo C cfg (s\<lparr>sv_slots := m\<rparr>)" for slot m
    using assms caches_typed_frame [of "drop_token slot (s\<lparr>sv_slots := m\<rparr>)" s]
      caches_typed_frame [of "s\<lparr>sv_slots := m\<rparr>" s]
    by (simp_all add: server_frame)
  then show ?thesis
    using Stream_Ends assms
    by (simp add: flush_open_stream_response_def typed_send_deferred split: option.split)
next
  case (Targeted_Response c e r)
  then show ?thesis
    using assms typed_session_answer [OF assms, of cfg c e r]
    by (simp add: send_targeted_response_def publish_targeted_response_def typed_emit case_prod_unfold Let_def
        split: option.split)
next
  case (Payment_Notification now ttl c e k n)
  then show ?thesis
    using assms typed_record [OF assms]
    by (simp add: payment_notification_sender_def Let_def typed_publish_notification split: option.split)
next
  case (Client_Silent c)
  have "vs (fst (lru_pop (lc_sessions C) (sv_sessions s) c))"
    "lru_cap (lc_sessions C) (fst (lru_pop (lc_sessions C) (sv_sessions s) c)) =
      lru_cap (lc_sessions C) (sv_sessions s)"
    using assms by (simp_all add: caches_typed_def ses.pop_valid ses.pop_cap)
  then show ?thesis
    using Client_Silent assms
    by (simp add: release_silent_client_def remove_session_def caches_typed_def Let_def case_prod_unfold)
next
  case (Close_Server d)
  then show ?thesis
    using assms
    by (simp add: close_server_def caches_typed_def clear_sessions_def clear_routes_def ses.clear_valid ses.clear_cap
        rts.clear_valid rts.clear_cap snaps.clear_valid snaps.clear_cap ovs.clear_valid ovs.clear_cap)
qed (simp_all add: assms typed_inbound typed_send_response typed_broadcast typed_cleanup typed_sweep
    send_notification_def typed_publish_notification)

end

section \<open>Maps and tasks\<close>

lemma maps_typed_frame:
  "sv_wrap_kinds s' = sv_wrap_kinds s \<Longrightarrow> sv_slots s' = sv_slots s \<Longrightarrow> sv_token_to_event s' = sv_token_to_event s \<Longrightarrow>
    sv_tasks s' = sv_tasks s \<Longrightarrow> sv_next s' = sv_next s \<Longrightarrow> maps_typed s' = maps_typed s"
  by (simp add: maps_typed_def)

lemma maps_touches: "touches s s' \<Longrightarrow> maps_typed s \<Longrightarrow> maps_typed s'"
  using maps_typed_frame [of s' s] by (simp add: touches_def)

lemma maps_wrap_kinds:
  "maps_typed s \<Longrightarrow> keys_ok w \<Longrightarrow> maps_typed (s\<lparr>sv_wrap_kinds := w\<rparr>)"
  by (simp add: maps_typed_def)

lemma maps_delete_slot: "maps_typed s \<Longrightarrow> maps_typed (s\<lparr>sv_slots := AList.delete e (sv_slots s)\<rparr>)"
  by (auto simp: maps_typed_def dest: set_delete_subset [THEN subsetD])

lemma maps_update_slot:
  assumes "maps_typed s" "slot_typed slot"
  shows "maps_typed (s\<lparr>sv_slots := AList.update e slot (sv_slots s)\<rparr>)"
  using assms by (auto simp: maps_typed_def dest!: set_update_subset [THEN subsetD])

lemma maps_slot:
  assumes "maps_typed s" "map_of (sv_slots s) e = Some slot"
  shows "slot_typed slot"
  using assms map_of_SomeD [OF assms(2)] by (force simp: maps_typed_def)

lemma maps_update_slot_fun:
  "maps_typed s \<Longrightarrow> (\<And>slot. slot_typed slot \<Longrightarrow> slot_typed (f slot)) \<Longrightarrow> maps_typed (update_slot e f s)"
  by (auto simp: update_slot_def split: option.split intro: maps_update_slot dest: maps_slot)

lemma maps_drop_token: "maps_typed s \<Longrightarrow> maps_typed (drop_token slot s)"
  by (simp add: maps_typed_def drop_token_def)

lemma maps_spawn: "maps_typed s \<Longrightarrow> maps_typed (spawn_server t s)"
  by (force simp: maps_typed_def server_frame keys_ok_def)

lemma maps_delete_task: "maps_typed s \<Longrightarrow> maps_typed (s\<lparr>sv_tasks := AList.delete n (sv_tasks s)\<rparr>)"
  by (force simp: maps_typed_def dest: set_delete_subset [THEN subsetD])

lemma maps_update_task:
  assumes "maps_typed s" "map_of (sv_tasks s) n = Some t"
  shows "maps_typed (s\<lparr>sv_tasks := AList.update n t' (sv_tasks s)\<rparr>)"
proof -
  have "n < sv_next s" using assms map_of_SomeD [OF assms(2)] by (force simp: maps_typed_def)
  then show ?thesis
    using assms(1) by (auto simp: maps_typed_def dest!: set_update_subset [THEN subsetD])
qed

lemma maps_emit: "maps_typed (emit x s) = maps_typed s"
  by (rule maps_typed_frame) (simp_all add: server_frame)

lemma maps_routes [simp]:
  "maps_typed (s\<lparr>sv_routes := r\<rparr>) = maps_typed s" "maps_typed (s\<lparr>sv_sessions := c\<rparr>) = maps_typed s"
  "maps_typed (s\<lparr>sv_snapshots := p\<rparr>) = maps_typed s"
  by (simp_all add: maps_typed_def)

lemma slot_typed_simps [simp]:
  "slot_typed (slot\<lparr>sl_live_chains := n\<rparr>) = slot_typed slot" "slot_typed (slot\<lparr>sl_forwarded := b\<rparr>) = slot_typed slot"
  "slot_typed slot \<Longrightarrow> slot_typed (slot\<lparr>sl_has_started := True\<rparr>)"
  by (auto simp: slot_typed_def)

lemma maps_dispatch: "maps_typed s \<Longrightarrow> maps_typed (dispatch_inbound cfg r ctx s)"
  by (simp add: dispatch_inbound_def enter_chain_def Let_def maps_emit maps_spawn maps_update_slot_fun)

lemma maps_create_writer:
  assumes "maps_typed s"
  shows "maps_typed (create_open_stream_writer N e c t i b k s)"
proof -
  have "maps_typed (s\<lparr>sv_slots := AList.update e slot (sv_slots s), sv_token_to_event := AList.update x e (sv_token_to_event s)\<rparr>)"
    if "slot_typed slot" for slot x
    using maps_update_slot [OF assms that, of e] by (simp add: maps_typed_def)
  then show ?thesis using assms by (simp add: create_open_stream_writer_def slot_typed_def)
qed

lemma maps_reserve:
  assumes "maps_typed s"
  shows "maps_typed (reserve_request C N cfg now event env i pt wt s)"
proof -
  have "maps_typed (s\<lparr>sv_wrap_kinds := AList.update x k (sv_wrap_kinds s), sv_routes := r\<rparr>)" for x k r
    using assms by (simp add: maps_typed_def)
  then show ?thesis by (simp add: reserve_request_def Let_def maps_create_writer split: option.split)
qed

lemma maps_inbound:
  assumes "maps_typed s"
  shows "maps_typed (inbound_event X C N cfg now event s)"
proof -
  obtain s2 where "touches s s2" "inbound_event X C N cfg now event s = s2 \<or>
      (\<exists>env. admits C N cfg now event env s2 (inbound_event X C N cfg now event s))"
    using inbound_event_shape [of s X C N cfg now event] by blast
  then show ?thesis
    using maps_touches [OF _ assms, of s2] by (auto simp: admits_def maps_dispatch maps_reserve)
qed

lemma maps_send_deferred:
  assumes "maps_typed s"
  shows "maps_typed (fst (send_deferred C N cfg e snap r payment s))"
  using assms maps_touches [OF session_answer_touches assms]
  by (simp add: send_deferred_def Let_def case_prod_unfold maps_spawn maps_emit reinsert_payment_route_snapshot_def
      split: option.split)

lemma maps_send_routed:
  assumes "maps_typed s"
  shows "maps_typed (fst (send_routed X C N cfg e route r m s))"
  using assms maps_touches [OF session_answer_touches assms]
  by (simp add: send_routed_def Let_def case_prod_unfold maps_spawn maps_emit split: option.split)

lemma maps_try_defer:
  assumes "maps_typed s"
  shows "maps_typed (fst (try_defer_open_stream_response e r s))"
proof (cases "map_of (sv_slots s) e")
  case (Some slot)
  have "maps_typed (s\<lparr>sv_slots := AList.update e (slot\<lparr>sl_pending_response := Some r\<rparr>) (sv_slots s)\<rparr>)"
    if "sl_has_started slot" "\<not> sl_terminated slot"
    by (rule maps_update_slot [OF assms]) (use that in \<open>simp add: slot_typed_def\<close>)
  then show ?thesis
    using Some maps_drop_token [OF maps_delete_slot [OF assms]]
    by (simp add: try_defer_open_stream_response_def Let_def)
qed (simp add: try_defer_open_stream_response_def assms)

lemma maps_send_response:
  assumes "maps_typed s"
  shows "maps_typed (fst (send_response X C N cfg e r m s))"
proof -
  obtain s1 entry where t: "take_payment_route_snapshot C e s = (s1, entry)" by fastforce
  then have s1: "maps_typed s1" using assms by (auto simp: take_payment_route_snapshot_def split: prod.splits)
  obtain s2 d where d: "(if sc_open_stream_enabled cfg then try_defer_open_stream_response e r s1
      else (s1, Passthrough)) = (s2, d)" by fastforce
  then have s2: "maps_typed s2" using s1 maps_try_defer [OF s1, of e r] by (auto split: if_splits)
  obtain st popped where p: "pop_route (lc_routes C) (sv_routes s2) e = (st, popped)" by fastforce
  have s3: "maps_typed (s2\<lparr>sv_routes := st\<rparr>)" using s2 by simp
  show ?thesis
    using t d p s2 s3 maps_send_deferred [OF s2] maps_send_deferred [OF s3] maps_send_routed [OF s3]
    by (simp add: send_response_def Let_def split: open_stream_deferral.split option.split)
qed

lemma maps_chain_end:
  assumes "maps_typed s"
  shows "maps_typed (chain_end C n run s)"
proof -
  let ?e = "in_event_id (cr_incoming run)"
  let ?s0 = "s\<lparr>sv_tasks := AList.delete n (sv_tasks s)\<rparr>"
  have s0: "maps_typed ?s0" by (rule maps_delete_task [OF assms])
  have k: "keys_ok (AList.delete ?e (sv_wrap_kinds s))" using assms by (simp add: maps_typed_def)
  obtain s1 where s1: "maps_typed s1" "chain_end C n run s =
      (case leave_chain ?e s1 of (s2, None) \<Rightarrow> s2 | (s2, Some slot) \<Rightarrow> drop_token slot s2)"
  proof (cases "cr_reached run")
    case True
    then show thesis using that [OF s0] by (simp add: chain_end_def Let_def)
  next
    case False
    obtain st popped where p: "pop_route (lc_routes C) (sv_routes s) ?e = (st, popped)" by fastforce
    let ?w = "if popped \<noteq> None then AList.delete ?e (sv_wrap_kinds s) else sv_wrap_kinds s"
    have "maps_typed (?s0\<lparr>sv_routes := st, sv_wrap_kinds := ?w\<rparr>)"
      using s0 k by (simp add: maps_typed_def)
    then show thesis using that False p by (simp add: chain_end_def Let_def)
  qed
  have "maps_typed (fst (leave_chain ?e s1))"
    using s1(1) maps_delete_slot [OF s1(1)]
    by (auto simp: leave_chain_def Let_def split: option.split intro!: maps_update_slot dest: maps_slot)
  then show ?thesis unfolding s1(2) by (auto split: prod.split option.split intro: maps_drop_token)
qed

lemma maps_step:
  assumes "maps_typed s"
  shows "maps_typed (server_step X C N cfg s ev)"
proof (cases ev)
  case (Chain_Forwards n m b)
  then show ?thesis
    using assms maps_update_task [OF assms]
    by (simp add: chain_forward_def mark_forwarded_def Let_def maps_emit maps_update_slot_fun
        split: option.split server_task.split)
next
  case (Publish_Result now n ok)
  then show ?thesis
    using assms maps_delete_task [OF assms, of n]
    by (simp add: Let_def response_published_def deferred_published_def reinsert_payment_route_snapshot_def
        maps_wrap_kinds maps_typed_def [of s] split: option.split server_task.split)
next
  case (Stream_Ends e)
  have "maps_typed (s\<lparr>sv_slots := AList.update e (slot\<lparr>sl_terminated := True\<rparr>) (sv_slots s)\<rparr>)"
    if "sl_pending_response slot = None" for slot
    by (rule maps_update_slot [OF assms]) (simp add: slot_typed_def that)
  then show ?thesis
    using Stream_Ends assms maps_send_deferred [OF maps_drop_token [OF maps_delete_slot [OF assms]]]
    by (simp add: flush_open_stream_response_def split: option.split)
next
  case (Payment_Notification now ttl c e k n)
  have "maps_typed (record_payment_route_snapshot C now e snap x s)" for snap x
    using assms by (simp add: record_payment_route_snapshot_def Let_def split: option.split prod.split)
  then show ?thesis
    using Payment_Notification assms
    by (simp add: payment_notification_sender_def Let_def maps_touches [OF publish_notification_touches]
        split: option.split)
next
  case (Cleanup now)
  have "keys_ok (fold AList.delete keys w)" if "keys_ok w" for keys and w :: "(string \<times> u16 option) list"
    using that by (induction keys arbitrary: w) simp_all
  then show ?thesis
    using Cleanup assms
    by (simp add: cleanup_tick_def cleanup_sessions_def purge_payment_snapshots_def Let_def maps_typed_def
        split: prod.split)
next
  case (Close_Server d)
  then show ?thesis using assms by (simp add: close_server_def maps_typed_def keys_ok_def)
qed (simp_all add: assms maps_inbound maps_chain_end maps_send_response maps_update_slot_fun
    maps_touches [OF send_targeted_response_touches assms] maps_touches [OF send_notification_touches assms]
    maps_touches [OF broadcast_touches assms] maps_touches [OF sweep_oversized_touches assms]
    maps_touches [OF release_silent_touches assms] split: option.split server_task.split)

section \<open>Histories\<close>

lemma run_snoc: "server_run X C N cfg (evs @ [ev]) = server_step X C N cfg (server_run X C N cfg evs) ev"
  by (simp add: server_run_def)

context server_caches
begin

lemma run_typed: "caches_typed vs vr vg vp vo C cfg (server_run X C N cfg evs) \<and> maps_typed (server_run X C N cfg evs)"
proof (induction evs rule: rev_induct)
  case Nil
  show ?case using typed_new by (simp add: server_run_def maps_typed_def server_new_def keys_ok_def)
next
  case (snoc ev evs)
  then show ?case using typed_step maps_step unfolding run_snoc by blast
qed

lemma run_correlated:
  assumes "\<And>event. nx_verify N event \<Longrightarrow> ev_pubkey event = owner (ev_id event)"
    "\<And>now ttl client e k n. Payment_Notification now ttl client e k n \<in> set evs \<Longrightarrow> client = owner e"
  shows "correlated owner C (server_run X C N cfg evs)"
  using assms(2)
proof (induction evs rule: rev_induct)
  case Nil
  show ?case
    by (simp add: correlated_def server_run_def server_new_def origin_def traced_def admitted_def with_max_routes_def
        rts.new_peek snaps.new_peek)
next
  case (snoc ev evs)
  let ?s = "server_run X C N cfg evs"
  have v: "vr (rs_routes (sv_routes ?s))" "vp (sv_snapshots ?s)"
    using run_typed [of cfg X N evs] by (simp_all add: caches_typed_def)
  have "client = owner e" if "Payment_Notification now ttl client e k n \<in> set evs" for now ttl client e k n
    using snoc.prems [of now ttl client e k n] that by simp
  then have c: "correlated owner C ?s" by (rule snoc.IH)
  have pay: "client = owner e" if "ev = Payment_Notification now ttl client e k n" for now ttl client e k n
    using snoc.prems [of now ttl client e k n] that by simp
  show ?case unfolding run_snoc by (rule server_step_correlated [OF c v]) (erule assms(1), erule pay)
qed

end

section \<open>A concrete history\<close>

definition ping_once :: "(client_session lru_list, route_entry lru_list, unit lru_list,
    payment_route_snapshot lru_list, receiver lru_list) server" where
  "ping_once = server_run ping_ext list_caches demo_nostr demo_server [Inbound 5 (ping_event ''a'')]"

definition ping_result :: json_rpc_message where
  "ping_result = Response \<lparr>rsp_jsonrpc = ''2.0'', rsp_id = JString ''a'', rsp_result = JNull\<rparr>"

lemma ping_once_state:
  "sv_slots ping_once = []" "sv_snapshots ping_once = (5000, [])"
  "get_route list_lru (sv_routes ping_once) ''a'' = Some (new_route 5 ''a'' (JString ''1'') None)"
  "lru_peek list_lru (sv_sessions ping_once) ''a'' \<noteq> None"
  "list_lru_valid (rs_routes (sv_routes ping_once))"
proof -
  let ?s = "server_new list_caches demo_server" and ?env = "open_envelope False (ping_event ''a'')"
  have new: "sv_event_loop ?s" "sv_slots ?s = []" "sv_snapshots ?s = (5000, [])"
      "list_lru_valid (rs_routes (sv_routes ?s))" "list_lru_valid (sv_sessions ?s)"
    by (simp_all add: server_new_def with_capacity_def with_max_routes_def list_caches_def non_zero_def
        DEFAULT_LRU_SIZE_def list_lru.new_valid) (simp add: list_lru_def)
  obtain ctx session where s: "ping_once = handle_message ping_ext list_caches demo_nostr demo_server 5
      (ping_event ''a'') ?env ctx (Request ping_request) (settle_session list_caches demo_server 5 ?env session ?s)"
    using ping_answered [OF new(1) ping_first [of 5 "''a''"]] by (auto simp: ping_once_def server_run_def)
  have env: "en_sender ?env = ''a''" "en_event_id ?env = ''a''" by (simp_all add: open_envelope_def ping_event_def)
  have tok: "request_progress_token ping_ext (Request ping_request) = None"
      "tools_call_token ping_ext (Request ping_request) = None"
    by (simp_all add: request_progress_token_def request_param_def tools_call_token_def ping_request_def)
  show "sv_slots ping_once = []" "sv_snapshots ping_once = (5000, [])"
    unfolding s using new tok
    by (simp_all add: handle_message_def Let_def server_frame reserve_request_def dispatch_inbound_def
        demo_server_def)
  have "sv_routes ping_once = register_route list_lru (sv_routes ?s) 5 ''a'' ''a'' (JString ''1'') None"
    unfolding s handle_message_request env tok by (simp add: server_frame ping_request_def list_caches_def)
  then show "get_route list_lru (sv_routes ping_once) ''a'' = Some (new_route 5 ''a'' (JString ''1'') None)"
    "list_lru_valid (rs_routes (sv_routes ping_once))"
    using list_lru.put_peek_key [OF new(4)] list_lru.put_valid [OF new(4)]
    by (simp_all add: get_route_def register_route_routes)
  have "list_lru_valid (sv_sessions (ensure_session list_caches demo_server 5 ?env ?s))"
    using ensure_session_valid [of list_caches list_lru_valid ?s demo_server 5 ?env] new(5)
      session_list.session_lru_axioms by (simp add: list_caches_def)
  then show "lru_peek list_lru (sv_sessions ping_once) ''a'' \<noteq> None"
    unfolding s handle_message_request env settle_session_def Let_def using ping_first [of 5 "''a''"]
    by (simp add: list_caches_def list_lru.modify_peek list_lru.modify_valid)
qed

lemma ping_sent:
  "\<exists>p. sv_out (server_step ping_ext list_caches demo_nostr demo_server ping_once
        (Send_Response ''a'' ping_result None)) = sv_out ping_once @ [Answered ''a'' p] \<and>
      pb_recipient p = ''a'' \<and> pb_message p = restore_id (JString ''1'') ping_result"
proof -
  obtain st where pop: "pop_route list_lru (sv_routes ping_once) ''a'' = (st, Some (new_route 5 ''a'' (JString ''1'') None))"
    using server_list.pop_route_peek(3) [OF ping_once_state(5), of "''a''"] ping_once_state(3)
    by (cases "pop_route list_lru (sv_routes ping_once) ''a''") (simp add: list_caches_def get_route_def)
  obtain session where ses: "lru_peek list_lru (sv_sessions ping_once) ''a'' = Some session"
    using ping_once_state(4) by blast
  have take: "take_payment_route_snapshot list_caches ''a'' ping_once = (ping_once, None)"
    using ping_once_state(2) by (simp add: take_payment_route_snapshot_def list_caches_def list_lru_def)
  have dfr: "try_defer_open_stream_response ''a'' ping_result ping_once = (ping_once, Passthrough)"
    by (simp add: try_defer_open_stream_response_def ping_once_state)
  let ?s = "ping_once\<lparr>sv_routes := st\<rparr>" and ?r = "restore_id (JString ''1'') ping_result"
  obtain s1 tags where a: "session_answer list_caches demo_server ''a'' ''a'' ?r ?s = (s1, tags)" by fastforce
  then have "sv_out s1 = sv_out ping_once"
    using session_answer_frame(10) [of list_caches demo_server "''a''" "''a''" ?r ?s] by simp
  moreover have "fst (send_response ping_ext list_caches demo_nostr demo_server ''a'' ping_result None ping_once) =
      fst (send_routed ping_ext list_caches demo_nostr demo_server ''a'' (new_route 5 ''a'' (JString ''1'') None)
        ping_result None ?s)"
    using take dfr pop by (simp add: send_response_def Let_def list_caches_def)
  ultimately show ?thesis
    using ses a
    by (auto simp: send_routed_def new_route_def list_caches_def demo_nostr_def needs_fragments_def server_frame Let_def)
qed

section \<open>Properties\<close>

text \<open>
  C16. The state of the server is well-typed after every history: each cache is valid and within the
  capacity it was made with, each map has one entry per key, running tasks are numbered apart, and a
  response is stashed only in a stream that has started and not ended.\<close>
theorem server_state_typed:
  assumes "server_caches C vs vr vg vp vo"
  shows "caches_typed vs vr vg vp vo C cfg (server_run X C N cfg evs) \<and> maps_typed (server_run X C N cfg evs)"
  by (rule server_caches.run_typed [OF assms])

theorem server_state_typed_witness:
  "maps_typed ping_once \<and> caches_typed list_lru_valid list_lru_valid list_lru_valid list_lru_valid list_lru_valid
     list_caches demo_server ping_once"
  using server_state_typed [OF server_list.server_caches_axioms] unfolding ping_once_def by blast

text \<open>
  C2. Every response the server publishes, at once, in frames, deferred to the end of a stream or delivered
  from a payment snapshot, answers a request that was admitted before: it goes to the client that signed the
  request's event and carries the id that request had. This holds in every interleaving of events, middleware
  chains, workers, publish failures and sweeps.\<close>
theorem response_correlation:
  assumes "server_caches C vs vr vg vp vo"
    "\<forall>event. nx_verify N event \<longrightarrow> ev_pubkey event = owner (ev_id event)"
    "\<forall>now ttl client e k n. Payment_Notification now ttl client e k n \<in> set evs \<longrightarrow> client = owner e"
    "sv_out (server_run X C N cfg evs) = pre @ x # post" "is_answer x"
  shows "\<exists>e c i. answer_for x e c i \<and> admitted pre e c i \<and> c = owner e"
proof -
  have "correlated owner C (server_run X C N cfg evs)"
    using server_caches.run_correlated [OF assms(1)] assms(2,3) by blast
  then have t: "traced (sv_out (server_run X C N cfg evs))"
    "\<forall>e c i. admitted (sv_out (server_run X C N cfg evs)) e c i \<longrightarrow> c = owner e"
    by (simp_all add: correlated_def)
  obtain e c i where a: "answer_for x e c i" "admitted pre e c i" using t(1) assms(4,5) unfolding traced_def by blast
  then have "admitted (sv_out (server_run X C N cfg evs)) e c i" by (simp add: assms(4) admitted_append)
  with a t(2) show ?thesis by blast
qed

theorem response_correlation_witness:
  "\<exists>x e c i. answer_for x e c i \<and> admitted (sv_out ping_once) e c i \<and> c = e"
proof -
  let ?evs = "[Inbound 5 (ping_event ''a''), Send_Response ''a'' ping_result None]"
  obtain p where "sv_out (server_run ping_ext list_caches demo_nostr demo_server ?evs) =
      sv_out ping_once @ Answered ''a'' p # []"
    using ping_sent by (auto simp: ping_once_def server_run_def)
  then show ?thesis
    using response_correlation [OF server_list.server_caches_axioms, where owner = "\<lambda>e. e" and N = demo_nostr
        and evs = ?evs and X = ping_ext and cfg = demo_server]
    by (fastforce simp: demo_nostr_def)
qed

end
