(* ===== verification/Server_Delivery.thy ===== *)
theory Server_Delivery
  imports Server_Typing
begin

text \<open>
  Delivery of responses that cannot leave at once: behind an open stream, and from the snapshot that
  a payment captured. Every statement allows arbitrary other traffic of the server in between.
\<close>

section \<open>Answers for one event\<close>

fun answers :: "string \<Rightarrow> server_effect \<Rightarrow> bool" where
  "answers e (Answered e' p) \<longleftrightarrow> e' = e"
| "answers e (Answered_In_Frames e' c m t a b k) \<longleftrightarrow> e' = e"
| "answers e _ \<longleftrightarrow> False"

definition answers_of :: "string \<Rightarrow> ('s, 'r, 'g, 'p, 'o) server \<Rightarrow> server_effect list" where
  "answers_of e s = filter (answers e) (sv_out s)"

lemma quiet_answers: "quiet x \<Longrightarrow> \<not> answers e x"
  by (cases x) simp_all

lemma extends_answers: "extends_by quiet s s' \<Longrightarrow> answers_of e s' = answers_of e s"
  using quiet_answers by (fastforce simp: extends_by_def answers_of_def filter_empty_conv)

lemma touches_answers_of: "touches s s' \<Longrightarrow> answers_of e s' = answers_of e s"
  by (simp add: touches_def extends_answers)

lemma answers_of_simps [simp]:
  "answers_of e (s\<lparr>sv_slots := m\<rparr>) = answers_of e s" "answers_of e (drop_token slot s) = answers_of e s"
  "answers_of e (record_payment_route_snapshot C now e' snap x s) = answers_of e s"
  by (simp_all add: answers_of_def server_frame)

lemma send_deferred_frame [server_frame]:
  "sv_slots (fst (send_deferred C N cfg e snap r p s)) = sv_slots s"
  "sv_routes (fst (send_deferred C N cfg e snap r p s)) = sv_routes s"
  by (simp_all add: send_deferred_def Let_def case_prod_unfold server_frame split: option.split)

lemma send_routed_frame [server_frame]:
  "sv_slots (fst (send_routed X C N cfg e route r m s)) = sv_slots s"
  by (simp add: send_routed_def Let_def case_prod_unfold server_frame split: option.split)

lemma send_deferred_other: "e' \<noteq> e \<Longrightarrow> answers_of e (fst (send_deferred C N cfg e' snap r p s)) = answers_of e s"
  by (simp add: send_deferred_def Let_def case_prod_unfold answers_of_def server_frame split: option.split)

lemma send_routed_other: "e' \<noteq> e \<Longrightarrow> answers_of e (fst (send_routed X C N cfg e' route r m s)) = answers_of e s"
  by (simp add: send_routed_def Let_def case_prod_unfold answers_of_def server_frame split: option.split)

text \<open>What publishing from a snapshot emits.\<close>

lemma send_deferred_out:
  assumes "nx_event_id_ok N e"
  shows "\<exists>p. answers_of e (fst (send_deferred C N cfg e snap r payment s)) = answers_of e s @ [Answered e p] \<and>
      pb_recipient p = rsn_client_pubkey snap \<and> pb_message p = restore_id (rsn_original_request_id snap) r"
    "snd (send_deferred C N cfg e snap r payment s) = Response_Sending"
  using assms by (simp_all add: send_deferred_def Let_def case_prod_unfold answers_of_def server_frame)

lemma try_defer_other:
  assumes "e' \<noteq> e"
  shows "map_of (sv_slots (fst (try_defer_open_stream_response e' r s))) e = map_of (sv_slots s) e"
  using assms
  by (simp add: try_defer_open_stream_response_def Let_def server_frame split: option.split)

lemma take_snapshot_frame:
  "take_payment_route_snapshot C e s = (s', p) \<Longrightarrow>
    sv_slots s' = sv_slots s \<and> sv_out s' = sv_out s \<and> sv_sessions s' = sv_sessions s \<and> sv_routes s' = sv_routes s"
  by (auto simp: take_payment_route_snapshot_def split: prod.splits)

lemma send_response_other:
  assumes "e' \<noteq> e"
  shows "map_of (sv_slots (fst (send_response X C N cfg e' r m s))) e = map_of (sv_slots s) e"
    "answers_of e (fst (send_response X C N cfg e' r m s)) = answers_of e s"
proof -
  obtain s1 entry where t: "take_payment_route_snapshot C e' s = (s1, entry)" by fastforce
  obtain s2 d where d: "(if sc_open_stream_enabled cfg then try_defer_open_stream_response e' r s1
      else (s1, Passthrough)) = (s2, d)" by fastforce
  have s2: "map_of (sv_slots s2) e = map_of (sv_slots s) e" "answers_of e s2 = answers_of e s"
    using take_snapshot_frame [OF t] try_defer_other [OF assms, of r s1] try_defer_frame(5) [of e' r s1 s2 d] d
    by (auto simp: answers_of_def split: if_splits)
  obtain st popped where p: "pop_route (lc_routes C) (sv_routes s2) e' = (st, popped)" by fastforce
  have "answers_of e (s2\<lparr>sv_routes := st\<rparr>) = answers_of e s2" by (simp add: answers_of_def)
  with t d p s2 show "answers_of e (fst (send_response X C N cfg e' r m s)) = answers_of e s"
    by (simp add: send_response_def Let_def send_deferred_other [OF assms] send_routed_other [OF assms]
        split: open_stream_deferral.split option.split)
  show "map_of (sv_slots (fst (send_response X C N cfg e' r m s))) e = map_of (sv_slots s) e"
    using t d p s2 by (simp add: send_response_def Let_def server_frame split: open_stream_deferral.split option.split)
qed

section \<open>A stream in progress\<close>

text \<open>The events of the server that leave the stream of \<open>e\<close> and its response alone.\<close>

fun leaves_stream :: "string \<Rightarrow> server_event \<Rightarrow> bool" where
  "leaves_stream e (Send_Response e' r m) \<longleftrightarrow> e' \<noteq> e"
| "leaves_stream e (Stream_Ends e') \<longleftrightarrow> e' \<noteq> e"
| "leaves_stream e (Close_Server d) \<longleftrightarrow> False"
| "leaves_stream e _ \<longleftrightarrow> True"

definition streaming ::
  "string \<Rightarrow> route_snapshot \<Rightarrow> json_rpc_message option \<Rightarrow> bool \<Rightarrow> open_stream_slot option \<Rightarrow> bool" where
  "streaming e snap pending ended slot \<longleftrightarrow>
     (\<exists>x. slot = Some x \<and> sl_has_started x \<and> sl_forwarded x \<and> sl_snapshot x = snap \<and>
        sl_pending_response x = pending \<and> sl_terminated x = ended)"

lemma streaming_update:
  assumes "streaming e snap pending ended (map_of (sv_slots s) e)"
    "\<And>x. sl_has_started x \<Longrightarrow> sl_has_started (f x)" "\<And>x. sl_forwarded x \<Longrightarrow> sl_forwarded (f x)"
    "\<And>x. sl_snapshot (f x) = sl_snapshot x" "\<And>x. sl_pending_response (f x) = sl_pending_response x"
    "\<And>x. sl_terminated (f x) = sl_terminated x"
  shows "streaming e snap pending ended (map_of (sv_slots (update_slot e' f s)) e)"
  using assms unfolding update_slot_slots by (auto simp: streaming_def)

lemma streaming_dispatch:
  "streaming e snap pending ended (map_of (sv_slots s) e) \<Longrightarrow>
    streaming e snap pending ended (map_of (sv_slots (dispatch_inbound cfg r ctx s)) e)"
  by (simp add: dispatch_inbound_def enter_chain_def Let_def server_frame streaming_update)

lemma streaming_reserve:
  "streaming e snap pending ended (map_of (sv_slots s) e) \<Longrightarrow>
    streaming e snap pending ended (map_of (sv_slots (reserve_request C N cfg now event env i pt wt s)) e)"
  by (auto simp: reserve_request_def create_open_stream_writer_def Let_def contains_key_def streaming_def
      split: option.split)

lemma streaming_leave:
  assumes "streaming e snap pending ended (map_of (sv_slots s) e)"
  shows "streaming e snap pending ended (map_of (sv_slots (fst (leave_chain e' s))) e)"
  using assms by (auto simp: leave_chain_def Let_def streaming_def split: option.split)

lemma admits_delivery:
  assumes "admits C N cfg now event env s s'"
  shows "answers_of e s' = answers_of e s"
    "streaming e snap pending ended (map_of (sv_slots s) e) \<Longrightarrow>
      streaming e snap pending ended (map_of (sv_slots s') e)"
  using assms
  by (auto simp: admits_def answers_of_def server_frame intro: streaming_dispatch streaming_dispatch [OF streaming_reserve])

lemma server_step_other:
  assumes "leaves_stream e ev"
  shows "answers_of e (server_step X C N cfg s ev) = answers_of e s"
    "streaming e snap pending ended (map_of (sv_slots s) e) \<Longrightarrow>
      streaming e snap pending ended (map_of (sv_slots (server_step X C N cfg s ev)) e)"
proof -
  let ?s' = "server_step X C N cfg s ev" and ?P = "streaming e snap pending ended"
  have "answers_of e ?s' = answers_of e s \<and> (?P (map_of (sv_slots s) e) \<longrightarrow> ?P (map_of (sv_slots ?s') e))"
  proof (cases ev)
    case (Inbound now event)
    obtain s2 where "touches s s2" "?s' = s2 \<or> (\<exists>env. admits C N cfg now event env s2 ?s')"
      using inbound_event_shape [of s X C N cfg now event] Inbound by auto
    then show ?thesis
      using touches_answers_of [of s s2 e] admits_delivery [of C N cfg now event _ s2 ?s' e]
      by (auto simp: touches_def)
  next
    case (Chain_Forwards n m b)
    then show ?thesis
      by (auto simp: chain_forward_def Let_def server_frame answers_of_def mark_forwarded_def
          split: option.split server_task.split intro!: streaming_update)
  next
    case (Chain_Ends n)
    have "answers_of e (chain_end C n run s) = answers_of e s" "?P (map_of (sv_slots s) e) \<Longrightarrow>
        ?P (map_of (sv_slots (chain_end C n run s)) e)" for run
    proof -
      obtain s1 where s1: "sv_slots s1 = sv_slots s" "sv_out s1 = sv_out s" "chain_end C n run s =
          (case leave_chain (in_event_id (cr_incoming run)) s1 of (s2, None) \<Rightarrow> s2 | (s2, Some slot) \<Rightarrow> drop_token slot s2)"
      proof -
        obtain st popped where p: "pop_route (lc_routes C) (sv_routes s) (in_event_id (cr_incoming run)) = (st, popped)"
          by fastforce
        show thesis
          by (rule that [of "if cr_reached run then s\<lparr>sv_tasks := AList.delete n (sv_tasks s)\<rparr>
                else s\<lparr>sv_tasks := AList.delete n (sv_tasks s), sv_routes := st, sv_wrap_kinds :=
                  (if popped \<noteq> None then AList.delete (in_event_id (cr_incoming run)) (sv_wrap_kinds s)
                   else sv_wrap_kinds s)\<rparr>"])
            (simp_all add: chain_end_def Let_def p)
      qed
      have "sv_slots (chain_end C n run s) = sv_slots (fst (leave_chain (in_event_id (cr_incoming run)) s1))"
        "sv_out (chain_end C n run s) = sv_out (fst (leave_chain (in_event_id (cr_incoming run)) s1))"
        unfolding s1(3) by (auto simp: server_frame split: prod.split option.split)
      moreover have "sv_out (fst (leave_chain e' s1)) = sv_out s1" for e'
        by (simp add: leave_chain_def Let_def split: option.split)
      ultimately show "answers_of e (chain_end C n run s) = answers_of e s" "?P (map_of (sv_slots s) e) \<Longrightarrow>
          ?P (map_of (sv_slots (chain_end C n run s)) e)"
        using streaming_leave [of e snap pending ended s1] s1 by (simp_all add: answers_of_def)
    qed
    then show ?thesis using Chain_Ends by (simp split: option.split server_task.split)
  next
    case (Send_Response e' r m)
    then have "e' \<noteq> e" using assms by simp
    then show ?thesis using Send_Response by (simp add: send_response_other)
  next
    case (Publish_Result now n ok)
    then show ?thesis
      by (simp add: Let_def response_published_def deferred_published_def server_frame answers_of_def
          split: option.split server_task.split)
  next
    case (Writer_Starts e')
    then show ?thesis by (auto simp: server_frame answers_of_def intro: streaming_update)
  next
    case (Stream_Ends e')
    then have "e' \<noteq> e" using assms by simp
    then show ?thesis
      using Stream_Ends
      by (simp add: flush_open_stream_response_def server_frame send_deferred_other split: option.split)
  next
    case (Payment_Notification now ttl c e' k n)
    have "answers_of e (fst (publish_notification C N cfg k c x n s1)) = answers_of e s1"
      "sv_slots (fst (publish_notification C N cfg k c x n s1)) = sv_slots s1" for x s1
      using publish_notification_touches [of s1 C N cfg k c x n] touches_answers_of by (blast, simp add: touches_def)
    then show ?thesis
      using Payment_Notification
      by (auto simp: payment_notification_sender_def Let_def server_frame split: option.split)
  next
    case (Cleanup now)
    then show ?thesis
      by (simp add: cleanup_tick_def server_frame answers_of_def split: prod.split)
  next
    case (Targeted_Response c e' r)
    then show ?thesis
      using send_targeted_response_touches [of s C N cfg c e' r] touches_answers_of by (auto simp: touches_def)
  next
    case (Send_Notification c n e')
    then show ?thesis
      using send_notification_touches [of s C N cfg c n e'] touches_answers_of by (auto simp: touches_def)
  next
    case (Broadcast n)
    then show ?thesis using broadcast_touches [of s C N cfg n] touches_answers_of by (auto simp: touches_def)
  next
    case (Oversized_Sweep now)
    then show ?thesis using sweep_oversized_touches [of s C now] touches_answers_of by (auto simp: touches_def)
  next
    case (Client_Silent c)
    then show ?thesis using release_silent_touches [of s C cfg c] touches_answers_of by (auto simp: touches_def)
  next
    case (Close_Server d)
    then show ?thesis using assms by simp
  qed
  then show "answers_of e ?s' = answers_of e s" "?P (map_of (sv_slots s) e) \<Longrightarrow> ?P (map_of (sv_slots ?s') e)"
    by blast+
qed

lemma server_steps_other:
  assumes "\<forall>ev \<in> set evs. leaves_stream e ev"
  shows "answers_of e (foldl (server_step X C N cfg) s evs) = answers_of e s"
    "streaming e snap pending ended (map_of (sv_slots s) e) \<Longrightarrow>
      streaming e snap pending ended (map_of (sv_slots (foldl (server_step X C N cfg) s evs)) e)"
  using assms by (induction evs arbitrary: s) (simp_all add: server_step_other)

section \<open>Both orders of response and end of stream\<close>

lemma send_response_streaming:
  assumes "streaming e snap pending ended (map_of (sv_slots s) e)" "sc_open_stream_enabled cfg"
  shows "\<not> ended \<Longrightarrow> streaming e snap (Some r) False
      (map_of (sv_slots (fst (send_response X C N cfg e r m s))) e) \<and>
      answers_of e (fst (send_response X C N cfg e r m s)) = answers_of e s"
    "ended \<Longrightarrow> nx_event_id_ok N e \<Longrightarrow> \<exists>p. answers_of e (fst (send_response X C N cfg e r m s)) =
      answers_of e s @ [Answered e p] \<and> pb_recipient p = rsn_client_pubkey snap \<and>
      pb_message p = restore_id (rsn_original_request_id snap) r"
proof -
  obtain slot where slot: "map_of (sv_slots s) e = Some slot" "sl_has_started slot" "sl_forwarded slot"
      "sl_snapshot slot = snap" "sl_pending_response slot = pending" "sl_terminated slot = ended"
    using assms(1) by (auto simp: streaming_def)
  obtain s1 entry where t: "take_payment_route_snapshot C e s = (s1, entry)" by fastforce
  have s1: "sv_slots s1 = sv_slots s" "sv_out s1 = sv_out s" using take_snapshot_frame [OF t] by simp_all
  show "streaming e snap (Some r) False (map_of (sv_slots (fst (send_response X C N cfg e r m s))) e) \<and>
      answers_of e (fst (send_response X C N cfg e r m s)) = answers_of e s" if "\<not> ended"
    using slot that t s1 assms(2)
    by (simp add: send_response_def try_defer_open_stream_response_def Let_def streaming_def answers_of_def)
  show "\<exists>p. answers_of e (fst (send_response X C N cfg e r m s)) = answers_of e s @ [Answered e p] \<and>
      pb_recipient p = rsn_client_pubkey snap \<and> pb_message p = restore_id (rsn_original_request_id snap) r"
    if "ended" "nx_event_id_ok N e"
  proof -
    let ?s2 = "drop_token slot (s1\<lparr>sv_slots := AList.delete e (sv_slots s1)\<rparr>)"
    have "answers_of e ?s2 = answers_of e s" by (simp add: answers_of_def server_frame s1)
    moreover have "fst (send_response X C N cfg e r m s) = fst (send_deferred C N cfg e snap r None ?s2)"
      using slot that t s1 assms(2) by (simp add: send_response_def try_defer_open_stream_response_def Let_def)
    ultimately show ?thesis using send_deferred_out(1) [OF that(2), of C cfg snap r None ?s2] by simp
  qed
qed

lemma stream_ends_streaming:
  assumes "streaming e snap pending False (map_of (sv_slots s) e)"
  shows "pending = None \<Longrightarrow>
      streaming e snap None True (map_of (sv_slots (flush_open_stream_response C N cfg e s)) e) \<and>
      answers_of e (flush_open_stream_response C N cfg e s) = answers_of e s"
    "pending = Some r \<Longrightarrow> nx_event_id_ok N e \<Longrightarrow> \<exists>p. answers_of e (flush_open_stream_response C N cfg e s) =
      answers_of e s @ [Answered e p] \<and> pb_recipient p = rsn_client_pubkey snap \<and>
      pb_message p = restore_id (rsn_original_request_id snap) r"
proof -
  obtain slot where slot: "map_of (sv_slots s) e = Some slot" "sl_has_started slot" "sl_forwarded slot"
      "sl_snapshot slot = snap" "sl_pending_response slot = pending"
    using assms by (auto simp: streaming_def)
  show "streaming e snap None True (map_of (sv_slots (flush_open_stream_response C N cfg e s)) e) \<and>
      answers_of e (flush_open_stream_response C N cfg e s) = answers_of e s" if "pending = None"
    using slot that by (simp add: flush_open_stream_response_def streaming_def answers_of_def)
  show "\<exists>p. answers_of e (flush_open_stream_response C N cfg e s) = answers_of e s @ [Answered e p] \<and>
      pb_recipient p = rsn_client_pubkey snap \<and> pb_message p = restore_id (rsn_original_request_id snap) r"
    if "pending = Some r" "nx_event_id_ok N e"
  proof -
    let ?s2 = "drop_token slot (s\<lparr>sv_slots := AList.delete e (sv_slots s)\<rparr>)"
    have "answers_of e ?s2 = answers_of e s" by (simp add: answers_of_def server_frame)
    then show ?thesis
      using send_deferred_out(1) [OF that(2), of C cfg snap r None ?s2] slot that
      by (simp add: flush_open_stream_response_def)
  qed
qed

section \<open>Payment snapshots\<close>

lemma send_response_no_slot:
  assumes "map_of (sv_slots s) e = None" "take_payment_route_snapshot C e s = (s1, entry)"
    "pop_route (lc_routes C) (sv_routes s) e = (st, popped)"
  shows "send_response X C N cfg e r m s =
    (case popped of
       Some route \<Rightarrow> send_routed X C N cfg e route r m (s1\<lparr>sv_routes := st\<rparr>)
     | None \<Rightarrow> (case entry of
         Some p \<Rightarrow> send_deferred C N cfg e (prs_snapshot p) r (Some p) (s1\<lparr>sv_routes := st\<rparr>)
       | None \<Rightarrow> (s1\<lparr>sv_routes := st\<rparr>, Response_Failed No_Route)))"
proof -
  have "try_defer_open_stream_response e r s1 = (s1, Passthrough)"
    using assms take_snapshot_frame [OF assms(2)] by (simp add: try_defer_open_stream_response_def)
  then show ?thesis
    using assms take_snapshot_frame [OF assms(2)] by (simp add: send_response_def Let_def split: option.split)
qed

lemma send_deferred_task:
  assumes "nx_event_id_ok N e"
  shows "sv_tasks (fst (send_deferred C N cfg e snap r payment s)) = (sv_next s, Sending_Deferred e payment) # sv_tasks s"
    "sv_snapshots (fst (send_deferred C N cfg e snap r payment s)) = sv_snapshots s"
  using assms by (simp_all add: send_deferred_def Let_def case_prod_unfold server_frame)

context server_caches
begin

text \<open>The snapshot of a payment survives the cleanup until it expires.\<close>

lemma capture_snapshot:
  assumes "vp (sv_snapshots s)" "lru_peek (lc_snapshots C) (sv_snapshots s) e = None"
    "lru_len (lc_snapshots C) (sv_snapshots s) < lru_cap (lc_snapshots C) (sv_snapshots s)"
  shows "lru_peek (lc_snapshots C) (sv_snapshots (record_payment_route_snapshot C now e snap x s)) e =
      Some \<lparr>prs_snapshot = snap, prs_expires_at = x\<rparr>"
    "vp (sv_snapshots (record_payment_route_snapshot C now e snap x s))"
  using assms
  by (simp_all add: record_payment_route_snapshot_def lru_contains_def Let_def snaps.put_peek_key snaps.put_valid)

lemma cleanup_snapshot:
  assumes "vp (sv_snapshots s)" "lru_peek (lc_snapshots C) (sv_snapshots s) e = Some entry" "now < prs_expires_at entry"
  shows "lru_peek (lc_snapshots C) (sv_snapshots (cleanup_tick C cfg now s)) e = Some entry"
proof -
  have "e \<notin> fst ` {x \<in> set (lru_iter (lc_snapshots C) (sv_snapshots s)). prs_expires_at (snd x) \<le> now}"
  proof
    assume "e \<in> fst ` {x \<in> set (lru_iter (lc_snapshots C) (sv_snapshots s)). prs_expires_at (snd x) \<le> now}"
    then obtain p where "(e, p) \<in> set (lru_iter (lc_snapshots C) (sv_snapshots s))" "prs_expires_at p \<le> now" by auto
    then have "lru_peek (lc_snapshots C) (sv_snapshots s) e = Some p"
      using snaps.valid_keys [OF assms(1)] by (simp add: lru_peek_def keys_ok_def)
    with assms(2,3) \<open>prs_expires_at p \<le> now\<close> show False by simp
  qed
  then have "e \<notin> set (map fst (filter (\<lambda>(key, entry). prs_expires_at entry \<le> now)
      (lru_iter (lc_snapshots C) (sv_snapshots s))))" by auto
  then show ?thesis
    using assms(2)
    by (simp add: cleanup_tick_def purge_payment_snapshots_def Let_def snaps.pop_all_peek [OF assms(1)]
        restrict_map_def case_prod_unfold)
qed

lemma cleanup_sweeps:
  assumes "vr (rs_routes (sv_routes s))" "\<And>route. get_route (lc_routes C) (sv_routes s) e = Some route \<Longrightarrow>
      sc_request_timeout cfg \<le> duration_since now (rt_registered_at route)"
  shows "get_route (lc_routes C) (sv_routes (cleanup_tick C cfg now s)) e = None"
proof -
  obtain ss rt ks n where c: "cleanup_sessions (lc_sessions C) (lc_routes C) now (sc_session_timeout cfg)
      (sv_sessions s) (sv_routes s) (sv_wrap_kinds s) = (ss, rt, ks, n)" by (metis prod_cases4)
  obtain keys where rt: "rt = remove_routes (lc_routes C) keys (sv_routes s)"
    using c by (auto simp: cleanup_sessions_def Let_def split: prod.splits)
  have v: "vr (rs_routes rt)" unfolding rt by (rule rts.remove_routes_valid [OF assms(1)])
  let ?old = "map fst (filter (\<lambda>(key, entry).
      sc_request_timeout cfg \<le> duration_since now (rt_registered_at entry)) (lru_iter (lc_routes C) (rs_routes rt)))"
  have "e \<in> set ?old" if "lru_peek (lc_routes C) (rs_routes rt) e = Some r" for r
  proof -
    have "get_route (lc_routes C) (sv_routes s) e = Some r"
      using that rts.remove_routes_peek [OF assms(1), of keys]
      by (simp add: rt get_route_def restrict_map_def split: if_splits)
    moreover have "(e, r) \<in> set (lru_iter (lc_routes C) (rs_routes rt))"
      using that by (simp add: lru_peek_def map_of_SomeD)
    ultimately show ?thesis using assms(2) by force
  qed
  then have "(lru_peek (lc_routes C) (rs_routes rt) |` (- set ?old)) e = None"
    by (cases "lru_peek (lc_routes C) (rs_routes rt) e") (auto simp: restrict_map_def)
  then have "lru_peek (lc_routes C) (rs_routes (remove_routes (lc_routes C) ?old rt)) e = None"
    using rts.remove_routes_peek [OF v, of ?old] by simp
  then show ?thesis
    by (simp add: cleanup_tick_def c sweep_stale_routes_def get_route_def server_frame Let_def)
qed

lemma send_from_snapshot:
  assumes "vp (sv_snapshots s)" "vr (rs_routes (sv_routes s))" "map_of (sv_slots s) e = None"
    "get_route (lc_routes C) (sv_routes s) e = None"
    "lru_peek (lc_snapshots C) (sv_snapshots s) e = Some entry" "nx_event_id_ok N e"
  shows "\<exists>p. answers_of e (fst (send_response X C N cfg e r m s)) = answers_of e s @ [Answered e p] \<and>
      pb_recipient p = rsn_client_pubkey (prs_snapshot entry) \<and>
      pb_message p = restore_id (rsn_original_request_id (prs_snapshot entry)) r"
    "map_of (sv_tasks (fst (send_response X C N cfg e r m s))) (sv_next s) = Some (Sending_Deferred e (Some entry))"
    "map_of (sv_slots (fst (send_response X C N cfg e r m s))) e = None"
    "get_route (lc_routes C) (sv_routes (fst (send_response X C N cfg e r m s))) e = None"
    "vp (sv_snapshots (fst (send_response X C N cfg e r m s)))"
proof -
  obtain s1 x where t: "take_payment_route_snapshot C e s = (s1, x)" by fastforce
  then have x: "x = Some entry" "vp (sv_snapshots s1)" "sv_next s1 = sv_next s" "sv_slots s1 = sv_slots s"
      "sv_out s1 = sv_out s"
    using snaps.pop_peek(2) [OF assms(1), of e] snaps.pop_valid [OF assms(1), of e] assms(5)
    by (auto simp: take_payment_route_snapshot_def split: prod.splits)
  obtain st popped where p: "pop_route (lc_routes C) (sv_routes s) e = (st, popped)" by fastforce
  have none: "popped = None" "lru_peek (lc_routes C) (rs_routes st) e = None"
    using pop_route_peek [OF assms(2) p] assms(4) by (auto simp: get_route_def map_le_def dom_def)
  let ?s = "s1\<lparr>sv_routes := st\<rparr>"
  have r: "fst (send_response X C N cfg e r m s) = fst (send_deferred C N cfg e (prs_snapshot entry) r (Some entry) ?s)"
    using send_response_no_slot [OF assms(3) t p] x none by simp
  have "answers_of e ?s = answers_of e s" using x by (simp add: answers_of_def)
  then show "\<exists>p. answers_of e (fst (send_response X C N cfg e r m s)) = answers_of e s @ [Answered e p] \<and>
      pb_recipient p = rsn_client_pubkey (prs_snapshot entry) \<and>
      pb_message p = restore_id (rsn_original_request_id (prs_snapshot entry)) r"
    unfolding r using send_deferred_out(1) [OF assms(6), of C cfg "prs_snapshot entry" r "Some entry" ?s] by simp
  show "map_of (sv_tasks (fst (send_response X C N cfg e r m s))) (sv_next s) = Some (Sending_Deferred e (Some entry))"
    "vp (sv_snapshots (fst (send_response X C N cfg e r m s)))"
    "map_of (sv_slots (fst (send_response X C N cfg e r m s))) e = None"
    "get_route (lc_routes C) (sv_routes (fst (send_response X C N cfg e r m s))) e = None"
    unfolding r using x none assms(3) by (simp_all add: send_deferred_task [OF assms(6)] server_frame get_route_def)
qed

lemma failed_publish_restores:
  assumes "map_of (sv_tasks s) n = Some (Sending_Deferred e (Some entry))" "vp (sv_snapshots s)"
    "s' = server_step X C N cfg s (Publish_Result now n False)"
  shows "lru_peek (lc_snapshots C) (sv_snapshots s') e = Some entry" "vp (sv_snapshots s')"
    "sv_slots s' = sv_slots s" "sv_routes s' = sv_routes s" "answers_of e' s' = answers_of e' s"
  using assms
  by (simp_all add: Let_def deferred_published_def reinsert_payment_route_snapshot_def snaps.put_peek_key
      snaps.put_valid answers_of_def)

lemma capture_state:
  assumes "caches_typed vs vr vg vp vo C cfg s" "get_route (lc_routes C) (sv_routes s) e = Some route"
    "lru_peek (lc_sessions C) (sv_sessions s) c = Some session" "nx_pubkey_ok N c"
    "message_method n = Some PAYMENT_REQUIRED_METHOD"
    "lru_peek (lc_snapshots C) (sv_snapshots s) e = None"
    "lru_len (lc_snapshots C) (sv_snapshots s) < lru_cap (lc_snapshots C) (sv_snapshots s)"
    "s' = server_step X C N cfg s (Payment_Notification now ttl c e k n)"
  shows "lru_peek (lc_snapshots C) (sv_snapshots s') e = Some \<lparr>prs_snapshot = \<lparr>rsn_client_pubkey = c,
      rsn_original_request_id = rt_original_request_id route, rsn_is_encrypted = cs_is_encrypted session,
      rsn_mirrored_wrap_kind = k\<rparr>, prs_expires_at = now + ttl\<rparr>"
    "sv_slots s' = sv_slots s" "answers_of e' s' = answers_of e' s" "sv_routes s' = sv_routes s"
proof -
  let ?snap = "\<lparr>rsn_client_pubkey = c, rsn_original_request_id = rt_original_request_id route,
      rsn_is_encrypted = cs_is_encrypted session, rsn_mirrored_wrap_kind = k\<rparr>"
  let ?s1 = "record_payment_route_snapshot C now e ?snap (now + ttl) s"
  have v: "vp (sv_snapshots s)" using assms(1) by (simp add: caches_typed_def)
  have s': "s' = fst (publish_notification C N cfg k c (Some e) n ?s1)"
    using assms(2-5,8) by (simp add: payment_notification_sender_def get_session_def snapshot_of_def)
  have t: "touches ?s1 s'" unfolding s' by (rule publish_notification_touches)
  then show "lru_peek (lc_snapshots C) (sv_snapshots s') e = Some \<lparr>prs_snapshot = ?snap, prs_expires_at = now + ttl\<rparr>"
    "sv_slots s' = sv_slots s" "sv_routes s' = sv_routes s"
    using capture_snapshot(1) [OF v assms(6,7)] by (simp_all add: touches_def server_frame)
  show "answers_of e' s' = answers_of e' s"
    using touches_answers_of [OF t, of e'] by simp
qed

end

section \<open>Properties\<close>


text \<open>
  C13. A paid request is answered even if the payment takes longer than the server keeps its route: a route
  snapshot captured with the payment request outlives a cleanup that sweeps the route, until the payment's own
  deadline, and the response is delivered from it to the paying client under the original id. If that publish
  fails, a second attempt publishes the response again.\<close>
theorem paid_response_outlives_route:
  assumes "server_caches C vs vr vg vp vo" "caches_typed vs vr vg vp vo C cfg s"
    "get_route (lc_routes C) (sv_routes s) e = Some route"
    "lru_peek (lc_sessions C) (sv_sessions s) c = Some session" "nx_pubkey_ok N c" "nx_event_id_ok N e"
    "message_method n = Some PAYMENT_REQUIRED_METHOD" "lru_peek (lc_snapshots C) (sv_snapshots s) e = None"
    "lru_len (lc_snapshots C) (sv_snapshots s) < lru_cap (lc_snapshots C) (sv_snapshots s)"
    "map_of (sv_slots s) e = None" "swept < now + ttl"
    "s2 = foldl (server_step X C N cfg) s [Payment_Notification now ttl c e k n, Cleanup swept]"
    "sc_request_timeout cfg \<le> duration_since swept (rt_registered_at route)"
  shows "\<exists>p q. answers_of e (server_step X C N cfg s2 (Send_Response e r m)) = answers_of e s @ [Answered e p] \<and>
    pb_recipient p = c \<and> pb_message p = restore_id (rt_original_request_id route) r \<and>
    answers_of e (foldl (server_step X C N cfg) s2 [Send_Response e r m, Publish_Result later (sv_next s2) False,
      Send_Response e r m]) = answers_of e s @ [Answered e p, Answered e q] \<and>
    pb_recipient q = c \<and> pb_message q = restore_id (rt_original_request_id route) r"
proof -
  let ?step = "server_step X C N cfg"
  let ?entry = "\<lparr>prs_snapshot = \<lparr>rsn_client_pubkey = c, rsn_original_request_id = rt_original_request_id route,
      rsn_is_encrypted = cs_is_encrypted session, rsn_mirrored_wrap_kind = k\<rparr>, prs_expires_at = now + ttl\<rparr>"
  let ?s1 = "?step s (Payment_Notification now ttl c e k n)"
  note s1 = server_caches.capture_state [OF assms(1-5,7-9), OF refl]
  have t1: "caches_typed vs vr vg vp vo C cfg ?s1" by (rule server_caches.typed_step [OF assms(1,2)])
  have s2: "s2 = ?step ?s1 (Cleanup swept)" by (simp add: assms(12))
  have t2: "caches_typed vs vr vg vp vo C cfg s2" unfolding s2 by (rule server_caches.typed_step [OF assms(1) t1])
  have v: "vp (sv_snapshots s2)" "vr (rs_routes (sv_routes s2))" using t2 by (simp_all add: caches_typed_def)
  have snap: "lru_peek (lc_snapshots C) (sv_snapshots s2) e = Some ?entry"
    unfolding s2 server_step.simps
    by (rule server_caches.cleanup_snapshot [OF assms(1)])
      (use t1 s1(1) assms(11) in \<open>simp_all add: caches_typed_def\<close>)
  have gone: "get_route (lc_routes C) (sv_routes s2) e = None"
    unfolding s2 server_step.simps
    by (rule server_caches.cleanup_sweeps [OF assms(1)])
      (use t1 s1(4) assms(3,13) in \<open>simp_all add: caches_typed_def\<close>)
  have "leaves_stream e (Cleanup swept)" by simp
  then have "answers_of e s2 = answers_of e s"
    using server_step_other(1) [of e "Cleanup swept" X C N cfg ?s1] s1(3) unfolding s2 by simp
  have slot: "map_of (sv_slots s2) e = None"
    using s1(2) assms(10) by (simp add: s2 cleanup_tick_def server_frame case_prod_unfold Let_def)
  define s3 where "s3 = ?step s2 (Send_Response e r m)"
  note s3 = server_caches.send_from_snapshot [OF assms(1) v slot gone snap assms(6), of X cfg r m,
      folded server_step.simps(4), folded s3_def]
  obtain p where p: "answers_of e s3 = answers_of e s @ [Answered e p]" "pb_recipient p = c"
      "pb_message p = restore_id (rt_original_request_id route) r"
    using s3(1) \<open>answers_of e s2 = answers_of e s\<close> by auto
  define s4 where "s4 = ?step s3 (Publish_Result later (sv_next s2) False)"
  note s4 = server_caches.failed_publish_restores [OF assms(1) s3(2) s3(5) s4_def]
  have t3: "caches_typed vs vr vg vp vo C cfg s3" unfolding s3_def by (rule server_caches.typed_step [OF assms(1) t2])
  have "caches_typed vs vr vg vp vo C cfg s4" unfolding s4_def by (rule server_caches.typed_step [OF assms(1) t3])
  then have vr4: "vr (rs_routes (sv_routes s4))" by (simp add: caches_typed_def)
  have "map_of (sv_slots s4) e = None" "get_route (lc_routes C) (sv_routes s4) e = None" using s3(3,4) s4(3,4) by simp_all
  from server_caches.send_from_snapshot(1) [OF assms(1) s4(2) vr4 this s4(1) assms(6), of X cfg r m]
  obtain q where q: "answers_of e (?step s4 (Send_Response e r m)) = answers_of e s4 @ [Answered e q]"
      "pb_recipient q = c" "pb_message q = restore_id (rt_original_request_id route) r"
    by auto
  have "foldl ?step s2 [Send_Response e r m, Publish_Result later (sv_next s2) False, Send_Response e r m] =
      ?step s4 (Send_Response e r m)" by (simp only: foldl_Cons foldl_Nil s3_def s4_def)
  then show ?thesis using p q s4(5) [of e] unfolding s3_def [symmetric] by (metis append.assoc append_Cons append_Nil)
qed

text \<open>
  C39. While the route of a request is still there, its response needs the client's session: without one the
  response fails, and the attempt has consumed both the route and the payment snapshot, so that the response
  cannot be sent any more, paid for or not.\<close>
theorem response_lost_without_session:
  assumes "server_caches C vs vr vg vp vo" "caches_typed vs vr vg vp vo C cfg s"
    "get_route (lc_routes C) (sv_routes s) e = Some route"
    "lru_peek (lc_sessions C) (sv_sessions s) (rt_client_pubkey route) = None" "map_of (sv_slots s) e = None"
    "send_response X C N cfg e r m s = (s', outcome)"
  shows "outcome = Response_Failed No_Session \<and> answers_of e s' = answers_of e s \<and>
    snd (send_response X C N cfg e r m s') = Response_Failed No_Route"
proof -
  have v: "vp (sv_snapshots s)" "vr (rs_routes (sv_routes s))" using assms(2) by (simp_all add: caches_typed_def)
  obtain s1 x where t: "take_payment_route_snapshot C e s = (s1, x)" by fastforce
  obtain st popped where p: "pop_route (lc_routes C) (sv_routes s) e = (st, popped)" by fastforce
  have popped: "popped = Some route"
    using server_caches.pop_route_peek(3) [OF assms(1) v(2) p] assms(3) by (simp add: get_route_def)
  note t' = take_snapshot_frame [OF t]
  have s': "s' = s1\<lparr>sv_routes := st\<rparr>" "outcome = Response_Failed No_Session"
    using send_response_no_slot [OF assms(5) t p, of X N cfg r m] assms(4,6) popped t'
    by (simp_all add: send_routed_def Let_def)
  have snap: "lru_peek (lc_snapshots C) (sv_snapshots s') e = None" "vp (sv_snapshots s')"
    using t lru.pop_peek(1) [OF server_caches.axioms(4) [OF assms(1)] v(1), of e]
      lru.pop_valid [OF server_caches.axioms(4) [OF assms(1)] v(1), of e]
    by (auto simp: s' take_payment_route_snapshot_def split: prod.splits)
  have route: "lru_peek (lc_routes C) (rs_routes (sv_routes s')) e = None" "vr (rs_routes (sv_routes s'))"
    using route_lru.remove_route_peek [OF server_caches.axioms(2) [OF assms(1)] v(2), of e] p
    by (simp_all add: s' pop_route_def)
  obtain s2 y where t2: "take_payment_route_snapshot C e s' = (s2, y)" by fastforce
  have y: "y = None"
    using t2 lru.pop_peek(2) [OF server_caches.axioms(4) [OF assms(1)] snap(2), of e] snap(1)
    by (auto simp: take_payment_route_snapshot_def split: prod.splits)
  obtain st2 popped2 where p2: "pop_route (lc_routes C) (sv_routes s') e = (st2, popped2)" by fastforce
  have "popped2 = None" using server_caches.pop_route_peek(3) [OF assms(1) route(2) p2] route(1) by simp
  moreover have "map_of (sv_slots s') e = None" using assms(5) t' by (simp add: s')
  ultimately have "snd (send_response X C N cfg e r m s') = Response_Failed No_Route"
    using send_response_no_slot [OF _ t2 p2, of X N cfg r m] y by simp
  then show ?thesis using s' t' by (simp add: answers_of_def)
qed

section \<open>Concrete deliveries\<close>

text \<open>The server of the example above with a stream in progress for event \<open>a\<close>.\<close>

definition demo_snapshot :: route_snapshot where
  "demo_snapshot = \<lparr>rsn_client_pubkey = ''a'', rsn_original_request_id = JString ''1'', rsn_is_encrypted = False,
     rsn_mirrored_wrap_kind = None\<rparr>"

definition streaming_server :: "(client_session lru_list, route_entry lru_list, unit lru_list,
    payment_route_snapshot lru_list, receiver lru_list) server" where
  "streaming_server = ping_once\<lparr>sv_slots := [(''a'', \<lparr>sl_progress_token = ''t'', sl_has_started = True,
     sl_snapshot = demo_snapshot, sl_pending_response = None, sl_terminated = False, sl_forwarded = True,
     sl_live_chains = 0\<rparr>)]\<rparr>"


lemma ping_once_typed: "caches_typed list_lru_valid list_lru_valid list_lru_valid list_lru_valid list_lru_valid
    list_caches demo_server ping_once"
  unfolding ping_once_def using server_list.run_typed by blast

definition demo_offer_notice :: json_rpc_message where
  "demo_offer_notice = Notification \<lparr>ntf_jsonrpc = ''2.0'', ntf_method = PAYMENT_REQUIRED_METHOD, ntf_params = None\<rparr>"

theorem paid_response_outlives_route_witness:
  "\<exists>p. answers_of ''a'' (foldl (server_step ping_ext list_caches demo_nostr demo_server) ping_once
       [Payment_Notification 6 100 ''a'' ''a'' None demo_offer_notice, Cleanup 50, Send_Response ''a'' ping_result None]) =
     answers_of ''a'' ping_once @ [Answered ''a'' p] \<and> pb_recipient p = ''a'' \<and>
     pb_message p = restore_id (JString ''1'') ping_result"
proof -
  obtain session where ses: "lru_peek (lc_sessions list_caches) (sv_sessions ping_once) ''a'' = Some session"
    using ping_once_state(4) by (auto simp: list_caches_def)
  have route: "get_route (lc_routes list_caches) (sv_routes ping_once) ''a'' = Some (new_route 5 ''a'' (JString ''1'') None)"
    using ping_once_state(3) by (simp add: list_caches_def)
  have snap: "lru_peek (lc_snapshots list_caches) (sv_snapshots ping_once) ''a'' = None"
    "lru_len (lc_snapshots list_caches) (sv_snapshots ping_once) < lru_cap (lc_snapshots list_caches) (sv_snapshots ping_once)"
    "map_of (sv_slots ping_once) ''a'' = None"
    by (simp_all add: ping_once_state list_caches_def lru_peek_def lru_len_def list_lru_def)
  have other: "nx_pubkey_ok demo_nostr ''a''" "nx_event_id_ok demo_nostr ''a''"
    "message_method demo_offer_notice = Some PAYMENT_REQUIRED_METHOD" "(50 :: nat) < 6 + 100"
    "sc_request_timeout demo_server \<le> duration_since 50 (rt_registered_at (new_route 5 ''a'' (JString ''1'') None))"
    by (simp_all add: demo_nostr_def demo_offer_notice_def demo_server_def new_route_def duration_since_def)
  from paid_response_outlives_route [OF server_list.server_caches_axioms ping_once_typed route ses other(1-3) snap
      other(4) refl other(5), where X = ping_ext and r = ping_result and m = None and k = None and later = 0]
  show ?thesis by (auto simp: new_route_def)
qed

theorem response_lost_without_session_witness:
  "\<exists>s'. send_response ping_ext list_caches demo_nostr demo_server ''a'' ping_result None
      (server_run ping_ext list_caches demo_nostr demo_server [Inbound 5 (ping_event ''a''), Client_Silent ''a'']) =
    (s', Response_Failed No_Session)"
proof -
  let ?s = "server_run ping_ext list_caches demo_nostr demo_server [Inbound 5 (ping_event ''a''), Client_Silent ''a'']"
  obtain s' outcome where r: "send_response ping_ext list_caches demo_nostr demo_server ''a'' ping_result None ?s = (s', outcome)"
    by fastforce
  have s: "?s = release_silent_client list_caches demo_server ''a'' ping_once" by (simp add: ping_once_def server_run_def)
  have typed: "caches_typed list_lru_valid list_lru_valid list_lru_valid list_lru_valid list_lru_valid
      list_caches demo_server ?s" using server_list.run_typed by blast
  have route: "get_route (lc_routes list_caches) (sv_routes ?s) ''a'' = Some (new_route 5 ''a'' (JString ''1'') None)"
    "map_of (sv_slots ?s) ''a'' = None"
    unfolding s using ping_once_state(1,3)
    by (simp_all add: release_silent_client_def list_caches_def case_prod_unfold Let_def)
  have "list_lru_valid (sv_sessions ping_once)" using ping_once_typed by (simp add: caches_typed_def)
  then have "lru_peek (lc_sessions list_caches) (sv_sessions ?s) (rt_client_pubkey (new_route 5 ''a'' (JString ''1'') None)) = None"
    unfolding s using list_lru.pop_peek(1) [of "sv_sessions ping_once" "''a''"]
    by (simp add: release_silent_client_def remove_session_def list_caches_def case_prod_unfold Let_def new_route_def)
  from response_lost_without_session [OF server_list.server_caches_axioms typed route(1) this route(2) r] r
  show ?thesis by simp
qed

end
