(* ===== verification/Spec2Isabelle.thy ===== *)
theory Spec2Isabelle
  imports Oversized_Delivery Open_Stream_Delivery Transparent_Payments Client_Inbound Server_Delivery
begin

text \<open>
  A verification development of the ContextVM Rust SDK (\<open>src/src/\<close>), which carries MCP
  JSON-RPC messages over Nostr events.

  Theories, in import order:
  \<^item> \<open>Prelude\<close>: machine integers, maps, durations, decimal formatting, the locale \<open>machine\<close>.
  \<^item> \<open>Json\<close>: \<open>serde_json::Value\<close> and the record \<open>ext\<close> of third-party functions.
  \<^item> \<open>Json_Rpc\<close>: \<open>core/types.rs\<close>, \<open>core/validation.rs\<close>, tag readers.
  \<^item> \<open>Oversized_Codec\<close>: the sender side of CEP-22 (\<open>frame.rs\<close>, \<open>codec.rs\<close>, \<open>sizing.rs\<close>,
    \<open>sender.rs\<close> of \<open>transport/oversized_transfer\<close>).
  \<^item> \<open>Oversized_Receiver\<close>: the reassembly engine (\<open>receiver.rs\<close>).
  \<^item> \<open>Oversized_Transfer\<close>, \<open>Oversized_Delivery\<close>: reachable receivers, integrity, bounds, the
    round trip with the sender and independence of chunk order.

  Conventions. The code's \<open>u64\<close> arithmetic is 64-bit word arithmetic, which wraps as the
  release profile does. Text parsing and printing of JSON, SHA-256 and canonical JSON are
  fields of \<open>ext\<close> and an argument \<open>X\<close> of the definitions that use them; a theorem that
  needs a fact about them states it as a hypothesis on the one payload involved. The map
  spelling of a unit enum variant that serde also reads is not modelled.
\<close>

end
